(* ===== verification/Prelude.thy ===== *)
theory Prelude
  imports Main "HOL-Library.Word"
begin

text \<open>
  Shared vocabulary of the development: Go's machine integers and byte slices, the
  named collections of simplification rules, and the generic lemmas on lists and words
  that the component theories share.

  \<^item> A Go \<^verbatim>\<open>[]byte\<close> is a \<open>byte list\<close>; \<^verbatim>\<open>uint32\<close> and \<^verbatim>\<open>uint64\<close> are words of their
    width, so that their arithmetic wraps as Go's does.
  \<^item> A Go \<^verbatim>\<open>int64\<close> is an \<open>int\<close>; every \<^verbatim>\<open>int64\<close> sum or difference of the code is written
    \<open>add64\<close> or \<open>sub64\<close>, which wrap to the two's-complement range of 64 bits.
  \<^item> \<open>patch d i xs\<close> is the effect of \<^verbatim>\<open>copy(d[i:], xs)\<close> where \<open>xs\<close> fits.
\<close>

unbundle bit_operations_syntax

type_synonym byte = "8 word"
type_synonym u32 = "32 word"
type_synonym u64 = "64 word"
type_synonym int64 = int
type_synonym duration = int \<comment> \<open>\<^verbatim>\<open>time.Duration\<close>: nanoseconds in an int64\<close>

named_theorems patch_simps "reading back a patchd byte list"
named_theorems run_simps "sequential execution of storage programs"
named_theorems le_simps "little-endian encoding and decoding"


section \<open>64-bit signed arithmetic\<close>

definition i64 :: "int \<Rightarrow> int64" where
  "i64 x = signed_take_bit 63 x"

definition add64 :: "int64 \<Rightarrow> int64 \<Rightarrow> int64" where
  "add64 a b = i64 (a + b)"

definition sub64 :: "int64 \<Rightarrow> int64 \<Rightarrow> int64" where
  "sub64 a b = i64 (a - b)"

definition mul64 :: "int64 \<Rightarrow> int64 \<Rightarrow> int64" where
  "mul64 a b = i64 (a * b)"

definition is_int64 :: "int \<Rightarrow> bool" where
  "is_int64 x \<longleftrightarrow> - (2 ^ 63) \<le> x \<and> x < 2 ^ 63"

lemma i64_id: "is_int64 x \<Longrightarrow> i64 x = x"
  by (simp add: i64_def is_int64_def signed_take_bit_int_eq_self)

lemma i64_code [code]: "i64 x = (if - (2 ^ 63) \<le> x \<and> x < 2 ^ 63 then x else signed_take_bit 63 x)"
  by (simp add: i64_id is_int64_def) (simp add: i64_def)

lemma i64_is_int64: "is_int64 (i64 x)"
  using signed_take_bit_int_greater_eq_minus_exp [of 63 x] signed_take_bit_int_less_exp [of 63 x]
  by (simp add: i64_def is_int64_def)

lemma add64_id: "is_int64 (a + b) \<Longrightarrow> add64 a b = a + b"
  by (simp add: add64_def i64_id)

lemma sub64_id: "is_int64 (a - b) \<Longrightarrow> sub64 a b = a - b"
  by (simp add: sub64_def i64_id)

lemma add64_nat: "a + b < 2 ^ 62 \<Longrightarrow> add64 (int a) (int b) = int (a + b)"
  by (subst add64_id) (simp_all add: is_int64_def)

lemma sub64_nat: "b \<le> a \<Longrightarrow> a < 2 ^ 62 \<Longrightarrow> sub64 (int a) (int b) = int (a - b)"
  by (subst sub64_id) (simp_all add: is_int64_def of_nat_diff)

text \<open>The wrap-around written out: an overflowing sum of two non-negative values.\<close>

lemma add64_overflow:
  assumes "a < 2 ^ 63" "b < 2 ^ 63" "2 ^ 63 \<le> a + b"
  shows "add64 a b = a + b - 2 ^ 64"
proof -
  have "(a + b + 2 ^ 63) mod 2 ^ 64 = (a + b + 2 ^ 63 - 2 ^ 64) mod 2 ^ 64"
    using assms by (intro mod_pos_geq) auto
  also have "\<dots> = a + b + 2 ^ 63 - 2 ^ 64"
    using assms by (intro mod_pos_pos_trivial) auto
  finally show ?thesis
    by (simp add: add64_def i64_def signed_take_bit_eq_take_bit_shift take_bit_eq_mod)
qed


section \<open>Masks\<close>

lemma int_and_pow2_minus_1: "(x::int) AND (2 ^ k - 1) = x mod 2 ^ k"
  by (simp add: take_bit_eq_mod flip: mask_eq_exp_minus_1 take_bit_eq_mask)


section \<open>Splicing a byte list\<close>

definition patch :: "'a list \<Rightarrow> nat \<Rightarrow> 'a list \<Rightarrow> 'a list" where
  "patch d i xs = take i d @ xs @ drop (i + length xs) d"

definition slice :: "'a list \<Rightarrow> nat \<Rightarrow> nat \<Rightarrow> 'a list" where
  "slice d i n = take n (drop i d)"

lemma length_patch [patch_simps]:
  "i + length xs \<le> length d \<Longrightarrow> length (patch d i xs) = length d"
  by (simp add: patch_def)

lemma length_slice [patch_simps]: "i + n \<le> length d \<Longrightarrow> length (slice d i n) = n"
  by (simp add: slice_def)

lemma nth_slice [patch_simps]: "i + n \<le> length d \<Longrightarrow> j < n \<Longrightarrow> slice d i n ! j = d ! (i + j)"
  by (simp add: slice_def)

lemma nth_patch:
  assumes "i + length xs \<le> length d" "j < length d"
  shows "patch d i xs ! j = (if i \<le> j \<and> j < i + length xs then xs ! (j - i) else d ! j)"
  using assms by (auto simp: patch_def nth_append)

lemma slice_patch_same [patch_simps]:
  "i + length xs \<le> length d \<Longrightarrow> slice (patch d i xs) i (length xs) = xs"
  by (simp add: slice_def patch_def)

lemma slice_patch_other:
  assumes "i + length xs \<le> length d" "j + n \<le> length d"
    and "j + n \<le> i \<or> i + length xs \<le> j"
  shows "slice (patch d i xs) j n = slice d j n"
  using assms by (intro nth_equalityI) (auto simp: patch_simps nth_patch)

lemma drop_patch: "i + length xs \<le> n \<Longrightarrow> n \<le> length d \<Longrightarrow> drop n (patch d i xs) = drop n d"
  by (simp add: patch_def)

lemma take_patch: "n \<le> i \<Longrightarrow> i \<le> length d \<Longrightarrow> take n (patch d i xs) = take n d"
  by (simp add: patch_def)

text \<open>\<^verbatim>\<open>copy(dst, src)\<close>: the new contents of \<^verbatim>\<open>dst\<close> and the number of bytes copied.\<close>

definition go_copy :: "'a list \<Rightarrow> 'a list \<Rightarrow> 'a list \<times> nat" where
  "go_copy dst src = (let n = min (length dst) (length src) in (take n src @ drop n dst, n))"

lemma go_copy_all: "length dst \<le> length src \<Longrightarrow> go_copy dst src = (take (length dst) src, length dst)"
  by (simp add: go_copy_def Let_def)

lemma length_go_copy [simp]: "length (fst (go_copy dst src)) = length dst"
  by (simp add: go_copy_def Let_def)

lemma patch_Nil [simp]: "patch d i [] = d"
  by (simp add: patch_def)

lemma slice_0 [simp]: "slice d i 0 = []"
  by (simp add: slice_def)

text \<open>Two texts cut at their first \<open>x\<close>.\<close>

lemma split_first: "a @ x # b = c @ x # d \<Longrightarrow> x \<notin> set a \<Longrightarrow> x \<notin> set c \<Longrightarrow> a = c"
proof (induction a arbitrary: c)
  case Nil
  then show ?case by (cases c) auto
next
  case (Cons y a)
  then show ?case by (cases c) auto
qed

lemma unat_neg:
  fixes x :: "32 word"
  assumes "0 < unat x"
  shows "unat (- x) = 2 ^ 32 - unat x"
proof -
  have x: "unat x < 2 ^ 32" using unsigned_less [of x, where ?'a = nat] by simp
  have [simp]: "(4294967296 :: 32 word) = 0" using word_exp_length_eq_0 [where ?'a = 32] by simp
  have "- x = of_nat (2 ^ 32 - unat x)" using x by (simp add: of_nat_diff)
  then show ?thesis using assms x by (simp only: unat_of_nat) (simp add: take_bit_nat_eq_self)
qed

end
