(* ===== verification/Program.thy ===== *)
theory Program
  imports Prelude
begin

text \<open>
  How the development represents Go code that touches shared state.

  \<^item> \<open>gerror\<close>: the sentinel errors of \<^verbatim>\<open>errors.go\<close> and \<^verbatim>\<open>backend.go\<close>, the standard
    library's, an operating-system error number, and what \<^verbatim>\<open>fmt.Errorf\<close> builds
    (\<open>Errorf\<close> without a wrapped error, \<open>ErrorfW\<close> with \<^verbatim>\<open>%w\<close>; the string is the text up
    to the first formatting verb).
  \<^item> \<open>panic\<close>: run-time panics and memory faults, which end the program.
  \<^item> \<open>('w, 'a) prog\<close>: a program over a shared world \<open>'w\<close> that returns an \<open>'a\<close>. Its
    \<open>Atomic\<close> steps are the storage accesses (and the other calls into the world);
    between two of them another program may run. \<open>Await\<close> blocks until its condition
    holds.
  \<^item> \<open>run\<close> executes one program alone; \<open>par_run\<close> executes two over one world under a
    schedule, one atomic step at a time.
  Every function of the code that reaches shared storage is one \<open>prog\<close>, so that the
  sequential and the concurrent theorems are about the same definition.
\<close>

section \<open>Errors and panics\<close>

datatype gerror =
    ErrClosed
  | ErrInvalidCapacity
  | ErrHeaderMismatch
  | ErrStorageTooSmall
  | ErrIncompleteSegment
  | EOF
  | ErrUnexpectedEOF
  | ErrShortWrite
  | Canceled
  | DeadlineExceeded
  | Errno nat
  | Errorf string
  | ErrorfW string gerror

text \<open>\<^verbatim>\<open>errors.Is\<close>: the target, or an error that wraps it.\<close>

fun errors_Is :: "gerror \<Rightarrow> gerror \<Rightarrow> bool" where
  "errors_Is (ErrorfW s e) t = (ErrorfW s e = t \<or> errors_Is e t)"
| "errors_Is e t = (e = t)"

datatype panic = SliceBounds | IndexOutOfRange | MemoryFault | PanicMsg string

text \<open>The outcome of one call: it returns a value, or it panics.\<close>

datatype 'a go = Ok 'a | Panic panic


section \<open>Programs\<close>

datatype (dead 'w, 'a) prog =
    Return 'a
  | Atomic "'w \<Rightarrow> ('w, 'a) prog \<times> 'w"
  | Await "'w \<Rightarrow> bool" "('w, 'a) prog"
  | Crash panic

primrec pbind :: "('w, 'a) prog \<Rightarrow> ('a \<Rightarrow> ('w, 'b) prog) \<Rightarrow> ('w, 'b) prog" where
  "pbind (Return a) k = k a"
| "pbind (Atomic f) k = Atomic (\<lambda>w. map_prod (\<lambda>p. pbind p k) id (f w))"
| "pbind (Await b p) k = Await b (pbind p k)"
| "pbind (Crash c) k = Crash c"

text \<open>One call that reads and writes the world atomically, and one that only reads it.\<close>

definition call :: "('w \<Rightarrow> 'a go \<times> 'w) \<Rightarrow> ('w, 'a) prog" where
  "call f = Atomic (\<lambda>w. case f w of (Ok a, w') \<Rightarrow> (Return a, w') | (Panic c, w') \<Rightarrow> (Crash c, w'))"

definition query :: "('w \<Rightarrow> 'a go) \<Rightarrow> ('w, 'a) prog" where
  "query f = call (\<lambda>w. (f w, w))"

text \<open>
  Induction over a program: an atomic step has one continuation per state of the world.
\<close>

lemma prog_induct [case_names Return Atomic Await Crash, induct type: prog]:
  assumes "\<And>a. P (Return a)"
    and "\<And>f. (\<And>w. P (fst (f w))) \<Longrightarrow> P (Atomic f)"
    and "\<And>b p. P p \<Longrightarrow> P (Await b p)"
    and "\<And>c. P (Crash c)"
  shows "P p"
proof (induction p rule: prog.induct)
  case (Atomic f)
  have "P (fst (f w))" for w
    by (rule Atomic [of "f w"]) (auto simp: prod_set_simps intro: fsts.intros)
  then show ?case by (rule assms(2))
qed (use assms in auto)

lemma pbind_Atomic: "pbind (Atomic f) k = Atomic (\<lambda>w. (pbind (fst (f w)) k, snd (f w)))"
  by (simp add: map_prod_def split_beta)

lemma pbind_Return: "pbind m Return = m"
  by (induction m) (simp_all add: pbind_Atomic del: pbind.simps(2))

lemma pbind_assoc: "pbind (pbind m f) g = pbind m (\<lambda>a. pbind (f a) g)"
  by (induction m) (simp_all add: pbind_Atomic del: pbind.simps(2))


section \<open>Running one program alone\<close>

datatype 'a outcome = Done 'a | Panicked panic | Stuck

primrec run :: "('w, 'a) prog \<Rightarrow> 'w \<Rightarrow> 'a outcome \<times> 'w" where
  "run (Return a) = (\<lambda>w. (Done a, w))"
| "run (Atomic f) = (\<lambda>w. case map_prod run id (f w) of (k, w') \<Rightarrow> k w')"
| "run (Await b p) = (\<lambda>w. if b w then run p w else (Stuck, w))"
| "run (Crash c) = (\<lambda>w. (Panicked c, w))"

lemma run_Return [simp]: "run (Return a) w = (Done a, w)"
  and run_Crash [simp]: "run (Crash c) w = (Panicked c, w)"
  and run_Atomic: "run (Atomic f) w = (case f w of (p, w') \<Rightarrow> run p w')"
  and run_Await: "run (Await b p) w = (if b w then run p w else (Stuck, w))"
  by (auto split: prod.splits)

declare run.simps [simp del]

lemma run_pbind:
  "run (pbind m k) w =
     (case run m w of
        (Done a, w') \<Rightarrow> run (k a) w'
      | (Panicked c, w') \<Rightarrow> (Panicked c, w')
      | (Stuck, w') \<Rightarrow> (Stuck, w'))"
  by (induction m arbitrary: w)
    (simp_all add: run_Atomic run_Await pbind_Atomic split_beta del: pbind.simps(2))

lemma run_call:
  "run (call f) w = (case f w of (Ok a, w') \<Rightarrow> (Done a, w') | (Panic c, w') \<Rightarrow> (Panicked c, w'))"
  by (auto simp: call_def run_Atomic split: prod.splits go.splits)

lemma run_query: "run (query f) w = (case f w of Ok a \<Rightarrow> (Done a, w) | Panic c \<Rightarrow> (Panicked c, w))"
  by (auto simp: query_def run_call split: go.splits)

lemmas run_basic [run_simps] = run_pbind run_call run_query run_Await


section \<open>Two programs over one world\<close>

datatype side = WriterSide | ReaderSide

text \<open>One step of a program: \<open>None\<close> if it has ended or is blocked.\<close>

fun tstep :: "('w, 'a) prog \<Rightarrow> 'w \<Rightarrow> (('w, 'a) prog \<times> 'w) option" where
  "tstep (Return a) w = None"
| "tstep (Crash c) w = None"
| "tstep (Atomic f) w = Some (f w)"
| "tstep (Await b p) w = (if b w then Some (p, w) else None)"

text \<open>The schedule names whose step comes next; a program that cannot step is skipped.\<close>

fun par_run ::
  "side list \<Rightarrow> ('w, 'a) prog \<times> ('w, 'b) prog \<times> 'w \<Rightarrow> ('w, 'a) prog \<times> ('w, 'b) prog \<times> 'w" where
  "par_run [] c = c"
| "par_run (WriterSide # ss) (p, q, w) =
     (case tstep p w of None \<Rightarrow> par_run ss (p, q, w) | Some (p', w') \<Rightarrow> par_run ss (p', q, w'))"
| "par_run (ReaderSide # ss) (p, q, w) =
     (case tstep q w of None \<Rightarrow> par_run ss (p, q, w) | Some (q', w') \<Rightarrow> par_run ss (p, q', w'))"

inductive par_step ::
  "('w, 'a) prog \<times> ('w, 'b) prog \<times> 'w \<Rightarrow> ('w, 'a) prog \<times> ('w, 'b) prog \<times> 'w \<Rightarrow> bool" where
  writer_step: "tstep p w = Some (p', w') \<Longrightarrow> par_step (p, q, w) (p', q, w')"
| reader_step: "tstep q w = Some (q', w') \<Longrightarrow> par_step (p, q, w) (p, q', w')"

inductive_cases par_stepE [elim!]: "par_step (p, q, w) c"

text \<open>Every schedule is a run of the step relation, and every run has a schedule.\<close>

lemma par_run_steps: "par_step\<^sup>*\<^sup>* c (par_run ss c)"
proof (induction ss c rule: par_run.induct)
  case (2 ss p q w)
  then show ?case
    by (auto split: option.splits intro: converse_rtranclp_into_rtranclp writer_step)
next
  case (3 ss p q w)
  then show ?case
    by (auto split: option.splits intro: converse_rtranclp_into_rtranclp reader_step)
qed simp

lemma par_step_run: "par_step c c' \<Longrightarrow> \<exists>s. \<forall>ss. par_run (s # ss) c = par_run ss c'"
proof (induction rule: par_step.induct)
  case (writer_step p w p' w' q)
  then show ?case by (intro exI [of _ WriterSide]) simp
next
  case (reader_step q w q' w' p)
  then show ?case by (intro exI [of _ ReaderSide]) simp
qed

lemma par_steps_run: "par_step\<^sup>*\<^sup>* c c' \<Longrightarrow> \<exists>ss. par_run ss c = c'"
proof (induction rule: converse_rtranclp_induct)
  case base
  show ?case by (rule exI [of _ "[]"]) simp
next
  case (step c d)
  then show ?case by (metis par_step_run)
qed

end
