(* ===== verification/RelyGuarantee.thy ===== *)
theory RelyGuarantee
  imports Program
begin

text \<open>
  A rely/guarantee logic for two \<open>prog\<close>s over one world. \<open>rg B R G Q p w g\<close> says: started in
  the world \<open>w\<close> with history \<open>g\<close>, the program \<open>p\<close> never panics, each of its atomic steps is
  a \<open>G\<close> step, if it returns \<open>a\<close> then \<open>Q a\<close> holds, and wherever it is blocked on a condition \<open>b\<close>,
  \<open>B b\<close> holds, as long as the other program only makes \<open>R\<close> steps in between. The history \<open>g\<close> is proof-only: at each atomic step the proof
  chooses the next one. The locale \<open>two_sided\<close> composes two such programs.
\<close>

type_synonym ('w, 'g) interference = "'w \<times> 'g \<Rightarrow> 'w \<times> 'g \<Rightarrow> bool"

text \<open>A condition that no world meets: a loop that has used up its fuel waits for it.\<close>

definition hopeless :: "('w \<Rightarrow> bool) \<Rightarrow> bool" where
  "hopeless b \<longleftrightarrow> (\<forall>w. \<not> b w)"

lemma hopeless_False [simp]: "hopeless (\<lambda>_. False)"
  by (simp add: hopeless_def)

primrec rg ::
  "(('w \<Rightarrow> bool) \<Rightarrow> 'w \<Rightarrow> 'g \<Rightarrow> bool) \<Rightarrow> ('w, 'g) interference \<Rightarrow> ('w, 'g) interference \<Rightarrow> ('a \<Rightarrow> 'w \<Rightarrow> 'g \<Rightarrow> bool) \<Rightarrow>
    ('w, 'a) prog \<Rightarrow> 'w \<Rightarrow> 'g \<Rightarrow> bool" where
  "rg B R G Q (Return a) = (\<lambda>w g. \<forall>w' g'. R (w, g) (w', g') \<longrightarrow> Q a w' g')"
| "rg B R G Q (Atomic f) = (\<lambda>w g. \<forall>w' g'. R (w, g) (w', g') \<longrightarrow>
     (\<exists>g''. G (w', g') (snd (f w'), g'') \<and> fst (map_prod (rg B R G Q) id (f w')) (snd (f w')) g''))"
| "rg B R G Q (Await b p) = (\<lambda>w g. \<forall>w' g'. R (w, g) (w', g') \<longrightarrow>
     (if b w' then rg B R G Q p w' g' else B b w' g'))"
| "rg B R G Q (Crash c) = (\<lambda>w g. False)"

lemma rg_Return: "rg B R G Q (Return a) w g \<longleftrightarrow> (\<forall>w' g'. R (w, g) (w', g') \<longrightarrow> Q a w' g')"
  and rg_Await: "rg B R G Q (Await b p) w g \<longleftrightarrow>
    (\<forall>w' g'. R (w, g) (w', g') \<longrightarrow> (if b w' then rg B R G Q p w' g' else B b w' g'))"
  and rg_Crash: "rg B R G Q (Crash c) w g \<longleftrightarrow> False"
  and rg_Atomic: "rg B R G Q (Atomic f) w g \<longleftrightarrow> (\<forall>w' g'. R (w, g) (w', g') \<longrightarrow>
     (\<exists>g''. G (w', g') (snd (f w'), g'') \<and> rg B R G Q (fst (f w')) (snd (f w')) g''))"
  by (simp_all add: map_prod_def split_beta)

declare rg.simps [simp del]

lemma rg_call:
  "rg B R G Q (pbind (call f) k) w g \<longleftrightarrow> (\<forall>w' g'. R (w, g) (w', g') \<longrightarrow>
     (\<exists>a w''. f w' = (Ok a, w'') \<and> (\<exists>g''. G (w', g') (w'', g'') \<and> rg B R G Q (k a) w'' g'')))"
  (is "?l \<longleftrightarrow> ?r")
proof -
  have "(\<exists>g''. G (w', g') (snd (h w'), g'') \<and> rg B R G Q (pbind (fst (h w')) k) (snd (h w')) g'') \<longleftrightarrow>
    (\<exists>a w''. f w' = (Ok a, w'') \<and> (\<exists>g''. G (w', g') (w'', g'') \<and> rg B R G Q (k a) w'' g''))"
    if "h = (\<lambda>w. case f w of (Ok a, w') \<Rightarrow> (Return a, w') | (Panic c, w') \<Rightarrow> (Crash c, w'))" for w' g' h
    by (cases "f w'"; cases "fst (f w')") (auto simp: that rg_Crash)
  then show ?thesis
    by (simp add: call_def pbind_Atomic rg_Atomic del: pbind.simps(2))
qed

lemma rg_mono:
  assumes "rg B R G Q p w g" "\<And>a w g. Q a w g \<Longrightarrow> Q' a w g"
  shows "rg B R G Q' p w g"
  using assms(1) by (induction p arbitrary: w g)
    (auto simp: rg_Return rg_Atomic rg_Await rg_Crash dest: assms(2) split: if_splits, blast)

text \<open>Where \<open>I\<close> holds and every step keeps it, only the steps within \<open>I\<close> matter, and it holds at the end.\<close>

lemma rg_within:
  assumes "rg B R G Q p w g" "I w g"
    and R: "\<And>w g w' g'. I w g \<Longrightarrow> R' (w, g) (w', g') \<Longrightarrow> R (w, g) (w', g') \<and> I w' g'"
    and G: "\<And>w g w' g'. I w g \<Longrightarrow> G (w, g) (w', g') \<Longrightarrow> G' (w, g) (w', g') \<and> I w' g'"
  shows "rg B R' G' (\<lambda>a w g. Q a w g \<and> I w g) p w g"
  using assms(1,2)
proof (induction p arbitrary: w g)
  case (Atomic f)
  show ?case
    unfolding rg_Atomic
  proof (intro allI impI)
    fix w' g' assume "R' (w, g) (w', g')"
    with R [OF Atomic.prems(2)] have I': "I w' g'" and "R (w, g) (w', g')" by auto
    then obtain g'' where "G (w', g') (snd (f w'), g'')" "rg B R G Q (fst (f w')) (snd (f w')) g''"
      using Atomic.prems(1) by (auto simp: rg_Atomic)
    with G [OF I'] have s: "G' (w', g') (snd (f w'), g'')" "I (snd (f w')) g''" by auto
    moreover have "rg B R' G' (\<lambda>a w g. Q a w g \<and> I w g) (fst (f w')) (snd (f w')) g''"
      by (rule Atomic.IH [OF \<open>rg B R G Q (fst (f w')) (snd (f w')) g''\<close> s(2)])
    ultimately show "\<exists>g''. G' (w', g') (snd (f w'), g'') \<and>
        rg B R' G' (\<lambda>a w g. Q a w g \<and> I w g) (fst (f w')) (snd (f w')) g''" by blast
  qed
qed (use R in \<open>auto simp: rg_Return rg_Await rg_Crash split: if_splits\<close>)

text \<open>A predicate the other side's steps keep.\<close>

definition stable :: "('w, 'g) interference \<Rightarrow> ('w \<Rightarrow> 'g \<Rightarrow> bool) \<Rightarrow> bool" where
  "stable R I \<longleftrightarrow> (\<forall>w g w' g'. I w g \<longrightarrow> R (w, g) (w', g') \<longrightarrow> I w' g')"

lemma stableD: "stable R I \<Longrightarrow> I w g \<Longrightarrow> R (w, g) (w', g') \<Longrightarrow> I w' g'"
  by (auto simp: stable_def)

lemma rg_Return_stable:
  "stable R I \<Longrightarrow> I w g \<Longrightarrow> (\<And>w g. I w g \<Longrightarrow> Q a w g) \<Longrightarrow> rg B R G Q (Return a) w g"
  by (auto simp: rg_Return stable_def)

lemma rg_call_stable:
  assumes "stable R I" "I w g"
    and "\<And>w g. I w g \<Longrightarrow>
      \<exists>a w' g'. f w = (Ok a, w') \<and> G (w, g) (w', g') \<and> rg B R G Q (k a) w' g'"
  shows "rg B R G Q (pbind (call f) k) w g"
  unfolding rg_call using assms by (blast dest: stableD)

lemma rg_query_stable:
  assumes "stable R I" "I w g" "reflp G"
    and "\<And>w g. I w g \<Longrightarrow> \<exists>a. f w = Ok a \<and> rg B R G Q (k a) w g"
  shows "rg B R G Q (pbind (query f) k) w g"
  unfolding query_def
proof (rule rg_call_stable [OF assms(1,2)])
  fix w g assume "I w g"
  then obtain a where "f w = Ok a" "rg B R G Q (k a) w g" using assms(4) by blast
  then show "\<exists>a w' g'. (f w, w) = (Ok a, w') \<and> G (w, g) (w', g') \<and> rg B R G Q (k a) w' g'"
    using reflpD [OF assms(3)] by blast
qed

lemma rg_pbind:
  assumes "rg B R G (\<lambda>a. rg B R G Q (k a)) m w g" "reflp R"
  shows "rg B R G Q (pbind m k) w g"
  using assms(1)
proof (induction m arbitrary: w g)
  case (Return a)
  then show ?case using reflpD [OF assms(2)] by (simp add: rg_Return)
next
  case (Atomic f)
  then show ?case by (simp add: rg_Atomic pbind_Atomic del: pbind.simps(2)) blast
qed (auto simp: rg_Await rg_Crash)

lemma rg_rely:
  assumes "transp R" "rg B R G Q p w g" "R (w, g) (w', g')"
  shows "rg B R G Q p w' g'"
proof -
  have "R (w, g) (v, h)" if "R (w', g') (v, h)" for v h
    using transpD [OF assms(1) assms(3) that] .
  then show ?thesis
    using assms(2) by (cases p) (simp_all add: rg_Return rg_Atomic rg_Await rg_Crash)
qed

lemma rg_tstep:
  assumes "rg B R G Q p w g" "tstep p w = Some (p', w')" "reflp R" "reflp G"
  shows "\<exists>g'. G (w, g) (w', g') \<and> rg B R G Q p' w' g'"
proof -
  have R: "R (w, g) (w, g)" and G: "G (w, g) (w, g)"
    using assms(3,4) by (auto dest: reflpD)
  show ?thesis
  proof (cases p)
    case (Atomic f)
    with assms(1) R have "\<exists>g''. G (w, g) (snd (f w), g'') \<and> rg B R G Q (fst (f w)) (snd (f w)) g''"
      by (simp add: rg_Atomic)
    with Atomic assms(2) show ?thesis by simp
  next
    case (Await b q)
    with assms(1,2) R G show ?thesis by (fastforce simp: rg_Await split: if_splits)
  qed (use assms(2) in auto)
qed


section \<open>Quiet programs\<close>

text \<open>
  A program each of whose atomic steps, from a world in \<open>P\<close>, is an \<open>E\<close> step, and which does
  not panic: what waiting for a counter or for a timer does.
\<close>

primrec quiet :: "('w \<Rightarrow> bool) \<Rightarrow> ('w \<Rightarrow> 'w \<Rightarrow> bool) \<Rightarrow> ('w, 'a) prog \<Rightarrow> bool" where
  "quiet P E (Return a) = True"
| "quiet P E (Atomic f) = (\<forall>w. P w \<longrightarrow> E w (snd (f w)) \<and> fst (map_prod (quiet P E) id (f w)))"
| "quiet P E (Await b p) = quiet P E p"
| "quiet P E (Crash c) = False"

lemma quiet_Atomic: "quiet P E (Atomic f) \<longleftrightarrow> (\<forall>w. P w \<longrightarrow> E w (snd (f w)) \<and> quiet P E (fst (f w)))"
  by (simp add: map_prod_def split_beta)

lemma quiet_call: "(\<And>w. P w \<Longrightarrow> \<exists>a w'. f w = (Ok a, w') \<and> E w w') \<Longrightarrow> quiet P E (call f)"
  by (fastforce simp: call_def quiet_Atomic simp del: quiet.simps(2))

lemma quiet_query: "(\<And>w. P w \<Longrightarrow> \<exists>a. f w = Ok a \<and> E w w) \<Longrightarrow> quiet P E (query f)"
  unfolding query_def by (rule quiet_call) fastforce

lemma quiet_pbind: "quiet P E m \<Longrightarrow> (\<And>a. quiet P E (k a)) \<Longrightarrow> quiet P E (pbind m k)"
  by (induction m) (simp_all add: quiet_Atomic pbind_Atomic del: quiet.simps(2) pbind.simps(2))

lemma quiet_weaken:
  "quiet P E m \<Longrightarrow> (\<And>w. P' w \<Longrightarrow> P w) \<Longrightarrow> (\<And>w w'. P' w \<Longrightarrow> E w w' \<Longrightarrow> E' w w') \<Longrightarrow> quiet P' E' m"
  by (induction m) (simp_all add: quiet_Atomic del: quiet.simps(2))

text \<open>
  The same with a condition on where it blocks: \<open>Z u w\<close> relates the world \<open>u\<close> in which the
  program went to sleep and each later world \<open>w\<close> in which it is still asleep.
\<close>

primrec sleeps :: "('w \<Rightarrow> bool) \<Rightarrow> ('w \<Rightarrow> 'w \<Rightarrow> bool) \<Rightarrow> ('w \<Rightarrow> 'w \<Rightarrow> bool) \<Rightarrow> ('w, 'a) prog \<Rightarrow> 'w \<Rightarrow> bool" where
  "sleeps P E Z (Return a) = (\<lambda>u. True)"
| "sleeps P E Z (Atomic f) = (\<lambda>u. \<forall>w. P w \<longrightarrow> E w (snd (f w)) \<and> fst (map_prod (sleeps P E Z) id (f w)) (snd (f w)))"
| "sleeps P E Z (Await b p) = (\<lambda>u. (\<forall>w. \<not> b w \<longrightarrow> Z u w) \<and> (\<forall>w. P w \<longrightarrow> sleeps P E Z p w))"
| "sleeps P E Z (Crash c) = (\<lambda>u. False)"

lemma sleeps_Atomic: "sleeps P E Z (Atomic f) u \<longleftrightarrow>
    (\<forall>w. P w \<longrightarrow> E w (snd (f w)) \<and> sleeps P E Z (fst (f w)) (snd (f w)))"
  by (simp add: map_prod_def split_beta)

declare sleeps.simps(2) [simp del]

lemma sleeps_call: "(\<And>w. P w \<Longrightarrow> \<exists>a w'. f w = (Ok a, w') \<and> E w w') \<Longrightarrow> sleeps P E Z (call f) u"
  by (fastforce simp: call_def sleeps_Atomic)

lemma sleeps_query: "(\<And>w. P w \<Longrightarrow> \<exists>a. f w = Ok a \<and> E w w) \<Longrightarrow> sleeps P E Z (query f) u"
  unfolding query_def by (rule sleeps_call) fastforce

lemma sleeps_pbind: "sleeps P E Z m u \<Longrightarrow> (\<And>a u. sleeps P E Z (k a) u) \<Longrightarrow> sleeps P E Z (pbind m k) u"
  by (induction m arbitrary: u) (simp_all add: sleeps_Atomic pbind_Atomic del: pbind.simps(2))

lemma sleeps_weaken:
  assumes "sleeps P E Z m u" "\<And>w. P' w \<Longrightarrow> P w" "\<And>w w'. P' w \<Longrightarrow> E w w' \<Longrightarrow> E' w w'" "\<And>u w. Z u w \<Longrightarrow> Z' u w"
  shows "sleeps P' E' Z' m u"
  using assms(1) by (induction m arbitrary: u) (simp_all add: sleeps_Atomic assms(2-4))

lemma quiet_sleeps: "quiet P E m \<Longrightarrow> (\<And>u w. Z u w) \<Longrightarrow> sleeps P E Z m u"
  by (induction m arbitrary: u) (simp_all add: sleeps_Atomic quiet_Atomic del: quiet.simps(2))

text \<open>
  And with a condition on where it ends: \<open>Y w\<close> holds of the world \<open>w\<close> that its last step leaves,
  or in which it was found awake.
\<close>

primrec ends :: "('w \<Rightarrow> bool) \<Rightarrow> ('w \<Rightarrow> bool) \<Rightarrow> ('w, 'a) prog \<Rightarrow> 'w \<Rightarrow> bool" where
  "ends P Y (Return a) = (\<lambda>u. Y u)"
| "ends P Y (Atomic f) = (\<lambda>u. \<forall>w. P w \<longrightarrow> fst (map_prod (ends P Y) id (f w)) (snd (f w)))"
| "ends P Y (Await b p) = (\<lambda>u. \<forall>w. P w \<longrightarrow> b w \<longrightarrow> ends P Y p w)"
| "ends P Y (Crash c) = (\<lambda>u. True)"

lemma ends_Atomic: "ends P Y (Atomic f) u \<longleftrightarrow> (\<forall>w. P w \<longrightarrow> ends P Y (fst (f w)) (snd (f w)))"
  by (simp add: map_prod_def split_beta)

declare ends.simps(2) [simp del]

lemma ends_True: "ends P (\<lambda>_. True) m u"
  by (induction m arbitrary: u) (simp_all add: ends_Atomic)

lemma ends_pbind: "ends P Y' m u \<Longrightarrow> (\<And>a u. Y' u \<Longrightarrow> ends P Y (k a) u) \<Longrightarrow> ends P Y (pbind m k) u"
  by (induction m arbitrary: u) (simp_all add: ends_Atomic pbind_Atomic del: pbind.simps(2))

lemma ends_weaken:
  assumes "ends P Y m u" "\<And>w. P' w \<Longrightarrow> P w" "\<And>w. Y w \<Longrightarrow> Y' w"
  shows "ends P' Y' m u"
  using assms(1) by (induction m arbitrary: u) (simp_all add: ends_Atomic assms(2,3))

lemma rg_sleeps_until:
  assumes "stable R I" "sleeps P E Z m w" "ends P Y m w" "I w g"
    and "\<And>w g. I w g \<Longrightarrow> P w"
    and "\<And>w g w'. I w g \<Longrightarrow> E w w' \<Longrightarrow> G (w, g) (w', g) \<and> I w' g"
    and "\<And>u gu w g b. I u gu \<Longrightarrow> I w g \<Longrightarrow> R (u, gu) (w, g) \<Longrightarrow> Z u w \<Longrightarrow> B b w g"
    and "\<And>a w g. I w g \<Longrightarrow> Y w \<Longrightarrow> rg B R G Q (k a) w g"
  shows "rg B R G Q (pbind m k) w g"
  using assms(2-4)
proof (induction m arbitrary: w g)
  case (Return a)
  then show ?case using assms(8) by simp
next
  case (Atomic f)
  show ?case unfolding pbind_Atomic rg_Atomic fst_conv snd_conv
  proof (intro allI impI)
    fix w' g' assume "R (w, g) (w', g')"
    then have I: "I w' g'" using stableD [OF assms(1) Atomic.prems(3)] by blast
    with Atomic.prems(1,2) assms(5) have "E w' (snd (f w'))" "sleeps P E Z (fst (f w')) (snd (f w'))"
        "ends P Y (fst (f w')) (snd (f w'))"
      by (auto simp: sleeps_Atomic ends_Atomic)
    then show "\<exists>g''. G (w', g') (snd (f w'), g'') \<and> rg B R G Q (pbind (fst (f w')) k) (snd (f w')) g''"
      using assms(6) [OF I] Atomic.IH by blast
  qed
next
  case (Await b p)
  show ?case unfolding pbind.simps rg_Await
  proof (intro allI impI)
    fix w' g' assume R: "R (w, g) (w', g')"
    then have "I w' g'" using stableD [OF assms(1) Await.prems(3)] by blast
    with Await.prems assms(5,7) R Await.IH
    show "if b w' then rg B R G Q (pbind p k) w' g' else B b w' g'" by auto
  qed
qed simp

lemma rg_sleeps:
  assumes "stable R I" "sleeps P E Z m w" "I w g"
    and "\<And>w g. I w g \<Longrightarrow> P w"
    and "\<And>w g w'. I w g \<Longrightarrow> E w w' \<Longrightarrow> G (w, g) (w', g) \<and> I w' g"
    and "\<And>u gu w g b. I u gu \<Longrightarrow> I w g \<Longrightarrow> R (u, gu) (w, g) \<Longrightarrow> Z u w \<Longrightarrow> B b w g"
    and "\<And>a w g. I w g \<Longrightarrow> rg B R G Q (k a) w g"
  shows "rg B R G Q (pbind m k) w g"
  by (rule rg_sleeps_until [OF assms(1,2) ends_True assms(3-)])

lemma rg_quiet:
  assumes "stable R I" "quiet P E m" "I w g"
    and "\<And>w g. I w g \<Longrightarrow> P w"
    and "\<And>w g w'. I w g \<Longrightarrow> E w w' \<Longrightarrow> G (w, g) (w', g) \<and> I w' g"
    and "\<And>w g b. I w g \<Longrightarrow> B b w g"
    and "\<And>a w g. I w g \<Longrightarrow> rg B R G Q (k a) w g"
  shows "rg B R G Q (pbind m k) w g"
  by (rule rg_sleeps [OF assms(1) quiet_sleeps [OF assms(2), where Z = "\<lambda>_ _. True"] assms(3)]) (use assms(4-) in auto)


section \<open>Composition\<close>

locale two_sided =
  fixes RW GW RR GR :: "('w, 'g) interference"
  assumes reflRW: "reflp RW" and transRW: "transp RW"
    and reflRR: "reflp RR" and transRR: "transp RR"
    and reflGW: "reflp GW" and reflGR: "reflp GR"
    and GW_RR: "GW x y \<Longrightarrow> RR x y"
    and GR_RW: "GR x y \<Longrightarrow> RW x y"
begin

lemma par_step_sound:
  assumes "par_step (p, q, w) (p', q', w')" "rg BW RW GW QW p w g" "rg BR RR GR QR q w g"
    and "stable RW J" "stable RR J" "J w g"
  shows "\<exists>g'. J w' g' \<and> rg BW RW GW QW p' w' g' \<and> rg BR RR GR QR q' w' g'"
proof -
  consider "q' = q" "tstep p w = Some (p', w')" | "p' = p" "tstep q w = Some (q', w')"
    using assms(1) by auto
  then show ?thesis
  proof cases
    case 1
    then obtain g' where "GW (w, g) (w', g')" "rg BW RW GW QW p' w' g'"
      using rg_tstep [OF assms(2) _ reflRW reflGW] by blast
    then show ?thesis
      using 1 rg_rely [OF transRR assms(3) GW_RR] stableD [OF assms(5,6) GW_RR] by blast
  next
    case 2
    then obtain g' where "GR (w, g) (w', g')" "rg BR RR GR QR q' w' g'"
      using rg_tstep [OF assms(3) _ reflRR reflGR] by blast
    then show ?thesis
      using 2 rg_rely [OF transRW assms(2) GR_RW] stableD [OF assms(4,6) GR_RW] by blast
  qed
qed

lemma par_steps_sound:
  assumes "par_step\<^sup>*\<^sup>* (p, q, w) (p', q', w')" "rg BW RW GW QW p w g" "rg BR RR GR QR q w g"
    and J: "stable RW J" "stable RR J" "J w g"
  shows "\<exists>g'. J w' g' \<and> rg BW RW GW QW p' w' g' \<and> rg BR RR GR QR q' w' g'"
  using assms(1-3) J(3)
proof (induction "(p, q, w)" arbitrary: p q w g rule: converse_rtranclp_induct)
  case base
  then show ?case by blast
next
  case (step c)
  obtain p1 q1 w1 where c: "c = (p1, q1, w1)" by (cases c) auto
  obtain g1 where "J w1 g1" "rg BW RW GW QW p1 w1 g1" "rg BR RR GR QR q1 w1 g1"
    using par_step_sound [OF step(1) [unfolded c] step(4,5) J(1,2) step(6)] by blast
  then show ?case using step(3) [OF c] by blast
qed

text \<open>
  No schedule makes either side panic, what both sides' steps keep still holds, and each
  side has its result when it returns, wherever the other is by then.
\<close>

lemma par_run_sound:
  assumes "rg BW RW GW QW p w g" "rg BR RR GR QR q w g" "par_run ss (p, q, w) = (p', q', w')"
    and "stable RW J" "stable RR J" "J w g"
  shows "\<exists>g'. J w' g' \<and> rg BW RW GW QW p' w' g' \<and> rg BR RR GR QR q' w' g'"
  using par_steps_sound [OF _ assms(1,2,4-6)] par_run_steps [of "(p, q, w)" ss] assms(3) by metis

lemma returned_left: "rg BW RW GW QW (Return a) w g \<Longrightarrow> QW a w g"
  and returned_right: "rg BR RR GR QR (Return b) w g \<Longrightarrow> QR b w g"
  using reflpD [OF reflRW, of "(w, g)"] reflpD [OF reflRR, of "(w, g)"] by (simp_all add: rg_Return)

text \<open>Where neither can step, each has returned, or it is blocked where \<open>B\<close> allows it.\<close>

lemma blocked_left:
  assumes "rg BW RW GW QW p w g" "tstep p w = None"
  shows "(\<exists>a. p = Return a \<and> QW a w g) \<or> (\<exists>b q. p = Await b q \<and> BW b w g)"
  using assms reflpD [OF reflRW, of "(w, g)"]
  by (cases p) (fastforce simp: rg_Return rg_Await rg_Crash split: if_splits)+

lemma blocked_right:
  assumes "rg BR RR GR QR q w g" "tstep q w = None"
  shows "(\<exists>a. q = Return a \<and> QR a w g) \<or> (\<exists>b p. q = Await b p \<and> BR b w g)"
  using assms reflpD [OF reflRR, of "(w, g)"]
  by (cases q) (fastforce simp: rg_Return rg_Await rg_Crash split: if_splits)+

end

end
