(* ===== verification/Backend.thy ===== *)
theory Backend
  imports RelyGuarantee
begin

text \<open>
  The storage abstraction of \<^verbatim>\<open>backend/backend.go\<close>. A Go interface value is its method
  table: the record \<open>storage\<close> holds the methods of \<^verbatim>\<open>Storage\<close>, and the two optional
  capabilities as \<open>option\<close>s, so that the type assertion \<^verbatim>\<open>st.(backend.AtomicStorage)\<close> is a
  case distinction on \<open>AtomicStorage\<close>. Each method call is one atomic step on the world
  \<open>'w\<close>, except \<^verbatim>\<open>Wait\<close>, which is a program because it can block.

  The locale \<open>ring_storage\<close> is the contract that the ring buffer relies on: an
  in-range access of an open storage reads or replaces exactly the bytes it names. Every
  backend of the package interprets it, each on its own operations.
\<close>

section \<open>The interfaces\<close>

record 'w atomic_methods =
  LoadUint32 :: "int64 \<Rightarrow> 'w \<Rightarrow> (gerror + u32) go"
  StoreUint32 :: "int64 \<Rightarrow> u32 \<Rightarrow> 'w \<Rightarrow> gerror option go \<times> 'w"

record 'w waiter_methods =
  Wait :: "int64 \<Rightarrow> u32 \<Rightarrow> duration \<Rightarrow> ('w, unit) prog"
  Wake :: "int64 \<Rightarrow> 'w \<Rightarrow> unit go \<times> 'w"

text \<open>
  \<^verbatim>\<open>ReadAt(p, off)\<close> fills the caller's buffer: the model takes the buffer and returns it
  with the count and the error.
\<close>

record 'w storage =
  ReadAt :: "byte list \<Rightarrow> int64 \<Rightarrow> 'w \<Rightarrow> (byte list \<times> int64 \<times> gerror option) go"
  WriteAt :: "byte list \<Rightarrow> int64 \<Rightarrow> 'w \<Rightarrow> (int64 \<times> gerror option) go \<times> 'w"
  Size :: "'w \<Rightarrow> int64"
  CloseOp :: "'w \<Rightarrow> gerror option go \<times> 'w"
  AtomicStorage :: "'w atomic_methods option"
  WaiterStorage :: "'w waiter_methods option"


section \<open>Little-endian words in a byte list\<close>

text \<open>\<^verbatim>\<open>binary.LittleEndian\<close>: \<^verbatim>\<open>PutUint32\<close>, \<^verbatim>\<open>Uint32\<close>, \<^verbatim>\<open>PutUint64\<close>, \<^verbatim>\<open>Uint64\<close>.\<close>

definition le32 :: "u32 \<Rightarrow> byte list" where
  "le32 v = map (\<lambda>i. ucast (drop_bit (8 * i) v)) [0..<4]"

definition le64 :: "u64 \<Rightarrow> byte list" where
  "le64 v = map (\<lambda>i. ucast (drop_bit (8 * i) v)) [0..<8]"

definition Uint32 :: "byte list \<Rightarrow> u32" where
  "Uint32 b = ucast (b ! 0) OR push_bit 8 (ucast (b ! 1)) OR push_bit 16 (ucast (b ! 2))
     OR push_bit 24 (ucast (b ! 3))"

definition Uint64 :: "byte list \<Rightarrow> u64" where
  "Uint64 b = ucast (b ! 0) OR push_bit 8 (ucast (b ! 1)) OR push_bit 16 (ucast (b ! 2))
     OR push_bit 24 (ucast (b ! 3)) OR push_bit 32 (ucast (b ! 4)) OR push_bit 40 (ucast (b ! 5))
     OR push_bit 48 (ucast (b ! 6)) OR push_bit 56 (ucast (b ! 7))"

definition PutUint32 :: "byte list \<Rightarrow> nat \<Rightarrow> u32 \<Rightarrow> byte list" where
  "PutUint32 b i v = patch b i (le32 v)"

definition PutUint64 :: "byte list \<Rightarrow> nat \<Rightarrow> u64 \<Rightarrow> byte list" where
  "PutUint64 b i v = patch b i (le64 v)"

lemma length_le32 [simp]: "length (le32 v) = 4"
  and length_le64 [simp]: "length (le64 x) = 8"
  by (simp_all add: le32_def le64_def)

lemma nth_le32: "i < 4 \<Longrightarrow> le32 v ! i = ucast (drop_bit (8 * i) v)"
  by (simp add: le32_def)

lemma nth_le64: "i < 8 \<Longrightarrow> le64 v ! i = ucast (drop_bit (8 * i) v)"
  by (simp add: le64_def)

lemma bit_push_ucast_byte:
  fixes b :: byte
  shows "bit (push_bit k (ucast b) :: 'a::len word) n \<longleftrightarrow>
    n < LENGTH('a) \<and> k \<le> n \<and> n < k + 8 \<and> bit b (n - k)"
  using bit_imp_le_length [of b "n - k"] by (auto simp: bit_simps)

lemma bit_ucast_byte:
  fixes b :: byte
  shows "bit (ucast b :: 'a::len word) n \<longleftrightarrow> n < LENGTH('a) \<and> n < 8 \<and> bit b n"
  using bit_imp_le_length [of b n] by (auto simp: bit_simps)

lemma bit_byte_of: "bit (ucast (drop_bit k (v :: 'a::len word)) :: byte) n \<longleftrightarrow> n < 8 \<and> bit v (k + n)"
  by (simp add: bit_simps)

lemmas bit_bytes = bit_or_iff bit_push_ucast_byte bit_ucast_byte bit_byte_of bit_byte_of [of 0, simplified]
  bit_drop_bit_eq o_def less_diff_conv2

lemma Uint32_le32 [le_simps]: "Uint32 (le32 v) = v"
proof (rule bit_word_eqI)
  fix n assume "n < LENGTH(32)"
  then have "n < 32" by simp
  then consider "n < 8" | "8 \<le> n" "n < 16" | "16 \<le> n" "n < 24" | "24 \<le> n" "n < 32"
    by linarith
  then show "bit (Uint32 (le32 v)) n \<longleftrightarrow> bit v n"
    by cases (simp_all add: Uint32_def nth_le32 bit_bytes)
qed

lemma Uint64_le64 [le_simps]: "Uint64 (le64 v) = v"
proof (rule bit_word_eqI)
  fix n assume "n < LENGTH(64)"
  then have "n < 64" by simp
  then consider "n < 8" | "8 \<le> n" "n < 16" | "16 \<le> n" "n < 24" | "24 \<le> n" "n < 32"
    | "32 \<le> n" "n < 40" | "40 \<le> n" "n < 48" | "48 \<le> n" "n < 56" | "56 \<le> n" "n < 64"
    by linarith
  then show "bit (Uint64 (le64 v)) n \<longleftrightarrow> bit v n"
    by cases (simp_all add: Uint64_def nth_le64 bit_bytes)
qed

text \<open>The 32-bit word at an offset of a region.\<close>

definition u32_at :: "byte list \<Rightarrow> nat \<Rightarrow> u32" where
  "u32_at d i = Uint32 (slice d i 4)"

definition u64_at :: "byte list \<Rightarrow> nat \<Rightarrow> u64" where
  "u64_at d i = Uint64 (slice d i 8)"

lemma u32_at_patch_same [le_simps]:
  "i + 4 \<le> length d \<Longrightarrow> u32_at (patch d i (le32 v)) i = v"
  using slice_patch_same [of i "le32 v" d] by (simp add: u32_at_def le_simps)

lemma u64_at_patch_same [le_simps]:
  "i + 8 \<le> length d \<Longrightarrow> u64_at (patch d i (le64 v)) i = v"
  using slice_patch_same [of i "le64 v" d] by (simp add: u64_at_def le_simps)

lemma u32_at_patch_other:
  assumes "i + length xs \<le> length d" "j + 4 \<le> length d" "j + 4 \<le> i \<or> i + length xs \<le> j"
  shows "u32_at (patch d i xs) j = u32_at d j"
  using assms by (simp add: u32_at_def slice_patch_other)

lemma u64_at_patch_other:
  assumes "i + length xs \<le> length d" "j + 8 \<le> length d" "j + 8 \<le> i \<or> i + length xs \<le> j"
  shows "u64_at (patch d i xs) j = u64_at d j"
  using assms by (simp add: u64_at_def slice_patch_other)


section \<open>The contract of a storage\<close>

text \<open>
  \<open>data w\<close> is the region's bytes in the world \<open>w\<close>, and \<open>live w\<close> says that the handle
  is usable there (not closed). Sizes are below \<open>2 ^ 62\<close>, so that no offset
  arithmetic of the code wraps; the shipped constructors bound them by \<open>2 ^ 31\<close>, and a
  Go slice cannot be longer than the address space.
\<close>

locale ring_storage =
  fixes S :: "'w storage"
    and data :: "'w \<Rightarrow> byte list"
    and live :: "'w \<Rightarrow> bool"
  assumes size_data: "live w \<Longrightarrow> Size S w = int (length (data w))"
    and size_bound: "live w \<Longrightarrow> length (data w) < 2 ^ 62"
    and read_ok: "live w \<Longrightarrow> p \<noteq> [] \<Longrightarrow> i + length p \<le> length (data w) \<Longrightarrow>
      ReadAt S p (int i) w = Ok (slice (data w) i (length p), int (length p), None)"
    and write_ok: "live w \<Longrightarrow> p \<noteq> [] \<Longrightarrow> i + length p \<le> length (data w) \<Longrightarrow>
      \<exists>w'. WriteAt S p (int i) w = (Ok (int (length p), None), w') \<and> live w' \<and>
        data w' = patch (data w) i p"
    and load_ok: "AtomicStorage S = Some a \<Longrightarrow> live w \<Longrightarrow> i + 4 \<le> length (data w) \<Longrightarrow>
      4 dvd i \<Longrightarrow> LoadUint32 a (int i) w = Ok (Inr (u32_at (data w) i))"
    and store_ok: "AtomicStorage S = Some a \<Longrightarrow> live w \<Longrightarrow> i + 4 \<le> length (data w) \<Longrightarrow>
      4 dvd i \<Longrightarrow> \<exists>w'. StoreUint32 a (int i) v w = (Ok None, w') \<and> live w' \<and>
        data w' = patch (data w) i (le32 v)"
    and wake_ok: "WaiterStorage S = Some u \<Longrightarrow> live w \<Longrightarrow> i + 4 \<le> length (data w) \<Longrightarrow>
      4 dvd i \<Longrightarrow> \<exists>w'. Wake u (int i) w = (Ok (), w') \<and> live w' \<and> data w' = data w"
    and wait_ok: "WaiterStorage S = Some u \<Longrightarrow> live w \<Longrightarrow> i + 4 \<le> length (data w) \<Longrightarrow> 4 dvd i \<Longrightarrow>
      quiet (\<lambda>w. live w \<and> i + 4 \<le> length (data w)) (\<lambda>w w'. live w' \<and> data w' = data w)
        (Wait u (int i) v d)"


text \<open>
  The contract of waiting. \<open>wk = Some f\<close> says that \<open>f w i\<close> counts the wake-ups of the word at
  \<open>i\<close>: \<^verbatim>\<open>Wake\<close> counts one more and nothing else changes it, and \<^verbatim>\<open>Wait\<close> goes to sleep only if it
  finds the word as the caller saw it, and sleeps no longer than to the next wake-up. With
  \<open>wk = None\<close> nothing is promised, so that every \<open>ring_storage\<close> is one.
\<close>

definition same_wakes :: "('w \<Rightarrow> nat \<Rightarrow> nat) option \<Rightarrow> 'w \<Rightarrow> 'w \<Rightarrow> bool" where
  "same_wakes wk w w' \<longleftrightarrow> (\<forall>f. wk = Some f \<longrightarrow> f w' = f w)"

definition woken :: "('w \<Rightarrow> nat \<Rightarrow> nat) option \<Rightarrow> nat \<Rightarrow> 'w \<Rightarrow> 'w \<Rightarrow> bool" where
  "woken wk i w w' \<longleftrightarrow> (\<forall>f. wk = Some f \<longrightarrow> f w' = (f w)(i := Suc (f w i)))"

definition asleep :: "('w \<Rightarrow> byte list) \<Rightarrow> ('w \<Rightarrow> nat \<Rightarrow> nat) option \<Rightarrow> nat \<Rightarrow> u32 \<Rightarrow> 'w \<Rightarrow> 'w \<Rightarrow> bool" where
  "asleep data wk i v u w \<longleftrightarrow> (\<forall>f. wk = Some f \<longrightarrow> u32_at (data u) i = v \<and> f w i \<le> f u i)"

lemma no_wakes [simp]: "same_wakes None w w'" "woken None i w w'" "asleep data None i v w w'"
  by (simp_all add: same_wakes_def woken_def asleep_def)

locale waking_storage = ring_storage +
  fixes wk :: "('w \<Rightarrow> nat \<Rightarrow> nat) option"
  assumes write_wakes: "WriteAt S p off w = (r, w') \<Longrightarrow> same_wakes wk w w'"
    and store_wakes: "AtomicStorage S = Some a \<Longrightarrow> StoreUint32 a off v w = (err, w') \<Longrightarrow> same_wakes wk w w'"
    and waiter: "wk \<noteq> None \<Longrightarrow> WaiterStorage S \<noteq> None"
    and wake_wakes: "WaiterStorage S = Some u \<Longrightarrow> live w \<Longrightarrow> i + 4 \<le> length (data w) \<Longrightarrow> 4 dvd i \<Longrightarrow>
      Wake u (int i) w = (y, w') \<Longrightarrow> woken wk i w w'"
    and wait_sleeps: "WaiterStorage S = Some u \<Longrightarrow> live w \<Longrightarrow> i + 4 \<le> length (data w) \<Longrightarrow> 4 dvd i \<Longrightarrow>
      sleeps (\<lambda>w. live w \<and> i + 4 \<le> length (data w)) (\<lambda>w w'. live w' \<and> data w' = data w \<and> same_wakes wk w w')
        (asleep data wk i v) (Wait u (int i) v d) w0"

text \<open>
  Where a \<^verbatim>\<open>Wait\<close> without a timeout also ends only for a reason: it has found another word than the
  caller saw, or the word has been woken since. (A system call that a signal interrupts, and that
  returns for no reason, is left out here.)
\<close>

locale prompt_storage = waking_storage S data live "Some f" for S :: "'w storage" and data live f +
  assumes wait_prompt: "WaiterStorage S = Some u \<Longrightarrow> live w \<Longrightarrow> i + 4 \<le> length (data w) \<Longrightarrow> 4 dvd i \<Longrightarrow> d \<le> 0 \<Longrightarrow>
      ends (\<lambda>w. live w \<and> i + 4 \<le> length (data w) \<and> n \<le> f w i) (\<lambda>w. u32_at (data w) i \<noteq> v \<or> n < f w i)
        (Wait u (int i) v d) w0"

context ring_storage
begin

lemma waking_None: "waking_storage S data live None"
  by unfold_locales (auto intro: quiet_sleeps [OF wait_ok, THEN sleeps_weaken])

end

sublocale ring_storage \<subseteq> plain: waking_storage S data live None
  by (rule waking_None)

text \<open>
  What is left of the contract when accesses may fail and the region may hold anything: no
  call panics, a write or a store touches at most the bytes it names, and a read returns a
  buffer of the same length. Reads past the end are calls too: a counter that the other
  side has corrupted can make the code try one.
\<close>

locale weak_storage =
  fixes S :: "'w storage"
    and data :: "'w \<Rightarrow> byte list"
    and live :: "'w \<Rightarrow> bool"
  assumes read_any: "live w \<Longrightarrow> p \<noteq> [] \<Longrightarrow> i + length p < 2 ^ 62 \<Longrightarrow>
      \<exists>q n err. ReadAt S p (int i) w = Ok (q, n, err) \<and> length q = length p"
    and write_any: "live w \<Longrightarrow> p \<noteq> [] \<Longrightarrow> i + length p \<le> length (data w) \<Longrightarrow>
      \<exists>n err w' xs. WriteAt S p (int i) w = (Ok (n, err), w') \<and> live w' \<and> length xs = length p \<and>
        data w' = patch (data w) i xs"
    and load_any: "AtomicStorage S = Some a \<Longrightarrow> live w \<Longrightarrow> i + 4 \<le> length (data w) \<Longrightarrow> 4 dvd i \<Longrightarrow>
      \<exists>r. LoadUint32 a (int i) w = Ok r"
    and store_any: "AtomicStorage S = Some a \<Longrightarrow> live w \<Longrightarrow> i + 4 \<le> length (data w) \<Longrightarrow> 4 dvd i \<Longrightarrow>
      \<exists>err w' xs. StoreUint32 a (int i) v w = (Ok err, w') \<and> live w' \<and> length xs = 4 \<and>
        data w' = patch (data w) i xs"
    and wake_any: "WaiterStorage S = Some u \<Longrightarrow> live w \<Longrightarrow> i + 4 \<le> length (data w) \<Longrightarrow> 4 dvd i \<Longrightarrow>
      \<exists>w'. Wake u (int i) w = (Ok (), w') \<and> live w' \<and> data w' = data w"

text \<open>A lawful storage that also checks the range of its reads keeps the weak contract.\<close>

locale checked_storage = ring_storage +
  assumes read_range: "live w \<Longrightarrow> p \<noteq> [] \<Longrightarrow> length (data w) < i + length p \<Longrightarrow> i + length p < 2 ^ 62 \<Longrightarrow>
      \<exists>q n err. ReadAt S p (int i) w = Ok (q, n, Some err) \<and> length q = length p"

sublocale checked_storage \<subseteq> weak_storage S data live
proof (unfold_locales, goal_cases)
  case (1 w p i)
  show ?case
  proof (cases "i + length p \<le> length (data w)")
    case True
    with read_ok [OF 1(1,2)] show ?thesis by (simp add: patch_simps)
  next
    case False
    with read_range [OF 1(1,2)] 1(3) show ?thesis by (meson not_le)
  qed
next
  case (2 w p i)
  with write_ok [OF this] show ?case by blast
next
  case (3 a w i)
  with load_ok [OF this] show ?case by blast
next
  case (4 a w i v)
  with store_ok [OF this, of v] show ?case by (metis length_le32)
next
  case (5 u w i)
  with wake_ok [OF this] show ?case by blast
qed

end
