(* ===== verification/MemStorage.thy ===== *)
theory MemStorage
  imports Backend
begin

text \<open>
  \<^verbatim>\<open>MemStorage\<close> of \<^verbatim>\<open>backend/mem.go\<close>: a byte slice behind a mutex. The mutex makes each
  method one atomic step, which is how the method table presents it. The world of a
  program over a \<^verbatim>\<open>MemStorage\<close> is that one object.
\<close>

section \<open>State and operations\<close>

record mem =
  buf :: "byte list"

definition NewMemStorage :: "int64 \<Rightarrow> mem go" where
  "NewMemStorage sz =
     (if sz \<le> 0 then Panic (PanicMsg ''backend: MemStorage size must be positive'')
      else Ok \<lparr>buf = replicate (nat sz) 0\<rparr>)"

definition mem_ReadAt :: "byte list \<Rightarrow> int64 \<Rightarrow> mem \<Rightarrow> (byte list \<times> int64 \<times> gerror option) go" where
  "mem_ReadAt p off s =
     (if off < 0 \<or> off \<ge> int (length (buf s)) then Ok (p, 0, Some EOF)
      else let (p', n) = go_copy p (drop (nat off) (buf s)) in
        if n < length p then Ok (p', int n, Some ErrUnexpectedEOF) else Ok (p', int n, None))"

text \<open>
  \<^verbatim>\<open>s.buf[off:]\<close> panics when \<open>off\<close> is past the end, which the range check in front of it
  excludes only while \<^verbatim>\<open>off+int64(len(p))\<close> does not wrap.
\<close>

definition mem_WriteAt :: "byte list \<Rightarrow> int64 \<Rightarrow> mem \<Rightarrow> (int64 \<times> gerror option) go \<times> mem" where
  "mem_WriteAt p off s =
     (if off < 0 \<or> add64 off (int (length p)) > int (length (buf s)) then (Ok (0, Some ErrShortWrite), s)
      else if off > int (length (buf s)) then (Panic SliceBounds, s)
      else let (d, n) = go_copy (drop (nat off) (buf s)) p in
        (Ok (int n, None), s\<lparr>buf := take (nat off) (buf s) @ d\<rparr>))"

definition mem_Size :: "mem \<Rightarrow> int64" where
  "mem_Size s = int (length (buf s))"

definition mem_Close :: "mem \<Rightarrow> gerror option go \<times> mem" where
  "mem_Close s = (Ok None, s)"

definition mem_storage :: "mem storage" where
  "mem_storage =
     \<lparr>ReadAt = mem_ReadAt, WriteAt = mem_WriteAt, Size = mem_Size, CloseOp = mem_Close,
      AtomicStorage = None, WaiterStorage = None\<rparr>"

lemma mem_storage_simps [simp]:
  "ReadAt mem_storage = mem_ReadAt" "WriteAt mem_storage = mem_WriteAt"
  "Size mem_storage = mem_Size" "CloseOp mem_storage = mem_Close"
  "AtomicStorage mem_storage = None" "WaiterStorage mem_storage = None"
  by (simp_all add: mem_storage_def)


section \<open>In-range and out-of-range accesses\<close>

lemma mem_ReadAt_ok:
  "p \<noteq> [] \<Longrightarrow> i + length p \<le> length (buf s) \<Longrightarrow>
    mem_ReadAt p (int i) s = Ok (slice (buf s) i (length p), int (length p), None)"
  by (cases p) (auto simp: mem_ReadAt_def go_copy_def slice_def Let_def min_def)

lemma mem_WriteAt_ok:
  assumes "i + length p \<le> length (buf s)" "length (buf s) < 2 ^ 62"
  shows "mem_WriteAt p (int i) s = (Ok (int (length p), None), s\<lparr>buf := patch (buf s) i p\<rparr>)"
proof -
  have "add64 (int i) (int (length p)) = int i + int (length p)"
    using assms by (intro add64_id) (simp add: is_int64_def)
  then show ?thesis
    using assms by (auto simp: mem_WriteAt_def go_copy_def patch_def Let_def min_def add.commute)
qed

text \<open>
  A \<^verbatim>\<open>MemStorage\<close> read back: after a write that succeeds, reading the same range
  yields the bytes written, and every byte outside the range is as before; the size is
  unchanged.
\<close>

theorem mem_write_read:
  assumes "p \<noteq> []" "i + length p \<le> length (buf s)" "length (buf s) < 2 ^ 62"
  shows "\<exists>s'. mem_WriteAt p (int i) s = (Ok (int (length p), None), s') \<and>
    (\<forall>q. length q = length p \<longrightarrow> mem_ReadAt q (int i) s' = Ok (p, int (length p), None)) \<and>
    mem_Size s' = mem_Size s \<and>
    (\<forall>j < length (buf s). j < i \<or> i + length p \<le> j \<longrightarrow> buf s' ! j = buf s ! j)"
proof -
  let ?s' = "s\<lparr>buf := patch (buf s) i p\<rparr>"
  have "mem_ReadAt q (int i) ?s' = Ok (p, int (length p), None)" if "length q = length p" for q
    using that assms by (subst mem_ReadAt_ok) (auto simp: patch_simps)
  then show ?thesis
    using assms by (auto simp: mem_WriteAt_ok mem_Size_def patch_simps nth_patch)
qed

theorem mem_write_read_witness:
  "\<exists>s'. mem_WriteAt [7, 8] (int 1) \<lparr>buf = [1, 2, 3, 4]\<rparr> = (Ok (2, None), s') \<and>
    mem_ReadAt [0, 0] 1 s' = Ok ([7, 8], 2, None)"
  using mem_write_read [of "[7, 8]" 1 "\<lparr>buf = [1, 2, 3, 4]\<rparr>"] by force

text \<open>
  The range checks of \<^verbatim>\<open>MemStorage\<close>. Without 64-bit wrap-around, a write that does not
  fit fails with \<^verbatim>\<open>io.ErrShortWrite\<close> and changes nothing; a read that starts outside
  fails with \<^verbatim>\<open>io.EOF\<close> and leaves the caller's buffer alone; a read that runs past the
  end fills a prefix and fails with \<^verbatim>\<open>io.ErrUnexpectedEOF\<close>.
\<close>

theorem mem_out_of_range:
  assumes "length (buf s) < 2 ^ 62"
  shows "(off < 0 \<or> int (length (buf s)) < off + int (length p) \<and> off + int (length p) < 2 ^ 63 \<longrightarrow>
        mem_WriteAt p off s = (Ok (0, Some ErrShortWrite), s)) \<and>
      (off < 0 \<or> int (length (buf s)) \<le> off \<longrightarrow> mem_ReadAt p off s = Ok (p, 0, Some EOF)) \<and>
      (0 \<le> off \<and> off < int (length (buf s)) \<and> int (length (buf s)) < off + int (length p) \<longrightarrow>
        mem_ReadAt p off s =
          Ok (drop (nat off) (buf s) @ drop (length (buf s) - nat off) p,
              int (length (buf s)) - off, Some ErrUnexpectedEOF))"
proof (intro conjI impI)
  assume *: "off < 0 \<or> int (length (buf s)) < off + int (length p) \<and> off + int (length p) < 2 ^ 63"
  show "mem_WriteAt p off s = (Ok (0, Some ErrShortWrite), s)"
  proof (cases "off < 0")
    case False
    with * have "add64 off (int (length p)) = off + int (length p)"
      by (intro add64_id) (auto simp: is_int64_def)
    with False * show ?thesis by (simp add: mem_WriteAt_def)
  qed (simp add: mem_WriteAt_def)
qed (auto simp: mem_ReadAt_def go_copy_def Let_def min_def)

theorem mem_out_of_range_witness:
  "mem_WriteAt [7, 8] 3 \<lparr>buf = [1, 2, 3, 4]\<rparr> = (Ok (0, Some ErrShortWrite), \<lparr>buf = [1, 2, 3, 4]\<rparr>) \<and>
    mem_ReadAt [7] 4 \<lparr>buf = [1, 2, 3, 4]\<rparr> = Ok ([7], 0, Some EOF) \<and>
    mem_ReadAt [7, 8] 3 \<lparr>buf = [1, 2, 3, 4]\<rparr> = Ok ([4, 8], 1, Some ErrUnexpectedEOF)"
  using mem_out_of_range [of "\<lparr>buf = [1, 2, 3, 4]\<rparr>" 3 "[7, 8]"]
    mem_out_of_range [of "\<lparr>buf = [1, 2, 3, 4]\<rparr>" 4 "[7]"] by simp

text \<open>
  The range check of \<^verbatim>\<open>MemStorage.WriteAt\<close> is defeated by 64-bit wrap-around: for an
  offset past the end whose sum with the length exceeds \<^verbatim>\<open>MaxInt64\<close>, the check passes
  and the slice expression behind it panics, where \<^verbatim>\<open>io.ErrShortWrite\<close> was due.
\<close>

theorem mem_WriteAt_overflow_panics:
  assumes "int (length (buf s)) < off" "off < 2 ^ 63" "length p < 2 ^ 62" "2 ^ 63 \<le> off + int (length p)"
  shows "mem_WriteAt p off s = (Panic SliceBounds, s)"
proof -
  have "add64 off (int (length p)) = off + int (length p) - 2 ^ 64"
    using assms by (intro add64_overflow) auto
  then show ?thesis using assms by (simp add: mem_WriteAt_def)
qed

theorem mem_WriteAt_overflow_panics_witness:
  "mem_WriteAt [7] (2 ^ 63 - 1) \<lparr>buf = [1, 2, 3, 4]\<rparr> = (Panic SliceBounds, \<lparr>buf = [1, 2, 3, 4]\<rparr>)"
  by (rule mem_WriteAt_overflow_panics) simp_all


section \<open>The contract\<close>

interpretation mem: ring_storage mem_storage buf "\<lambda>s. length (buf s) < 2 ^ 62"
  by unfold_locales (auto simp: mem_Size_def mem_ReadAt_ok mem_WriteAt_ok patch_simps)

interpretation mem_checked: checked_storage mem_storage buf "\<lambda>s. length (buf s) < 2 ^ 62"
proof (unfold_locales, goal_cases)
  case (1 w p i)
  then show ?case by (cases "i < length (buf w)") (auto simp: mem_ReadAt_def go_copy_def Let_def)
qed

end
