(* ===== verification/Header.thy ===== *)
theory Header
  imports MemStorage
begin

text \<open>
  \<^verbatim>\<open>header.go\<close> and \<^verbatim>\<open>errors.go\<close>: the 64-byte header in front of the data region, the
  checks on it, and the loads and stores of its counters. Offsets are \<open>nat\<close>s; they are
  passed to the storage as \<open>int64\<close>.
\<close>

section \<open>Layout\<close>

definition magic :: u32 where "magic = 0x53484d52"
definition formatVersion :: u32 where "formatVersion = 1"

definition headerSize :: nat where "headerSize = 64"
definition offMagic :: nat where "offMagic = 0"
definition offVersion :: nat where "offVersion = 4"
definition offCapacity :: nat where "offCapacity = 8"
definition offHead :: nat where "offHead = 16"
definition offTail :: nat where "offTail = 24"
definition offClosed :: nat where "offClosed = 32"

definition maxCapacity :: int64 where "maxCapacity = 2 ^ 31"

lemmas layout_defs = headerSize_def offMagic_def offVersion_def offCapacity_def
  offHead_def offTail_def offClosed_def


section \<open>Operations\<close>

definition validateCapacity :: "int64 \<Rightarrow> gerror option" where
  "validateCapacity capacity =
     (if capacity \<le> 0 \<or> capacity > maxCapacity \<or> capacity AND (sub64 capacity 1) \<noteq> 0
      then Some ErrInvalidCapacity else None)"

definition header_bytes :: "int64 \<Rightarrow> byte list" where
  "header_bytes capacity =
     (let buf = replicate headerSize 0;
          buf = PutUint32 buf offMagic magic;
          buf = PutUint32 buf offVersion formatVersion;
          buf = PutUint64 buf offCapacity (word_of_int capacity);
          buf = PutUint32 buf offHead 0;
          buf = PutUint32 buf offTail 0
      in PutUint32 buf offClosed 0)"

definition initHeader :: "'w storage \<Rightarrow> int64 \<Rightarrow> ('w, gerror option) prog" where
  "initHeader st capacity =
     pbind (call (WriteAt st (header_bytes capacity) 0)) (\<lambda>(n, err). Return err)"

definition verifyHeader :: "'w storage \<Rightarrow> int64 \<Rightarrow> ('w, gerror option) prog" where
  "verifyHeader st capacity =
     pbind (query (ReadAt st (replicate headerSize 0) 0)) (\<lambda>(buf, n, err).
       case err of
         Some e \<Rightarrow> Return (Some e)
       | None \<Rightarrow>
           if Uint32 (drop offMagic buf) \<noteq> magic then Return (Some ErrHeaderMismatch)
           else if Uint32 (drop offVersion buf) \<noteq> formatVersion then Return (Some ErrHeaderMismatch)
           else if Uint64 (drop offCapacity buf) \<noteq> word_of_int capacity then Return (Some ErrHeaderMismatch)
           else Return None)"

definition readUint32At :: "'w storage \<Rightarrow> nat \<Rightarrow> ('w, gerror + u32) prog" where
  "readUint32At st off =
     (case AtomicStorage st of
        Some a \<Rightarrow> query (LoadUint32 a (int off))
      | None \<Rightarrow> pbind (query (ReadAt st (replicate 4 0) (int off))) (\<lambda>(buf, n, err).
          case err of Some e \<Rightarrow> Return (Inl e) | None \<Rightarrow> Return (Inr (Uint32 buf))))"

text \<open>The store, and then the wake-up that every store of a counter is followed by.\<close>

definition storeWord :: "'w storage \<Rightarrow> nat \<Rightarrow> u32 \<Rightarrow> ('w, gerror option) prog" where
  "storeWord st off v =
     (case AtomicStorage st of
        Some a \<Rightarrow> call (StoreUint32 a (int off) v)
      | None \<Rightarrow> pbind (call (WriteAt st (PutUint32 (replicate 4 0) 0 v) (int off))) (\<lambda>(n, err). Return err))"

definition wakeWord :: "'w storage \<Rightarrow> nat \<Rightarrow> ('w, unit) prog" where
  "wakeWord st off =
     (case WaiterStorage st of Some u \<Rightarrow> call (Wake u (int off)) | None \<Rightarrow> Return ())"

definition writeUint32At :: "'w storage \<Rightarrow> nat \<Rightarrow> u32 \<Rightarrow> ('w, gerror option) prog" where
  "writeUint32At st off v =
     pbind (storeWord st off v) (\<lambda>err. case err of
         Some e \<Rightarrow> Return (Some e)
       | None \<Rightarrow> pbind (wakeWord st off) (\<lambda>_. Return None))"


section \<open>Capacities\<close>

lemma and_pred_eq_0_imp_pow2:
  fixes c :: int
  assumes "0 < c" "c AND (c - 1) = 0"
  shows "\<exists>k. c = 2 ^ k"
proof -
  obtain k where k: "2 ^ k \<le> nat c" "nat c < 2 ^ (k + 1)"
    using ex_power_ivl1 [of 2 "nat c"] assms(1) by (auto simp: Suc_le_eq)
  have le: "2 ^ k \<le> c" "c < 2 * 2 ^ k"
    using k assms(1) by (simp_all add: nat_less_iff le_nat_iff)
  have "c = 2 ^ k"
  proof (rule ccontr)
    assume "c \<noteq> 2 ^ k"
    with le have "c div 2 ^ k = 1" "(c - 1) div 2 ^ k = 1"
      using int_div_pos_eq [of c "2 ^ k" 1 "c - 2 ^ k"]
        int_div_pos_eq [of "c - 1" "2 ^ k" 1 "c - 1 - 2 ^ k"] by auto
    then have "bit c k" "bit (c - 1) k"
      by (simp_all add: bit_iff_odd)
    then have "bit (c AND (c - 1)) k" by (simp add: bit_and_iff)
    with assms(2) show False by simp
  qed
  then show ?thesis ..
qed

lemma pow2_and_pred: "(2 ^ k :: int) AND (2 ^ k - 1) = 0"
  by (simp add: int_and_pow2_minus_1)

lemma validateCapacity_iff: "validateCapacity c = None \<longleftrightarrow> (\<exists>k \<le> 31. c = 2 ^ k)"
proof
  assume *: "validateCapacity c = None"
  then have c: "0 < c" "c \<le> 2 ^ 31" and "c AND sub64 c 1 = 0"
    by (auto simp: validateCapacity_def maxCapacity_def split: if_splits)
  moreover from c have "sub64 c 1 = c - 1" by (intro sub64_id) (simp add: is_int64_def)
  ultimately obtain k where k: "c = 2 ^ k" using and_pred_eq_0_imp_pow2 by auto
  with c(2) have "k \<le> 31" using power_le_imp_le_exp [of "2::int" k 31] by simp
  with k show "\<exists>k \<le> 31. c = 2 ^ k" by blast
next
  assume "\<exists>k \<le> 31. c = 2 ^ k"
  then obtain k where k: "k \<le> 31" "c = 2 ^ k" by blast
  then have "(2::int) ^ k \<le> 2 ^ 31" by (intro power_increasing) auto
  moreover from this have "sub64 (2 ^ k) 1 = 2 ^ k - 1"
    using zero_less_power [of "2::int" k]
    by (intro sub64_id) (simp add: is_int64_def del: zero_less_power)
  ultimately show "validateCapacity c = None"
    by (simp add: validateCapacity_def maxCapacity_def k(2) pow2_and_pred)
qed

text \<open>
  C17: \<^verbatim>\<open>validateCapacity\<close> accepts exactly the powers of two from 1 to \<open>2 ^ 31\<close>, although it
  tests a bit pattern; so a ring's mask \<open>capacity - 1\<close> selects positions modulo the
  capacity, and the capacity divides the range of the 32-bit counters.
\<close>

theorem validateCapacity_pow2: "validateCapacity c = None \<longleftrightarrow> (\<exists>k \<le> 31. c = 2 ^ k)"
  by (rule validateCapacity_iff)


section \<open>Counter accesses over a lawful storage\<close>

lemma PutUint32_replicate [simp]: "PutUint32 (replicate 4 0) 0 v = le32 v"
  by (simp add: PutUint32_def patch_def)

lemma slice_all [simp]: "slice d 0 (length d) = d"
  by (simp add: slice_def)

context ring_storage
begin

lemma run_read32 [run_simps]:
  assumes "live w" "i + 4 \<le> length (data w)" "4 dvd i"
  shows "run (readUint32At S i) w = (Done (Inr (u32_at (data w) i)), w)"
  using assms load_ok [of _ w i] read_ok [of w "replicate 4 0" i]
  by (auto simp: readUint32At_def run_basic u32_at_def split: option.splits)

lemma write_u32_ok:
  assumes "live w" "i + 4 \<le> length (data w)"
  obtains w' where "WriteAt S (le32 v) (int i) w = (Ok (4, None), w')" "live w'"
    "data w' = patch (data w) i (le32 v)"
proof -
  have "le32 v \<noteq> []" using length_le32 [of v] by force
  then show ?thesis using write_ok [of w "le32 v" i] assms that by auto
qed

end

context waking_storage
begin

lemma rg_store:
  assumes "stable R I" "I w g" "4 dvd i"
    and "\<And>w g. I w g \<Longrightarrow> live w \<and> i + 4 \<le> length (data w)"
    and "\<And>w g w'. I w g \<Longrightarrow> live w' \<Longrightarrow> data w' = patch (data w) i (le32 v) \<Longrightarrow> same_wakes wk w w' \<Longrightarrow>
      \<exists>g'. G (w, g) (w', g') \<and> rg B R G Q (k None) w' g'"
  shows "rg B R G Q (pbind (storeWord S i v) k) w g"
proof (cases "AtomicStorage S")
  case None
  have "rg B R G Q (pbind (call (WriteAt S (le32 v) (int i))) (\<lambda>(n, err). k err)) w g"
  proof (rule rg_call_stable [OF assms(1,2)])
    fix w g assume I: "I w g"
    then obtain w' where "WriteAt S (le32 v) (int i) w = (Ok (4, None), w')" "live w'"
        "data w' = patch (data w) i (le32 v)"
      using write_u32_ok assms(4) by blast
    with assms(5) [OF I, of w'] write_wakes show "\<exists>a w' g'. WriteAt S (le32 v) (int i) w = (Ok a, w') \<and>
        G (w, g) (w', g') \<and> rg B R G Q (case a of (n, err) \<Rightarrow> k err) w' g'"
      by auto
  qed
  with None show ?thesis by (simp add: storeWord_def pbind_assoc case_prod_unfold)
next
  case (Some a)
  have "rg B R G Q (pbind (call (StoreUint32 a (int i) v)) k) w g"
  proof (rule rg_call_stable [OF assms(1,2)])
    fix w g assume I: "I w g"
    then obtain w' where "StoreUint32 a (int i) v w = (Ok None, w')" "live w'"
        "data w' = patch (data w) i (le32 v)"
      using store_ok [OF Some, of w i v] assms(3,4) by blast
    with assms(5) [OF I, of w'] store_wakes [OF Some] show "\<exists>b w' g'. StoreUint32 a (int i) v w = (Ok b, w') \<and>
        G (w, g) (w', g') \<and> rg B R G Q (k b) w' g'"
      by auto
  qed
  with Some show ?thesis by (simp add: storeWord_def)
qed

text \<open>Without a waiter there is nobody to wake, and \<open>woken\<close> promises nothing.\<close>

lemma rg_wake:
  assumes "stable R I" "I w g" "4 dvd i"
    and "\<And>w g. I w g \<Longrightarrow> live w \<and> i + 4 \<le> length (data w)"
    and "\<And>w g w'. I w g \<Longrightarrow> live w' \<Longrightarrow> data w' = data w \<Longrightarrow> woken wk i w w' \<Longrightarrow>
      \<exists>g'. G (w, g) (w', g') \<and> rg B R G Q (k ()) w' g'"
    and "\<And>w g. I w g \<Longrightarrow> wk = None \<Longrightarrow> rg B R G Q (k ()) w g"
  shows "rg B R G Q (pbind (wakeWord S i) k) w g"
proof (cases "WaiterStorage S")
  case None
  then show ?thesis using assms(2,6) waiter by (auto simp: wakeWord_def)
next
  case (Some u)
  have "rg B R G Q (pbind (call (Wake u (int i))) k) w g"
  proof (rule rg_call_stable [OF assms(1,2)])
    fix w g assume I: "I w g"
    then obtain w' where "Wake u (int i) w = (Ok (), w')" "live w'" "data w' = data w" "woken wk i w w'"
      using wake_ok [OF Some, of w i] wake_wakes [OF Some, of w i] assms(3,4) by blast
    with assms(5) I show "\<exists>a w' g'. Wake u (int i) w = (Ok a, w') \<and>
        G (w, g) (w', g') \<and> rg B R G Q (k a) w' g'"
      by blast
  qed
  with Some show ?thesis by (simp add: wakeWord_def)
qed

lemma rg_read32:
  assumes "stable R I" "I w g" "reflp G" "4 dvd i"
    and "\<And>w g. I w g \<Longrightarrow> live w \<and> i + 4 \<le> length (data w)"
    and "\<And>w g. I w g \<Longrightarrow> rg B R G Q (k (Inr (u32_at (data w) i))) w g"
  shows "rg B R G Q (pbind (readUint32At S i) k) w g"
proof (cases "AtomicStorage S")
  case None
  have "rg B R G Q (pbind (query (ReadAt S (replicate 4 0) (int i)))
      (\<lambda>(buf, n, err). case err of Some e \<Rightarrow> k (Inl e) | None \<Rightarrow> k (Inr (Uint32 buf)))) w g"
    using assms(5,6) read_ok [of _ "replicate 4 0" i]
    by (intro rg_query_stable [OF assms(1-3)]) (fastforce simp: u32_at_def)
  moreover have "pbind (readUint32At S i) k = pbind (query (ReadAt S (replicate 4 0) (int i)))
      (\<lambda>(buf, n, err). case err of Some e \<Rightarrow> k (Inl e) | None \<Rightarrow> k (Inr (Uint32 buf)))"
    unfolding readUint32At_def None option.case pbind_assoc
    by (rule arg_cong [where f = "pbind _"]) (auto simp: fun_eq_iff split: option.split)
  ultimately show ?thesis by simp
next
  case (Some a)
  have "rg B R G Q (pbind (query (LoadUint32 a (int i))) k) w g"
    using assms(4-6) load_ok [OF Some, of _ i] by (intro rg_query_stable [OF assms(1-3)]) blast
  with Some show ?thesis by (simp add: readUint32At_def)
qed

end

context ring_storage
begin

text \<open>Run alone, a store and its wake-up change the four bytes they name.\<close>

lemma run_write32:
  assumes "live w" "i + 4 \<le> length (data w)" "4 dvd i"
  obtains w' where "run (writeUint32At S i v) w = (Done None, w')" "live w'"
    "data w' = patch (data w) i (le32 v)"
proof -
  obtain w1 where w1: "run (storeWord S i v) w = (Done None, w1)" "live w1"
      "data w1 = patch (data w) i (le32 v)"
  proof (cases "AtomicStorage S")
    case None
    obtain w' where "WriteAt S (le32 v) (int i) w = (Ok (4, None), w')" "live w'"
        "data w' = patch (data w) i (le32 v)"
      using write_u32_ok [OF assms(1,2)] by blast
    with None show ?thesis by (intro that [of w']) (simp_all add: storeWord_def run_basic)
  next
    case (Some a)
    obtain w' where "StoreUint32 a (int i) v w = (Ok None, w')" "live w'"
        "data w' = patch (data w) i (le32 v)"
      using store_ok [OF Some assms] by blast
    with Some show ?thesis by (intro that [of w']) (simp_all add: storeWord_def run_basic)
  qed
  with assms(2) have "i + 4 \<le> length (data w1)" by (simp add: patch_simps)
  then have "\<exists>w2. run (wakeWord S i) w1 = (Done (), w2) \<and> live w2 \<and> data w2 = data w1"
  proof (cases "WaiterStorage S")
    case (Some u)
    with wake_ok [OF Some w1(2) \<open>i + 4 \<le> length (data w1)\<close> assms(3)] show ?thesis
      by (auto simp: wakeWord_def run_basic)
  qed (use w1(2) in \<open>simp add: wakeWord_def\<close>)
  then obtain w2 where "run (wakeWord S i) w1 = (Done (), w2)" "live w2" "data w2 = data w1"
    by blast
  with w1 show ?thesis by (intro that [of w2]) (simp_all add: writeUint32At_def run_basic)
qed

end

end
