(* ===== verification/Ring.thy ===== *)
theory Ring
  imports Header
begin

text \<open>
  The abstract view of the shared region, independent of any storage. \<open>contents cap d\<close> is
  the queue a region \<open>d\<close> holds: the occupied cells from the head counter on, read modulo
  the capacity. The lemmas say what each kind of region update does to it: staging bytes
  behind the tail leaves it alone, publishing the tail appends them, advancing the head
  drops a prefix.
\<close>

section \<open>Counters and cells\<close>

definition ring_head :: "byte list \<Rightarrow> u32" where "ring_head d = u32_at d offHead"
definition ring_tail :: "byte list \<Rightarrow> u32" where "ring_tail d = u32_at d offTail"
definition ring_closed :: "byte list \<Rightarrow> bool" where "ring_closed d \<longleftrightarrow> u32_at d offClosed \<noteq> 0"

definition used :: "byte list \<Rightarrow> nat" where
  "used d = unat (ring_tail d - ring_head d)"

definition cell :: "nat \<Rightarrow> byte list \<Rightarrow> nat \<Rightarrow> byte" where
  "cell cap d i = d ! (headerSize + i mod cap)"

definition cells :: "nat \<Rightarrow> byte list \<Rightarrow> nat \<Rightarrow> nat \<Rightarrow> byte list" where
  "cells cap d i n = map (\<lambda>j. cell cap d (i + j)) [0..<n]"

definition contents :: "nat \<Rightarrow> byte list \<Rightarrow> byte list" where
  "contents cap d = cells cap d (unat (ring_head d)) (used d)"

text \<open>A capacity that \<open>validateCapacity\<close> accepts, and a region that holds a ring.\<close>

definition cap_ok :: "nat \<Rightarrow> bool" where
  "cap_ok cap \<longleftrightarrow> (\<exists>k \<le> 31. cap = 2 ^ k)"

definition ring_ok :: "nat \<Rightarrow> byte list \<Rightarrow> bool" where
  "ring_ok cap d \<longleftrightarrow> cap_ok cap \<and> headerSize + cap \<le> length d \<and> used d \<le> cap"

lemmas counter_defs = ring_head_def ring_tail_def ring_closed_def

lemma cap_ok_bounds: "cap_ok cap \<Longrightarrow> 0 < cap \<and> cap \<le> 2 ^ 31"
  using power_increasing [of _ 31 "2::nat"] by (auto simp: cap_ok_def)

lemma cap_ok_dvd: "cap_ok cap \<Longrightarrow> cap dvd 2 ^ 32"
  using le_imp_power_dvd [of _ 32 "2::nat"] by (fastforce simp: cap_ok_def)

lemma cap_ok_validate: "cap_ok cap \<longleftrightarrow> validateCapacity (int cap) = None"
  by (simp add: validateCapacity_iff cap_ok_def)

lemma unat_add_mod_cap:
  assumes "cap_ok cap"
  shows "unat (a + of_nat n :: u32) mod cap = (unat a + n) mod cap"
proof -
  have "unat (a + of_nat n :: u32) = (unat a + n) mod 2 ^ 32"
    by (simp add: unat_word_ariths unat_of_nat mod_add_right_eq)
  then show ?thesis by (simp only: mod_mod_cancel [OF cap_ok_dvd [OF assms]])
qed

lemma tail_mod_cap:
  assumes "cap_ok cap"
  shows "(unat (ring_head d) + used d) mod cap = unat (ring_tail d) mod cap"
  using unat_add_mod_cap [OF assms, of "ring_head d" "used d"] by (simp add: used_def)

lemma counter_and_mask:
  "cap_ok cap \<Longrightarrow> uint (t :: u32) AND (int cap - 1) = int (unat t mod cap)"
  by (auto simp: cap_ok_def int_and_pow2_minus_1 of_nat_mod)

lemma mod_cap_less: "cap_ok cap \<Longrightarrow> t mod cap < cap"
  using cap_ok_bounds by simp

lemma length_cells [simp]: "length (cells cap d i n) = n"
  by (simp add: cells_def)

lemma length_contents [simp]: "length (contents cap d) = used d"
  by (simp add: contents_def)

lemma nth_cells [simp]: "j < n \<Longrightarrow> cells cap d i n ! j = cell cap d (i + j)"
  by (simp add: cells_def)

lemma cells_0 [simp]: "cells cap d i 0 = []"
  by (simp add: cells_def)

lemma cells_append: "cells cap d i (m + n) = cells cap d i m @ cells cap d (i + m) n"
  by (rule nth_equalityI) (auto simp: nth_append)

lemma take_cells: "n \<le> m \<Longrightarrow> take n (cells cap d i m) = cells cap d i n"
  by (rule nth_equalityI) auto

lemma drop_cells: "drop n (cells cap d i m) = cells cap d (i + n) (m - n)"
  by (rule nth_equalityI) (auto simp: add.assoc)

lemma cell_mod: "i mod cap = i' mod cap \<Longrightarrow> cell cap d (i + j) = cell cap d (i' + j)"
  by (simp add: cell_def) (metis mod_add_left_eq)

lemma cells_mod: "i mod cap = i' mod cap \<Longrightarrow> cells cap d i n = cells cap d i' n"
  by (auto simp: cells_def intro: cell_mod)

lemma cells_slice:
  assumes "i mod cap + n \<le> cap" "headerSize + cap \<le> length d"
  shows "cells cap d i n = slice d (headerSize + i mod cap) n"
proof (rule nth_equalityI)
  fix j assume "j < length (cells cap d i n)"
  then have j: "j < n" by simp
  with assms(1) have "(i + j) mod cap = i mod cap + j"
    by (metis add_less_le_mono le_trans less_le_trans mod_add_left_eq mod_less nat_add_left_cancel_less)
  with j assms show "cells cap d i n ! j = slice d (headerSize + i mod cap) n ! j"
    by (simp add: cell_def nth_slice add.assoc)
qed (use assms in \<open>simp add: patch_simps\<close>)


section \<open>Updates of the region\<close>

lemma cells_patch_header:
  assumes "i + length xs \<le> headerSize" "headerSize + cap \<le> length d" "0 < cap"
  shows "cells cap (patch d i xs) j n = cells cap d j n"
proof -
  have "headerSize + k mod cap < length d" for k
    using assms(2) mod_less_divisor [OF assms(3), of k] by linarith
  then show ?thesis
    using assms(1,2) by (simp add: cells_def cell_def nth_patch)
qed

text \<open>
  Storing a chunk at the cells from \<open>t\<close> on, behind \<open>m\<close> occupied cells that end at \<open>t\<close>: the
  occupied cells keep their bytes and the chunk follows them.
\<close>

lemma cells_patch_chunk:
  assumes "headerSize + cap \<le> length d" "t mod cap + length xs \<le> cap" "0 < cap"
    and "(i + m) mod cap = t mod cap" "m + length xs \<le> cap"
  shows "cells cap (patch d (headerSize + t mod cap) xs) i (m + length xs) = cells cap d i m @ xs"
proof -
  let ?s = "t mod cap" and ?d = "patch d (headerSize + t mod cap) xs"
  have len: "headerSize + ?s + length xs \<le> length d" using assms by linarith
  then have "cells cap ?d t (length xs) = xs"
    using assms by (subst cells_slice) (simp_all add: patch_simps)
  then have chunk: "cells cap ?d (i + m) (length xs) = xs"
    using cells_mod [OF assms(4)] by simp
  have "cell cap ?d (i + j) = cell cap d (i + j)" if "j < m" for j
  proof -
    define x where "x = (i + j) mod cap"
    have x: "x < cap" using assms(3) by (simp add: x_def)
    have "i + j + (m - j) = i + m" using that by simp
    then have "(x + (m - j)) mod cap = ?s"
      by (simp only: x_def mod_add_left_eq assms(4))
    moreover have "(x + (m - j)) mod cap = x + (m - j) - cap" if "\<not> x + (m - j) < cap"
      using that x assms(5) by (subst le_mod_geq) (simp_all only: not_less, subst mod_less, auto)
    ultimately have "x < ?s \<or> ?s + length xs \<le> x"
      using x that assms(5) by (cases "x + (m - j) < cap") auto
    with x len assms(1) show ?thesis
      by (auto simp: cell_def nth_patch simp flip: x_def)
  qed
  then have "cells cap ?d i m = cells cap d i m" by (simp add: cells_def)
  with chunk show ?thesis by (simp add: cells_append)
qed

lemma header_words_patch_data:
  assumes "headerSize \<le> i" "i + length xs \<le> length d"
  shows "ring_head (patch d i xs) = ring_head d" "ring_tail (patch d i xs) = ring_tail d"
    "ring_closed (patch d i xs) = ring_closed d" "used (patch d i xs) = used d"
  using assms by (simp_all add: counter_defs used_def layout_defs u32_at_patch_other)

text \<open>The part of the header that nobody changes once it has been written.\<close>

definition fixed :: "byte list \<Rightarrow> byte list" where
  "fixed d = take offHead d"

lemma fixed_patch: "offHead \<le> i \<Longrightarrow> i \<le> length d \<Longrightarrow> fixed (patch d i xs) = fixed d"
  by (simp add: fixed_def take_patch)

lemma fixed_words:
  assumes "ring_ok cap d"
  shows "fixed (patch d offHead xs) = fixed d" "fixed (patch d offTail xs) = fixed d"
    "fixed (patch d offClosed xs) = fixed d"
  using assms by (auto simp: ring_ok_def layout_defs intro!: fixed_patch)

text \<open>
  Staging a chunk \<open>xs\<close> behind \<open>k\<close> bytes already staged: the header's counters and the
  queue are as before, and \<open>xs\<close> follows the staged bytes.
\<close>

definition same_words :: "byte list \<Rightarrow> byte list \<Rightarrow> bool" where
  "same_words d d' \<longleftrightarrow> ring_head d' = ring_head d \<and> ring_tail d' = ring_tail d \<and>
     ring_closed d' = ring_closed d \<and> length d' = length d \<and> fixed d' = fixed d"

definition staged :: "nat \<Rightarrow> byte list \<Rightarrow> nat \<Rightarrow> byte list" where
  "staged cap d k = cells cap d (unat (ring_tail d)) k"

lemma same_words_refl [simp]: "same_words d d"
  by (simp add: same_words_def)

lemma same_words_trans: "same_words d d' \<Longrightarrow> same_words d' d'' \<Longrightarrow> same_words d d''"
  by (simp add: same_words_def)

lemma same_words_used: "same_words d d' \<Longrightarrow> used d' = used d"
  by (simp add: same_words_def used_def)

lemma same_words_ring_ok: "same_words d d' \<Longrightarrow> ring_ok cap d' = ring_ok cap d"
  by (simp add: ring_ok_def same_words_used) (simp add: same_words_def)

lemma stage_chunk:
  assumes "ring_ok cap d" "used d + k + length xs \<le> cap"
    and t: "t mod cap = (unat (ring_tail d) + k) mod cap" "t mod cap + length xs \<le> cap"
  defines "d' \<equiv> patch d (headerSize + t mod cap) xs"
  shows "same_words d d'" and "contents cap d' = contents cap d"
    and "staged cap d' (k + length xs) = staged cap d k @ xs"
proof -
  have len: "headerSize + cap \<le> length d" and cap: "cap_ok cap" "0 < cap"
    using assms(1) cap_ok_bounds by (auto simp: ring_ok_def)
  then have words: "ring_head d' = ring_head d" "ring_tail d' = ring_tail d"
      "ring_closed d' = ring_closed d" "used d' = used d"
    using t(2) unfolding d'_def by (subst header_words_patch_data; simp)+
  have "length d' = length d" using len t(2) by (simp add: d'_def patch_simps)
  moreover have "fixed d' = fixed d"
    using len t(2) unfolding d'_def by (intro fixed_patch) (simp_all add: layout_defs)
  ultimately show "same_words d d'" using words by (simp add: same_words_def)
  let ?h = "unat (ring_head d)" and ?t = "unat (ring_tail d)"
  have ht: "(?h + used d) mod cap = ?t mod cap" by (rule tail_mod_cap [OF cap(1)])
  then have "(?h + (used d + k)) mod cap = t mod cap"
    by (metis t(1) add.assoc mod_add_left_eq)
  from cells_patch_chunk [OF len t(2) cap(2) this] assms(2)
  have all: "cells cap d' ?h (used d + k + length xs) = cells cap d ?h (used d + k) @ xs"
    by (simp add: d'_def)
  show "contents cap d' = contents cap d"
    using arg_cong [OF all, of "take (used d)"] by (simp add: contents_def words take_cells)
  have "cells cap d' (?h + used d) (k + length xs) = cells cap d (?h + used d) k @ xs"
    using arg_cong [OF all, of "drop (used d)"] by (simp add: drop_cells)
  then show "staged cap d' (k + length xs) = staged cap d k @ xs"
    by (simp add: staged_def words cells_mod [OF ht])
qed

lemma staged_0 [simp]: "staged cap d 0 = []"
  by (simp add: staged_def)

lemma publish_tail:
  assumes "ring_ok cap d" "used d + n \<le> cap"
  defines "d' \<equiv> patch d offTail (le32 (ring_tail d + of_nat n))"
  shows "contents cap d' = contents cap d @ staged cap d n"
    and "ring_ok cap d'" "length d' = length d" "ring_head d' = ring_head d"
    and "ring_tail d' = ring_tail d + of_nat n" "ring_closed d' = ring_closed d"
proof -
  have len: "headerSize + cap \<le> length d" and cap: "cap_ok cap" "0 < cap" "cap \<le> 2 ^ 31"
    using assms(1) cap_ok_bounds by (auto simp: ring_ok_def)
  show l: "length d' = length d" using len by (simp add: d'_def patch_simps layout_defs)
  show h: "ring_head d' = ring_head d" and c: "ring_closed d' = ring_closed d"
    and t: "ring_tail d' = ring_tail d + of_nat n"
    using len by (simp_all add: d'_def counter_defs layout_defs u32_at_patch_other le_simps)
  have "unat (of_nat (used d + n) :: u32) = used d + n"
    using assms(2) cap(3) by (simp only: unat_of_nat) simp
  moreover have "ring_tail d + of_nat n - ring_head d = of_nat (used d + n)"
    by (simp add: used_def)
  ultimately have u: "used d' = used d + n" by (simp only: used_def [of d'] h t)
  show "ring_ok cap d'" using l u cap(1) len assms(2) by (simp add: ring_ok_def)
  have "cells cap d' i m = cells cap d i m" for i m
    using len cap(2) by (simp add: d'_def cells_patch_header layout_defs)
  then show "contents cap d' = contents cap d @ staged cap d n"
    by (simp add: contents_def staged_def h u cells_append cells_mod [OF tail_mod_cap [OF cap(1)]])
qed

lemma advance_head:
  assumes "ring_ok cap d" "n \<le> used d"
  defines "d' \<equiv> patch d offHead (le32 (ring_head d + of_nat n))"
  shows "contents cap d' = drop n (contents cap d)"
    and "ring_ok cap d'" "length d' = length d" "ring_tail d' = ring_tail d"
    and "ring_head d' = ring_head d + of_nat n" "ring_closed d' = ring_closed d"
proof -
  have len: "headerSize + cap \<le> length d" and cap: "cap_ok cap" "0 < cap" "cap \<le> 2 ^ 31"
      and "used d \<le> cap"
    using assms(1) cap_ok_bounds by (auto simp: ring_ok_def)
  show l: "length d' = length d" using len by (simp add: d'_def patch_simps layout_defs)
  show t: "ring_tail d' = ring_tail d" and c: "ring_closed d' = ring_closed d"
    and h: "ring_head d' = ring_head d + of_nat n"
    using len by (simp_all add: d'_def counter_defs layout_defs u32_at_patch_other le_simps)
  have "unat (of_nat (used d - n) :: u32) = used d - n"
    using \<open>used d \<le> cap\<close> cap(3) by (simp add: unat_of_nat)
  moreover have "ring_tail d - (ring_head d + of_nat n) = of_nat (used d - n)"
    using assms(2) by (simp add: used_def of_nat_diff)
  ultimately have u: "used d' = used d - n" by (simp only: used_def [of d'] h t)
  show "ring_ok cap d'" using l u cap(1) len \<open>used d \<le> cap\<close> by (simp add: ring_ok_def)
  have "cells cap d' i m = cells cap d i m" for i m
    using len cap(2) by (simp add: d'_def cells_patch_header layout_defs)
  then show "contents cap d' = drop n (contents cap d)"
    by (simp add: contents_def h u drop_cells cells_mod [OF unat_add_mod_cap [OF cap(1)]])
qed

text \<open>Setting the closed word, and storing a counter's own value again.\<close>

lemma set_closed:
  assumes "ring_ok cap d"
  defines "d' \<equiv> patch d offClosed (le32 1)"
  shows "contents cap d' = contents cap d" and "ring_ok cap d'" "length d' = length d"
    and "ring_head d' = ring_head d" "ring_tail d' = ring_tail d" "ring_closed d'"
proof -
  have len: "headerSize + cap \<le> length d" and cap: "0 < cap" "cap_ok cap"
    using assms(1) cap_ok_bounds by (auto simp: ring_ok_def)
  show l: "length d' = length d" using len by (simp add: d'_def patch_simps layout_defs)
  show h: "ring_head d' = ring_head d" and t: "ring_tail d' = ring_tail d" and "ring_closed d'"
    using len by (simp_all add: d'_def counter_defs layout_defs u32_at_patch_other le_simps)
  have u: "used d' = used d" by (simp add: used_def h t)
  show "ring_ok cap d'" using assms(1) by (simp add: ring_ok_def l u)
  show "contents cap d' = contents cap d"
    using len cap by (simp add: contents_def h u) (simp add: d'_def cells_patch_header layout_defs)
qed


section \<open>A fresh header\<close>

lemma slice_patch_inside:
  assumes "i + length xs \<le> length d" "j + n \<le> length xs"
  shows "slice (patch d i xs) (i + j) n = slice xs j n"
  using assms by (intro nth_equalityI) (auto simp: patch_simps nth_patch)

lemma length_header_bytes [simp]: "length (header_bytes c) = headerSize"
  by (simp add: header_bytes_def PutUint32_def PutUint64_def layout_defs patch_simps Let_def)

lemma header_bytes_ne [simp]: "header_bytes c \<noteq> []"
  by (metis length_header_bytes headerSize_def list.size(3) zero_neq_numeral)

text \<open>The six fields of the header that \<open>initHeader\<close> writes.\<close>

lemma header_bytes_words:
  "u32_at (header_bytes c) offMagic = magic" "u32_at (header_bytes c) offVersion = formatVersion"
  "u64_at (header_bytes c) offCapacity = word_of_int c"
  "u32_at (header_bytes c) offHead = 0" "u32_at (header_bytes c) offTail = 0"
  "u32_at (header_bytes c) offClosed = 0"
  by (simp_all add: header_bytes_def PutUint32_def PutUint64_def layout_defs Let_def
      patch_simps le_simps u32_at_patch_other u64_at_patch_other)

lemma u32_at_fresh:
  assumes "headerSize \<le> length d" "i + 4 \<le> headerSize"
  shows "u32_at (patch d 0 (header_bytes c)) i = u32_at (header_bytes c) i"
  using assms slice_patch_inside [of 0 "header_bytes c" d i 4] by (simp add: u32_at_def)

lemma u64_at_fresh:
  assumes "headerSize \<le> length d" "i + 8 \<le> headerSize"
  shows "u64_at (patch d 0 (header_bytes c)) i = u64_at (header_bytes c) i"
  using assms slice_patch_inside [of 0 "header_bytes c" d i 8] by (simp add: u64_at_def)

definition header_ok :: "int64 \<Rightarrow> byte list \<Rightarrow> bool" where
  "header_ok c d \<longleftrightarrow> u32_at d offMagic = magic \<and> u32_at d offVersion = formatVersion \<and>
     u64_at d offCapacity = word_of_int c"

lemma fresh_ring:
  assumes "cap_ok cap" "headerSize + cap \<le> length d"
  defines "d' \<equiv> patch d 0 (header_bytes (int cap))"
  shows "ring_ok cap d'" "contents cap d' = []" "\<not> ring_closed d'" "ring_head d' = 0"
    "ring_tail d' = 0" "used d' = 0" "header_ok (int cap) d'" "length d' = length d"
proof -
  have len: "headerSize \<le> length d" using assms(2) by simp
  show l: "length d' = length d" using len by (simp add: d'_def patch_simps)
  show h: "ring_head d' = 0" and t: "ring_tail d' = 0" and "\<not> ring_closed d'"
    and "header_ok (int cap) d'"
    using len header_bytes_words [of "int cap", unfolded layout_defs]
    by (simp_all add: d'_def counter_defs header_ok_def layout_defs u32_at_fresh u64_at_fresh)
  show u: "used d' = 0" by (simp add: used_def h t)
  then show "contents cap d' = []" by (simp add: contents_def)
  show "ring_ok cap d'" using assms u l by (simp add: ring_ok_def)
qed

end
