(* ===== verification/Options.thy ===== *)
theory Options
  imports Backend
begin

text \<open>
  \<^verbatim>\<open>options.go\<close>: the backoff range of the polling loops. A functional option is a function
  on the options record. Also here: the parts of \<^verbatim>\<open>context.Context\<close> and \<^verbatim>\<open>time\<close> that the
  blocking calls use. A context is its method table over the world; \<open>ctx_Select ctx d\<close> is
  the \<^verbatim>\<open>select\<close> on \<^verbatim>\<open>ctx.Done()\<close> and \<^verbatim>\<open>time.After(d)\<close>: \<open>None\<close> if the timer fired, \<open>Some e\<close> if
  \<^verbatim>\<open>ctx.Done()\<close> did, where \<open>e\<close> is what \<^verbatim>\<open>ctx.Err()\<close> returns from then on (the package
  documents that it is non-nil and does not change once \<^verbatim>\<open>Done\<close> is closed).
\<close>

record options =
  minPoll :: duration
  maxPoll :: duration

definition defaultMinPollInterval :: duration where "defaultMinPollInterval = 50 * 1000"
definition defaultMaxPollInterval :: duration where "defaultMaxPollInterval = 2 * 1000000"

definition defaultOptions :: options where
  "defaultOptions = \<lparr>minPoll = defaultMinPollInterval, maxPoll = defaultMaxPollInterval\<rparr>"

definition WithPollInterval :: "duration \<Rightarrow> duration \<Rightarrow> options \<Rightarrow> options" where
  "WithPollInterval minInterval maxInterval opts =
     (let opts = (if minInterval > 0 then opts\<lparr>minPoll := minInterval\<rparr> else opts);
          opts = (if maxInterval > 0 then opts\<lparr>maxPoll := maxInterval\<rparr> else opts)
      in if maxPoll opts < minPoll opts then opts\<lparr>maxPoll := minPoll opts\<rparr> else opts)"

text \<open>\<^verbatim>\<open>for _, opt := range opts { opt(&o) }\<close> in the constructors.\<close>

definition applyOptions :: "(options \<Rightarrow> options) list \<Rightarrow> options" where
  "applyOptions opts = fold (\<lambda>opt o'. opt o') opts defaultOptions"

definition options_ok :: "options \<Rightarrow> bool" where
  "options_ok opts \<longleftrightarrow> 0 < minPoll opts \<and> minPoll opts \<le> maxPoll opts"

lemma defaultOptions_ok: "options_ok defaultOptions"
  by (simp add: options_ok_def defaultOptions_def defaultMinPollInterval_def defaultMaxPollInterval_def)

lemma WithPollInterval_keeps: "options_ok opts \<Longrightarrow> options_ok (WithPollInterval a b opts)"
  by (auto simp: options_ok_def WithPollInterval_def Let_def)

lemma fold_options_ok: "options_ok o' \<Longrightarrow> options_ok (fold (\<lambda>(a, b). WithPollInterval a b) ab o')"
  by (induction ab arbitrary: o') (auto intro: WithPollInterval_keeps)

text \<open>
  Whatever \<^verbatim>\<open>WithPollInterval\<close> options a caller passes, with any intervals and in any
  order, the backoff range stays a positive, ordered interval.
\<close>

theorem poll_interval_invariant:
  "options_ok (applyOptions (map (\<lambda>(a, b). WithPollInterval a b) ab))"
proof -
  have "fold (\<lambda>opt o'. opt o') (map (\<lambda>(a, b). WithPollInterval a b) ab) o' =
      fold (\<lambda>(a, b). WithPollInterval a b) ab o'" for o'
    by (induction ab arbitrary: o') auto
  then show ?thesis
    by (simp add: applyOptions_def fold_options_ok defaultOptions_ok)
qed


section \<open>Contexts\<close>

record 'w ctx =
  ctx_Err :: "'w \<Rightarrow> gerror option"
  ctx_DoneNil :: bool
  ctx_Deadline :: "('w \<Rightarrow> duration) option" \<comment> \<open>\<^verbatim>\<open>time.Until\<close> of the deadline, if there is one\<close>
  ctx_Select :: "duration \<Rightarrow> ('w, gerror option) prog"

text \<open>\<^verbatim>\<open>context.Background()\<close> never ends, so its \<^verbatim>\<open>select\<close> waits for the timer: one step in
  which only time passes.\<close>

definition Background :: "'w ctx" where
  "Background = \<lparr>ctx_Err = (\<lambda>_. None), ctx_DoneNil = True, ctx_Deadline = None,
     ctx_Select = (\<lambda>d. query (\<lambda>_. Ok None))\<rparr>"

lemma Background_simps [simp]:
  "ctx_Err Background w = None" "ctx_DoneNil Background" "ctx_Deadline Background = None"
  "ctx_Select Background d = query (\<lambda>_. Ok None)"
  by (simp_all add: Background_def)

text \<open>A context whose methods leave the storage alone.\<close>

definition ctx_ok :: "('w \<Rightarrow> byte list) \<Rightarrow> ('w \<Rightarrow> bool) \<Rightarrow> 'w ctx \<Rightarrow> bool" where
  "ctx_ok data live ctx \<longleftrightarrow>
     (\<forall>d. quiet live (\<lambda>w w'. live w' \<and> data w' = data w) (ctx_Select ctx d))"

lemma Background_ok [simp]: "ctx_ok data live Background"
  by (simp add: ctx_ok_def quiet_query)

text \<open>\<^verbatim>\<open>waitSlice\<close> of \<^verbatim>\<open>writer.go\<close>, used by both sides.\<close>

definition waitSlice :: "'w ctx \<Rightarrow> duration \<Rightarrow> ('w, duration) prog" where
  "waitSlice ctx cap =
     (if ctx_DoneNil ctx then Return 0
      else case ctx_Deadline ctx of
          Some until \<Rightarrow> pbind (query (\<lambda>w. Ok (until w))) (\<lambda>remaining.
            if remaining < cap then (if remaining \<le> 0 then Return 1 else Return remaining)
            else Return cap)
        | None \<Rightarrow> Return cap)"

lemma quiet_waitSlice: "(\<And>w. P w \<Longrightarrow> E w w) \<Longrightarrow> quiet P E (waitSlice ctx cap)"
  by (auto simp: waitSlice_def intro!: quiet_pbind quiet_query split: option.split)

text \<open>\<^verbatim>\<open>wait *= 2\<close>, capped at \<^verbatim>\<open>maxPoll\<close>.\<close>

definition nextWait :: "options \<Rightarrow> duration \<Rightarrow> duration" where
  "nextWait opts wait = (let wait = mul64 wait 2 in if wait > maxPoll opts then maxPoll opts else wait)"

text \<open>
  The time \<^verbatim>\<open>waitSlice\<close> gives a \<^verbatim>\<open>Wait\<close>: \<open>0\<close> (wait for ever) exactly when the context
  cannot be cancelled, otherwise a positive time that exceeds neither the cap nor, before
  the deadline, the time that remains.
\<close>

theorem waitSlice_bounds:
  assumes "0 < cap"
  shows "\<exists>d. run (waitSlice ctx cap) w = (Done d, w) \<and>
    (d = 0 \<longleftrightarrow> ctx_DoneNil ctx) \<and> 0 \<le> d \<and> d \<le> cap \<and>
    (\<not> ctx_DoneNil ctx \<longrightarrow> (\<forall>until. ctx_Deadline ctx = Some until \<longrightarrow> 0 < until w \<longrightarrow> d \<le> until w))"
  using assms by (auto simp: waitSlice_def run_simps split: option.splits)

theorem waitSlice_bounds_witness:
  "run (waitSlice \<lparr>ctx_Err = (\<lambda>_. None), ctx_DoneNil = False, ctx_Deadline = Some (\<lambda>w. w),
     ctx_Select = (\<lambda>_. Return None)\<rparr> 5) (-3) = (Done 1, -3 :: int)"
  using waitSlice_bounds [of 5 "\<lparr>ctx_Err = (\<lambda>_. None), ctx_DoneNil = False, ctx_Deadline = Some (\<lambda>w. w),
     ctx_Select = (\<lambda>_. Return None)\<rparr>" "-3"]
  by (simp add: waitSlice_def run_simps)

text \<open>
  The backoff stays between \<^verbatim>\<open>minPoll\<close> and \<^verbatim>\<open>maxPoll\<close> and grows until it reaches
  \<^verbatim>\<open>maxPoll\<close>, provided \<^verbatim>\<open>maxPoll\<close> is below \<open>2 ^ 62\<close> nanoseconds (146 years), so that
  doubling does not wrap.
\<close>

theorem nextWait_bounds:
  assumes "options_ok opts" "maxPoll opts < 2 ^ 62" "minPoll opts \<le> wait" "wait \<le> maxPoll opts"
  shows "nextWait opts wait = min (2 * wait) (maxPoll opts) \<and> minPoll opts \<le> nextWait opts wait \<and>
    (wait < maxPoll opts \<longrightarrow> wait < nextWait opts wait)"
proof -
  have "mul64 wait 2 = wait * 2"
    using assms by (simp add: mul64_def i64_id is_int64_def options_ok_def)
  with assms show ?thesis by (simp add: nextWait_def options_ok_def Let_def)
qed

theorem nextWait_bounds_witness: "nextWait defaultOptions 1500000 = 2000000"
  using nextWait_bounds [OF defaultOptions_ok, of 1500000]
  by (simp add: defaultOptions_def defaultMinPollInterval_def defaultMaxPollInterval_def)


section \<open>One round of blocking\<close>

text \<open>
  What both \<^verbatim>\<open>WriteContext\<close> and \<^verbatim>\<open>ReadContext\<close> do when a round made no progress: give up
  with \<open>Inl e\<close> if the context has ended, else wait, on the word at \<open>off\<close> if the storage can
  (\<^verbatim>\<open>waiter.Wait(off, observed, ...)\<close>) and for the backoff time otherwise, and go on with
  \<open>Inr wait\<close>, the next backoff.
\<close>

definition blockRound ::
  "'w storage \<Rightarrow> nat \<Rightarrow> u32 \<Rightarrow> options \<Rightarrow> 'w ctx \<Rightarrow> duration \<Rightarrow> ('w, gerror + duration) prog" where
  "blockRound st off observed opts ctx wait =
     pbind (query (\<lambda>s. Ok (ctx_Err ctx s))) (\<lambda>cerr. case cerr of
         Some e \<Rightarrow> Return (Inl e)
       | None \<Rightarrow> (case WaiterStorage st of
             Some waiter \<Rightarrow>
               pbind (waitSlice ctx (maxPoll opts)) (\<lambda>d.
               pbind (Wait waiter (int off) observed d) (\<lambda>_. Return (Inr wait)))
           | None \<Rightarrow>
               pbind (ctx_Select ctx wait) (\<lambda>done. case done of
                   Some e \<Rightarrow> Return (Inl e)
                 | None \<Rightarrow> Return (Inr (nextWait opts wait)))))"

context ring_storage
begin

lemma quiet_blockRound:
  assumes "ctx_ok data live ctx" "live w" "i + 4 \<le> length (data w)" "4 dvd i"
  shows "quiet (\<lambda>w. live w \<and> i + 4 \<le> length (data w)) (\<lambda>w w'. live w' \<and> data w' = data w)
    (blockRound S i v opts ctx wait)"
proof -
  let ?q = "\<lambda>m. quiet (\<lambda>w. live w \<and> i + 4 \<le> length (data w)) (\<lambda>w w'. live w' \<and> data w' = data w) m"
  have "?q (query (\<lambda>s. Ok (ctx_Err ctx s)))" by (rule quiet_query) simp
  moreover have "?q (waitSlice ctx (maxPoll opts))" by (rule quiet_waitSlice) simp
  moreover have "?q (ctx_Select ctx wait)"
    by (rule quiet_weaken [OF assms(1) [unfolded ctx_ok_def, rule_format]]) auto
  moreover note wait_ok [OF _ assms(2-4), of _ v]
  ultimately show ?thesis
    by (auto simp: blockRound_def intro!: quiet_pbind split: option.split)
qed

end

text \<open>Where it blocks: asleep on the word, as the caller saw it.\<close>

context waking_storage
begin

lemma sleeps_blockRound:
  assumes "ctx_ok data live ctx" "live w" "i + 4 \<le> length (data w)" "4 dvd i"
  shows "sleeps (\<lambda>w. live w \<and> i + 4 \<le> length (data w)) (\<lambda>w w'. live w' \<and> data w' = data w \<and> same_wakes wk w w')
    (asleep data wk i v) (blockRound S i v opts ctx wait) w"
proof (cases wk)
  case None
  then show ?thesis
    using quiet_sleeps [OF quiet_blockRound [OF assms], where Z = "\<lambda>_ _. True", THEN sleeps_weaken] by simp
next
  case (Some f)
  then obtain u where u: "WaiterStorage S = Some u" using waiter by auto
  let ?s = "\<lambda>m. sleeps (\<lambda>w. live w \<and> i + 4 \<le> length (data w)) (\<lambda>w w'. live w' \<and> data w' = data w \<and> same_wakes wk w w')
    (asleep data wk i v) m"
  have same: "same_wakes wk w w" for w by (simp add: same_wakes_def)
  have "?s (query (\<lambda>s. Ok (ctx_Err ctx s))) w" for w by (rule sleeps_query) (simp add: same)
  moreover have "?s (waitSlice ctx (maxPoll opts)) w" for w
    by (auto simp: waitSlice_def same intro!: sleeps_pbind sleeps_query split: option.split)
  moreover note wait_sleeps [OF u assms(2-4), of v]
  ultimately show ?thesis
    by (auto simp: blockRound_def u intro!: sleeps_pbind split: option.split)
qed

end

end
