(* ===== verification/Reader.thy ===== *)
theory Reader
  imports Ring Options
begin

text \<open>
  \<^verbatim>\<open>reader.go\<close>: the consumer. A method of \<^verbatim>\<open>*Reader\<close> takes the Reader and the caller's
  buffer and returns its results with the buffer and the Reader. The loop of
  \<^verbatim>\<open>ReadContext\<close> has a fuel argument, as \<^verbatim>\<open>WriteContext\<close> has.
\<close>

section \<open>State and operations\<close>

record 'w reader =
  r_st :: "'w storage"
  r_capacity :: int64
  r_mask :: int64
  r_opt :: options
  r_head :: u32
  r_cachedTail :: u32

definition NewReader ::
  "'w storage \<Rightarrow> int64 \<Rightarrow> (options \<Rightarrow> options) list \<Rightarrow> ('w, gerror + 'w reader) prog" where
  "NewReader st capacity opts =
     (case validateCapacity capacity of
        Some e \<Rightarrow> Return (Inl e)
      | None \<Rightarrow> pbind (query (\<lambda>w. Ok (Size st w))) (\<lambda>sz.
          if sz < add64 (int headerSize) capacity then Return (Inl ErrStorageTooSmall)
          else pbind (verifyHeader st capacity) (\<lambda>err. case err of
              Some e \<Rightarrow> Return (Inl e)
            | None \<Rightarrow> Return (Inr
                \<lparr>r_st = st, r_capacity = capacity, r_mask = sub64 capacity 1,
                 r_opt = applyOptions opts, r_head = 0, r_cachedTail = 0\<rparr>))))"

text \<open>\<^verbatim>\<open>int64(r.cachedTail - r.head)\<close>\<close>

definition readerAvail :: "'w reader \<Rightarrow> int64" where
  "readerAvail r = uint (r_cachedTail r - r_head r)"

text \<open>Filling \<^verbatim>\<open>p[:n]\<close> from the ring at the head, in two pieces when it wraps around.\<close>

definition readRing :: "'w reader \<Rightarrow> byte list \<Rightarrow> int64 \<Rightarrow> ('w, byte list \<times> gerror option) prog" where
  "readRing r p n =
     (let start = uint (r_head r) AND r_mask r in
      if add64 start n \<le> r_capacity r then
        pbind (query (ReadAt (r_st r) (take (nat n) p) (add64 (int headerSize) start))) (\<lambda>(q, _, err).
          Return (q @ drop (nat n) p, err))
      else let first = sub64 (r_capacity r) start in
        pbind (query (ReadAt (r_st r) (take (nat first) p) (add64 (int headerSize) start))) (\<lambda>(q, _, err).
          let p = q @ drop (nat first) p in
          case err of Some e \<Rightarrow> Return (p, Some e)
          | None \<Rightarrow> pbind (query (ReadAt (r_st r) (drop (nat first) (take (nat n) p)) (int headerSize)))
              (\<lambda>(q, _, err). Return (take (nat first) p @ q @ drop (nat n) p, err))))"

text \<open>The head is advanced locally first, then stored.\<close>

definition advanceHead ::
  "'w reader \<Rightarrow> byte list \<Rightarrow> int64 \<Rightarrow> ('w, (int64 \<times> gerror option) \<times> byte list \<times> 'w reader) prog" where
  "advanceHead r p n =
     (let r = r\<lparr>r_head := r_head r + word_of_int n\<rparr> in
      pbind (writeUint32At (r_st r) offHead (r_head r)) (\<lambda>err. case err of
          Some e \<Rightarrow> Return ((0, Some e), p, r)
        | None \<Rightarrow> Return ((n, None), p, r)))"

text \<open>The part of \<^verbatim>\<open>TryRead\<close> after the cached tail has been refreshed where needed.\<close>

definition readAvailable ::
  "'w reader \<Rightarrow> byte list \<Rightarrow> ('w, (int64 \<times> gerror option) \<times> byte list \<times> 'w reader) prog" where
  "readAvailable r p =
     (let avail = readerAvail r in
      if avail \<le> 0 then
        pbind (readUint32At (r_st r) offClosed) (\<lambda>c. case c of
            Inl e \<Rightarrow> Return ((0, Some e), p, r)
          | Inr closed \<Rightarrow> if closed \<noteq> 0 then Return ((0, Some EOF), p, r) else Return ((0, None), p, r))
      else let n = (if int (length p) > avail then avail else int (length p)) in
        pbind (readRing r p n) (\<lambda>(p, err). case err of
            Some e \<Rightarrow> Return ((0, Some e), p, r)
          | None \<Rightarrow> advanceHead r p n))"

definition TryRead ::
  "'w reader \<Rightarrow> byte list \<Rightarrow> ('w, (int64 \<times> gerror option) \<times> byte list \<times> 'w reader) prog" where
  "TryRead r p =
     (if p = [] then Return ((0, None), p, r)
      else if readerAvail r < int (length p) then
        pbind (readUint32At (r_st r) offTail) (\<lambda>t. case t of
            Inl e \<Rightarrow> Return ((0, Some e), p, r)
          | Inr tail \<Rightarrow> readAvailable (r\<lparr>r_cachedTail := tail\<rparr>) p)
      else readAvailable r p)"

fun readLoop ::
  "nat \<Rightarrow> 'w ctx \<Rightarrow> 'w reader \<Rightarrow> byte list \<Rightarrow> duration \<Rightarrow>
    ('w, (int64 \<times> gerror option) option \<times> byte list \<times> 'w reader) prog" where
  "readLoop 0 ctx r p wait = Return (None, p, r)"
| "readLoop (Suc fuel) ctx r p wait =
     pbind (TryRead r p) (\<lambda>((n, err), p, r).
       if n > 0 \<or> err \<noteq> None then Return (Some (n, err), p, r)
       else pbind (blockRound (r_st r) offTail (r_cachedTail r) (r_opt r) ctx wait) (\<lambda>b. case b of
           Inl e \<Rightarrow> Return (Some (0, Some e), p, r)
         | Inr wait \<Rightarrow> readLoop fuel ctx r p wait))"

definition ReadContext ::
  "nat \<Rightarrow> 'w ctx \<Rightarrow> 'w reader \<Rightarrow> byte list \<Rightarrow>
    ('w, (int64 \<times> gerror option) option \<times> byte list \<times> 'w reader) prog" where
  "ReadContext fuel ctx r p =
     (if p = [] then Return (Some (0, None), p, r) else readLoop fuel ctx r p (minPoll (r_opt r)))"

definition Read ::
  "nat \<Rightarrow> 'w reader \<Rightarrow> byte list \<Rightarrow> ('w, (int64 \<times> gerror option) option \<times> byte list \<times> 'w reader) prog" where
  "Read fuel r p = ReadContext fuel Background r p"

definition CloseReader :: "'w reader \<Rightarrow> ('w, gerror option) prog" where
  "CloseReader r = call (CloseOp (r_st r))"


section \<open>The invariant of a Reader\<close>

definition reader_inv :: "nat \<Rightarrow> byte list \<Rightarrow> 'w reader \<Rightarrow> bool" where
  "reader_inv cap d r \<longleftrightarrow> ring_ok cap d \<and> r_capacity r = int cap \<and> r_mask r = int cap - 1 \<and>
     r_head r = ring_head d \<and> unat (r_cachedTail r - r_head r) \<le> used d"

lemma readerAvail_eq: "readerAvail r = int (unat (r_cachedTail r - r_head r))"
  by (simp add: readerAvail_def)

text \<open>The offsets \<open>readRing\<close> computes, as natural numbers.\<close>

lemma readRing_eq:
  assumes "cap_ok cap" "r_capacity r = int cap" "r_mask r = int cap - 1" "n \<le> cap" "n \<le> length p"
  shows "readRing r p (int n) =
     (let s = unat (r_head r) mod cap in
      if s + n \<le> cap then
        pbind (query (ReadAt (r_st r) (take n p) (int (headerSize + s)))) (\<lambda>(q, _, err).
          Return (q @ drop n p, err))
      else
        pbind (query (ReadAt (r_st r) (take (cap - s) p) (int (headerSize + s)))) (\<lambda>(q, _, err).
          let p = q @ drop (cap - s) p in
          case err of Some e \<Rightarrow> Return (p, Some e)
          | None \<Rightarrow> pbind (query (ReadAt (r_st r) (drop (cap - s) (take n p)) (int headerSize)))
              (\<lambda>(q, _, err). Return (take (cap - s) p @ q @ drop n p, err))))"
proof -
  let ?s = "unat (r_head r) mod cap"
  have s: "?s < cap" "cap \<le> 2 ^ 31" using mod_cap_less cap_ok_bounds assms(1) by auto
  have "add64 (int ?s) (int n) = int (?s + n)" "add64 (int headerSize) (int ?s) = int (headerSize + ?s)"
    "sub64 (int cap) (int ?s) = int (cap - ?s)"
    using s assms(4) by (intro add64_nat sub64_nat; simp add: headerSize_def)+
  note eqs = this
  show ?thesis
    by (simp only: readRing_def counter_and_mask [OF assms(1)] assms(2,3) Let_def eqs nat_int of_nat_le_iff)
qed

end
