(* ===== verification/Writer.thy ===== *)
theory Writer
  imports Ring Options
begin

text \<open>
  \<^verbatim>\<open>writer.go\<close>: the producer. A method of \<^verbatim>\<open>*Writer\<close> takes the Writer and returns it with
  its results, also where it fails. The loop of \<^verbatim>\<open>WriteContext\<close> has a fuel argument, the
  number of iterations; \<open>None\<close> is "has not returned within the fuel".
\<close>

section \<open>State and operations\<close>

record 'w writer =
  w_st :: "'w storage"
  w_capacity :: int64
  w_mask :: int64
  w_opt :: options
  w_tail :: u32
  w_cachedHead :: u32
  w_closed :: bool

definition NewWriter ::
  "'w storage \<Rightarrow> int64 \<Rightarrow> (options \<Rightarrow> options) list \<Rightarrow> ('w, gerror + 'w writer) prog" where
  "NewWriter st capacity opts =
     (case validateCapacity capacity of
        Some e \<Rightarrow> Return (Inl e)
      | None \<Rightarrow> pbind (query (\<lambda>w. Ok (Size st w))) (\<lambda>sz.
          if sz < add64 (int headerSize) capacity then Return (Inl ErrStorageTooSmall)
          else pbind (initHeader st capacity) (\<lambda>err. case err of
              Some e \<Rightarrow> Return (Inl e)
            | None \<Rightarrow> Return (Inr
                \<lparr>w_st = st, w_capacity = capacity, w_mask = sub64 capacity 1,
                 w_opt = applyOptions opts, w_tail = 0, w_cachedHead = 0, w_closed = False\<rparr>))))"

text \<open>\<^verbatim>\<open>w.capacity - int64(w.tail-w.cachedHead)\<close>\<close>

definition writerFree :: "'w writer \<Rightarrow> int64" where
  "writerFree w = sub64 (w_capacity w) (uint (w_tail w - w_cachedHead w))"

text \<open>Copying \<^verbatim>\<open>p[:n]\<close> to the ring at the tail, in two pieces when it wraps around.\<close>

definition writeRing :: "'w writer \<Rightarrow> byte list \<Rightarrow> int64 \<Rightarrow> ('w, gerror option) prog" where
  "writeRing w p n =
     (let start = uint (w_tail w) AND w_mask w in
      if add64 start n \<le> w_capacity w then
        pbind (call (WriteAt (w_st w) (take (nat n) p) (add64 (int headerSize) start))) (\<lambda>(_, err). Return err)
      else let first = sub64 (w_capacity w) start in
        pbind (call (WriteAt (w_st w) (take (nat first) p) (add64 (int headerSize) start))) (\<lambda>(_, err).
          case err of Some e \<Rightarrow> Return (Some e)
          | None \<Rightarrow> pbind (call (WriteAt (w_st w) (drop (nat first) (take (nat n) p)) (int headerSize)))
              (\<lambda>(_, err). Return err)))"

text \<open>The tail is advanced locally first, then stored.\<close>

definition publishTail :: "'w writer \<Rightarrow> int64 \<Rightarrow> ('w, (int64 \<times> gerror option) \<times> 'w writer) prog" where
  "publishTail w n =
     (let w = w\<lparr>w_tail := w_tail w + word_of_int n\<rparr> in
      pbind (writeUint32At (w_st w) offTail (w_tail w)) (\<lambda>err. case err of
          Some e \<Rightarrow> Return ((0, Some e), w)
        | None \<Rightarrow> Return ((n, None), w)))"

text \<open>The part of \<^verbatim>\<open>TryWrite\<close> after the cached head has been refreshed where needed.\<close>

definition writeFreeSpace :: "'w writer \<Rightarrow> byte list \<Rightarrow> ('w, (int64 \<times> gerror option) \<times> 'w writer) prog" where
  "writeFreeSpace w p =
     (let free = writerFree w in
      if free \<le> 0 then Return ((0, None), w)
      else let n = (if int (length p) > free then free else int (length p)) in
        pbind (writeRing w p n) (\<lambda>err. case err of
            Some e \<Rightarrow> Return ((0, Some e), w)
          | None \<Rightarrow> publishTail w n))"

definition TryWrite :: "'w writer \<Rightarrow> byte list \<Rightarrow> ('w, (int64 \<times> gerror option) \<times> 'w writer) prog" where
  "TryWrite w p =
     (if w_closed w then Return ((0, Some ErrClosed), w)
      else if p = [] then Return ((0, None), w)
      else if writerFree w < int (length p) then
        pbind (readUint32At (w_st w) offHead) (\<lambda>r. case r of
            Inl e \<Rightarrow> Return ((0, Some e), w)
          | Inr head \<Rightarrow> writeFreeSpace (w\<lparr>w_cachedHead := head\<rparr>) p)
      else writeFreeSpace w p)"

fun writeLoop ::
  "nat \<Rightarrow> 'w ctx \<Rightarrow> 'w writer \<Rightarrow> byte list \<Rightarrow> int64 \<Rightarrow> duration \<Rightarrow>
    ('w, (int64 \<times> gerror option) option \<times> 'w writer) prog" where
  "writeLoop 0 ctx w p written wait = Return (None, w)"
| "writeLoop (Suc fuel) ctx w p written wait =
     (if \<not> written < int (length p) then Return (Some (written, None), w)
      else pbind (TryWrite w (drop (nat written) p)) (\<lambda>((n, err), w).
        let written = written + n in
        case err of
          Some e \<Rightarrow> Return (Some (written, Some e), w)
        | None \<Rightarrow>
            if n > 0 then writeLoop fuel ctx w p written (minPoll (w_opt w))
            else pbind (blockRound (w_st w) offHead (w_cachedHead w) (w_opt w) ctx wait) (\<lambda>r. case r of
                Inl e \<Rightarrow> Return (Some (written, Some e), w)
              | Inr wait \<Rightarrow> writeLoop fuel ctx w p written wait)))"

definition WriteContext ::
  "nat \<Rightarrow> 'w ctx \<Rightarrow> 'w writer \<Rightarrow> byte list \<Rightarrow> ('w, (int64 \<times> gerror option) option \<times> 'w writer) prog" where
  "WriteContext fuel ctx w p = writeLoop fuel ctx w p 0 (minPoll (w_opt w))"

definition Write ::
  "nat \<Rightarrow> 'w writer \<Rightarrow> byte list \<Rightarrow> ('w, (int64 \<times> gerror option) option \<times> 'w writer) prog" where
  "Write fuel w p = WriteContext fuel Background w p"

definition CloseWriter :: "'w writer \<Rightarrow> ('w, gerror option \<times> 'w writer) prog" where
  "CloseWriter w =
     (if w_closed w then Return (None, w)
      else let w = w\<lparr>w_closed := True\<rparr> in
        pbind (writeUint32At (w_st w) offClosed 1) (\<lambda>err. case err of
            Some e \<Rightarrow> Return (Some e, w)
          | None \<Rightarrow> pbind (writeUint32At (w_st w) offTail (w_tail w)) (\<lambda>err. Return (err, w))))"

definition CloseStorage :: "'w writer \<Rightarrow> ('w, gerror option \<times> 'w writer) prog" where
  "CloseStorage w =
     pbind (CloseWriter w) (\<lambda>(err, w). case err of
         Some e \<Rightarrow> Return (Some e, w)
       | None \<Rightarrow> pbind (call (CloseOp (w_st w))) (\<lambda>err. Return (err, w)))"


section \<open>The invariant of a Writer\<close>

text \<open>
  A Writer over a region: its counters agree with the header, its cached head lags behind
  the true one by no more than it may, and it knows whether it has closed the ring.
\<close>

definition writer_inv :: "nat \<Rightarrow> byte list \<Rightarrow> 'w writer \<Rightarrow> bool" where
  "writer_inv cap d w \<longleftrightarrow> ring_ok cap d \<and> w_capacity w = int cap \<and> w_mask w = int cap - 1 \<and>
     w_tail w = ring_tail d \<and> used d \<le> unat (w_tail w - w_cachedHead w) \<and>
     unat (w_tail w - w_cachedHead w) \<le> cap \<and> (w_closed w \<longleftrightarrow> ring_closed d)"

lemma writerFree_eq:
  assumes "cap_ok cap" "w_capacity w = int cap" "unat (w_tail w - w_cachedHead w) \<le> cap"
  shows "writerFree w = int (cap - unat (w_tail w - w_cachedHead w))"
proof -
  have "sub64 (int cap) (int (unat (w_tail w - w_cachedHead w))) =
      int (cap - unat (w_tail w - w_cachedHead w))"
    using assms(3) cap_ok_bounds [OF assms(1)] by (intro sub64_nat) simp_all
  then show ?thesis using assms(2) by (simp add: writerFree_def)
qed

text \<open>The offsets \<open>writeRing\<close> computes, as natural numbers.\<close>

lemma writeRing_eq:
  assumes "cap_ok cap" "w_capacity w = int cap" "w_mask w = int cap - 1" "n \<le> cap" "n \<le> length p"
  shows "writeRing w p (int n) =
     (let s = unat (w_tail w) mod cap in
      if s + n \<le> cap then
        pbind (call (WriteAt (w_st w) (take n p) (int (headerSize + s)))) (\<lambda>(_, err). Return err)
      else
        pbind (call (WriteAt (w_st w) (take (cap - s) p) (int (headerSize + s)))) (\<lambda>(_, err).
          case err of Some e \<Rightarrow> Return (Some e)
          | None \<Rightarrow> pbind (call (WriteAt (w_st w) (drop (cap - s) (take n p)) (int headerSize)))
              (\<lambda>(_, err). Return err)))"
proof -
  let ?s = "unat (w_tail w) mod cap"
  have s: "?s < cap" "cap \<le> 2 ^ 31" using mod_cap_less cap_ok_bounds assms(1) by auto
  have "add64 (int ?s) (int n) = int (?s + n)" "add64 (int headerSize) (int ?s) = int (headerSize + ?s)"
    "sub64 (int cap) (int ?s) = int (cap - ?s)"
    using s assms(4) by (intro add64_nat sub64_nat; simp add: headerSize_def)+
  then show ?thesis
    by (simp add: writeRing_def counter_and_mask assms(1-3) Let_def del: of_nat_add)
qed

end
