(* ===== verification/Fifo.thy ===== *)
theory Fifo
  imports Ring
begin

text \<open>
  What the ring buffer promises: a bounded queue of bytes that can be closed. The
  operations below are the specification of \<^verbatim>\<open>TryWrite\<close>, \<^verbatim>\<open>TryRead\<close> and \<^verbatim>\<open>Writer.Close\<close>
  as their documentation states it; \<open>fifo_of\<close> is the queue a region holds.
\<close>

record fifo =
  queue :: "byte list"
  finished :: bool

definition fifo_write :: "nat \<Rightarrow> byte list \<Rightarrow> fifo \<Rightarrow> (int64 \<times> gerror option) \<times> fifo" where
  "fifo_write cap p f =
     (if finished f then ((0, Some ErrClosed), f)
      else let n = min (length p) (cap - length (queue f)) in
        ((int n, None), f\<lparr>queue := queue f @ take n p\<rparr>))"

definition fifo_read :: "byte list \<Rightarrow> fifo \<Rightarrow> ((int64 \<times> gerror option) \<times> byte list) \<times> fifo" where
  "fifo_read p f =
     (if p = [] then (((0, None), p), f)
      else if queue f = [] then (((0, if finished f then Some EOF else None), p), f)
      else let n = min (length p) (length (queue f)) in
        (((int n, None), take n (queue f) @ drop n p), f\<lparr>queue := drop n (queue f)\<rparr>))"

definition fifo_close :: "fifo \<Rightarrow> fifo" where
  "fifo_close f = f\<lparr>finished := True\<rparr>"

definition fifo_of :: "nat \<Rightarrow> byte list \<Rightarrow> fifo" where
  "fifo_of cap d = \<lparr>queue = contents cap d, finished = ring_closed d\<rparr>"

lemma fifo_of_simps [simp]:
  "queue (fifo_of cap d) = contents cap d" "finished (fifo_of cap d) = ring_closed d"
  by (simp_all add: fifo_of_def)

lemma contents_empty_iff: "contents cap d = [] \<longleftrightarrow> used d = 0"
  by (metis length_0_conv length_contents)

text \<open>The specification itself: a bounded queue stays bounded, and a read returns what was written.\<close>

lemma fifo_write_bounded:
  "length (queue f) \<le> cap \<Longrightarrow> length (queue (snd (fifo_write cap p f))) \<le> cap"
  by (auto simp: fifo_write_def Let_def)

end
