(* ===== verification/WriterSpec.thy ===== *)
theory WriterSpec
  imports Writer Fifo
begin

text \<open>
  The Writer run alone over a lawful storage: every operation keeps \<open>writer_inv\<close> and does
  to the queue in the region what the specification of \<^verbatim>\<open>Fifo\<close> says.
\<close>

lemma writer_inv_used: "writer_inv cap d w \<Longrightarrow> used d \<le> cap"
  by (simp add: writer_inv_def ring_ok_def)

text \<open>The other side's progress keeps a Writer's invariant.\<close>

lemma writer_inv_mono:
  assumes "writer_inv cap d w" "ring_ok cap d'" "ring_tail d' = ring_tail d"
    and "ring_closed d' = ring_closed d" "used d' \<le> used d"
  shows "writer_inv cap d' w"
  using assms by (auto simp: writer_inv_def)

lemma writer_inv_refresh:
  "writer_inv cap d w \<Longrightarrow> writer_inv cap d (w\<lparr>w_cachedHead := ring_head d\<rparr>)"
  by (auto simp: writer_inv_def used_def ring_ok_def)

lemma writerFree_inv:
  "writer_inv cap d w \<Longrightarrow> writerFree w = int (cap - unat (w_tail w - w_cachedHead w))"
  by (intro writerFree_eq) (auto simp: writer_inv_def ring_ok_def)

lemma writeFreeSpace_eq:
  assumes "writer_inv cap d w" "p \<noteq> []"
  defines "n \<equiv> min (length p) (cap - unat (w_tail w - w_cachedHead w))"
  shows "writeFreeSpace w p =
     (if n = 0 then Return ((0, None), w)
      else pbind (writeRing w p (int n)) (\<lambda>err. case err of
          Some e \<Rightarrow> Return ((0, Some e), w) | None \<Rightarrow> publishTail w (int n)))"
proof -
  obtain k where k: "writerFree w = int k" "n = min (length p) k"
    using writerFree_inv [OF assms(1)] n_def by blast
  moreover have "0 < length p" using assms(2) by simp
  ultimately show ?thesis by (auto simp: writeFreeSpace_def Let_def min_def)
qed

text \<open>After a publication of \<open>n\<close> staged bytes.\<close>

lemma writer_inv_publish:
  assumes "writer_inv cap d w" "n \<le> cap - unat (w_tail w - w_cachedHead w)"
  defines "d' \<equiv> patch d offTail (le32 (w_tail w + of_nat n))"
  shows "writer_inv cap d' (w\<lparr>w_tail := w_tail w + of_nat n\<rparr>)"
    and "contents cap d' = contents cap d @ staged cap d n"
    and "ring_head d' = ring_head d" "ring_closed d' = ring_closed d"
proof -
  have ok: "ring_ok cap d" and t: "w_tail w = ring_tail d" and cap: "cap \<le> 2 ^ 31"
      and u: "used d \<le> unat (w_tail w - w_cachedHead w)" "unat (w_tail w - w_cachedHead w) \<le> cap"
    using assms(1) cap_ok_bounds by (auto simp: writer_inv_def ring_ok_def)
  then have fit: "used d + n \<le> cap" using assms(2) by linarith
  note pub = publish_tail [OF ok fit, folded t, folded d'_def]
  show "contents cap d' = contents cap d @ staged cap d n" by (rule pub(1))
  show "ring_head d' = ring_head d" "ring_closed d' = ring_closed d" by (rule pub)+
  have len: "used d' = used d + n"
    using arg_cong [OF pub(1), of length] by (simp add: staged_def)
  let ?k = "unat (w_tail w - w_cachedHead w)"
  have "w_tail w + of_nat n - w_cachedHead w = of_nat (?k + n)" by simp
  moreover have "unat (of_nat (?k + n) :: u32) = ?k + n"
    using assms(2) u cap by (simp only: unat_of_nat) simp
  ultimately have "unat (w_tail w + of_nat n - w_cachedHead w) = ?k + n" by (simp only:)
  then show "writer_inv cap d' (w\<lparr>w_tail := w_tail w + of_nat n\<rparr>)"
    using assms(1,2) u pub by (simp add: writer_inv_def len)
qed

text \<open>
  \<open>wrote S data live cap p n s w' s'\<close>: a write of \<open>n\<close> bytes of \<open>p\<close> over the storage \<open>S\<close> has
  taken the world \<open>s\<close> to \<open>s'\<close> and left the Writer \<open>w'\<close>.
\<close>

definition wrote ::
  "'w storage \<Rightarrow> ('w \<Rightarrow> byte list) \<Rightarrow> ('w \<Rightarrow> bool) \<Rightarrow> nat \<Rightarrow> byte list \<Rightarrow> nat \<Rightarrow> 'w \<Rightarrow> 'w writer \<Rightarrow> 'w \<Rightarrow> bool"
  where
  "wrote S data live cap p n s w' s' \<longleftrightarrow> live s' \<and> w_st w' = S \<and> writer_inv cap (data s') w' \<and>
     contents cap (data s') = contents cap (data s) @ take n p \<and>
     ring_head (data s') = ring_head (data s) \<and> ring_closed (data s') = ring_closed (data s)"

context ring_storage
begin

text \<open>One piece of a write, at the cells from \<open>t\<close> on.\<close>

lemma write_chunk:
  assumes "live s" "ring_ok cap (data s)" "used (data s) + k + length xs \<le> cap" "xs \<noteq> []"
    and "t mod cap = (unat (ring_tail (data s)) + k) mod cap" "t mod cap + length xs \<le> cap"
  shows "\<exists>s'. WriteAt S xs (int (headerSize + t mod cap)) s = (Ok (int (length xs), None), s') \<and>
    live s' \<and> same_words (data s) (data s') \<and> contents cap (data s') = contents cap (data s) \<and>
    staged cap (data s') (k + length xs) = staged cap (data s) k @ xs"
proof -
  have "headerSize + t mod cap + length xs \<le> length (data s)"
    using assms(2,6) by (simp add: ring_ok_def)
  from write_ok [OF assms(1,4) this]
  obtain s' where "WriteAt S xs (int (headerSize + t mod cap)) s = (Ok (int (length xs), None), s')"
      "live s'" "data s' = patch (data s) (headerSize + t mod cap) xs" by blast
  with stage_chunk [OF assms(2,3,5,6)] show ?thesis by simp
qed

lemma run_writeRing:
  assumes "live s" "w_st w = S" "writer_inv cap (data s) w"
    and n: "0 < n" "n \<le> length p" "used (data s) + n \<le> cap"
  obtains s' where "run (writeRing w p (int n)) s = (Done None, s')" "live s'"
    "same_words (data s) (data s')" "contents cap (data s') = contents cap (data s)"
    "staged cap (data s') n = take n p"
proof -
  have ok: "ring_ok cap (data s)" and cap: "cap_ok cap" "0 < cap" and t: "w_tail w = ring_tail (data s)"
      and wc: "w_capacity w = int cap" "w_mask w = int cap - 1"
    using assms(3) cap_ok_bounds by (auto simp: writer_inv_def ring_ok_def)
  define s0 where "s0 = unat (w_tail w) mod cap"
  have s0: "s0 < cap" "s0 mod cap = s0" using cap(2) by (simp_all add: s0_def)
  have n_cap: "n \<le> cap" using n(3) by simp
  note eq = writeRing_eq [OF cap(1) wc n_cap n(2), unfolded assms(2), folded s0_def]
  show ?thesis
  proof (cases "s0 + n \<le> cap")
    case True
    obtain s' where "WriteAt S (take n p) (int (headerSize + s0)) s = (Ok (int n, None), s')" "live s'"
        "same_words (data s) (data s')" "contents cap (data s') = contents cap (data s)"
        "staged cap (data s') n = take n p"
    proof -
      have "take n p \<noteq> []" "length (take n p) = n" using n by auto
      with write_chunk [OF assms(1) ok, of 0 "take n p" s0] n True s0 that show ?thesis
        by (auto simp: s0_def t)
    qed
    with True show ?thesis by (intro that [of s']) (simp_all add: eq Let_def run_basic)
  next
    case False
    define f where "f = cap - s0"
    have f: "0 < f" "f < n" "s0 + f = cap" using False s0 by (auto simp: f_def)
    obtain s1 where s1: "WriteAt S (take f p) (int (headerSize + s0)) s = (Ok (int f, None), s1)"
        "live s1" "same_words (data s) (data s1)" "contents cap (data s1) = contents cap (data s)"
        "staged cap (data s1) f = take f p"
    proof -
      have "take f p \<noteq> []" "length (take f p) = f" using n f by auto
      with write_chunk [OF assms(1) ok, of 0 "take f p" s0] n f s0 that show ?thesis
        by (auto simp: s0_def t)
    qed
    have tail1: "ring_tail (data s1) = w_tail w" using s1(3) t by (simp add: same_words_def)
    have "(unat (w_tail w) + f) mod cap = 0"
      using f(3) by (metis mod_add_left_eq mod_self s0_def)
    obtain s2 where s2: "WriteAt S (drop f (take n p)) (int headerSize) s1 = (Ok (int (n - f), None), s2)"
        "live s2" "same_words (data s1) (data s2)" "contents cap (data s2) = contents cap (data s1)"
        "staged cap (data s2) n = take f p @ drop f (take n p)"
    proof -
      have "drop f (take n p) \<noteq> []" "length (drop f (take n p)) = n - f" "n - f \<le> cap"
        using n f n_cap by auto
      with write_chunk [OF s1(2), of cap f "drop f (take n p)" 0] n f ok that
        same_words_ring_ok [OF s1(3), of cap] same_words_used [OF s1(3)] show ?thesis
        using \<open>(unat (w_tail w) + f) mod cap = 0\<close> by (auto simp: tail1 s1(5))
    qed
    moreover have "take f p @ drop f (take n p) = take n p"
      using f(2) by (metis append_take_drop_id min.absorb3 take_take)
    moreover have "run (writeRing w p (int n)) s = (Done None, s2)"
      using False f(3) s1(1) s2(1) by (simp add: eq Let_def run_basic flip: f_def)
    ultimately show ?thesis
      using s1 by (intro that [of s2]) (auto intro: same_words_trans)
  qed
qed

lemma run_publishTail:
  assumes "live s" "w_st w = S" "writer_inv cap (data s) w"
    and n: "n \<le> cap - unat (w_tail w - w_cachedHead w)"
  obtains s' where "run (publishTail w (int n)) s =
      (Done ((int n, None), w\<lparr>w_tail := w_tail w + of_nat n\<rparr>), s')" "live s'"
    "writer_inv cap (data s') (w\<lparr>w_tail := w_tail w + of_nat n\<rparr>)"
    "contents cap (data s') = contents cap (data s) @ staged cap (data s) n"
    "ring_head (data s') = ring_head (data s)" "ring_closed (data s') = ring_closed (data s)"
proof -
  have "offTail + 4 \<le> length (data s)" "4 dvd offTail"
    using assms(3) by (auto simp: writer_inv_def ring_ok_def layout_defs)
  from run_write32 [OF assms(1) this, of "w_tail w + of_nat n"]
  obtain s' where "run (writeUint32At S offTail (w_tail w + of_nat n)) s = (Done None, s')" "live s'"
      "data s' = patch (data s) offTail (le32 (w_tail w + of_nat n))" by blast
  with writer_inv_publish [OF assms(3) n] assms(2) show ?thesis
    by (intro that [of s']) (simp_all add: publishTail_def run_basic Let_def)
qed

lemma run_writeFreeSpace:
  assumes "live s" "w_st w = S" "writer_inv cap (data s) w" "p \<noteq> []"
  defines "n \<equiv> min (length p) (cap - unat (w_tail w - w_cachedHead w))"
  shows "\<exists>w' s'. run (writeFreeSpace w p) s = (Done ((int n, None), w'), s') \<and> wrote S data live cap p n s w' s' \<and>
    w_opt w' = w_opt w"
proof (cases "n = 0")
  case True
  with assms(1-3) show ?thesis
    by (simp add: writeFreeSpace_eq [OF assms(3,4), folded n_def] wrote_def)
next
  case False
  let ?u = "unat (w_tail w - w_cachedHead w)"
  have n: "0 < n" "n \<le> length p" "used (data s) + n \<le> cap" "n \<le> cap - ?u"
    using False assms(3) by (auto simp: n_def writer_inv_def)
  obtain s1 where s1: "run (writeRing w p (int n)) s = (Done None, s1)" "live s1"
      "same_words (data s) (data s1)" "contents cap (data s1) = contents cap (data s)"
      "staged cap (data s1) n = take n p"
    using run_writeRing [OF assms(1-3) n(1-3)] by blast
  have inv1: "writer_inv cap (data s1) w"
    using writer_inv_mono [OF assms(3), of "data s1"] s1(3) assms(3)
    by (auto simp: same_words_used same_words_ring_ok writer_inv_def) (simp_all add: same_words_def)
  obtain s2 where s2: "run (publishTail w (int n)) s1 =
      (Done ((int n, None), w\<lparr>w_tail := w_tail w + of_nat n\<rparr>), s2)" "live s2"
      "writer_inv cap (data s2) (w\<lparr>w_tail := w_tail w + of_nat n\<rparr>)"
      "contents cap (data s2) = contents cap (data s1) @ staged cap (data s1) n"
      "ring_head (data s2) = ring_head (data s1)" "ring_closed (data s2) = ring_closed (data s1)"
    using run_publishTail [OF s1(2) assms(2) inv1 n(4)] by blast
  have "run (writeFreeSpace w p) s = (Done ((int n, None), w\<lparr>w_tail := w_tail w + of_nat n\<rparr>), s2)"
    using False s1(1) s2(1) by (simp add: writeFreeSpace_eq [OF assms(3,4), folded n_def] run_basic)
  moreover have "wrote S data live cap p n s (w\<lparr>w_tail := w_tail w + of_nat n\<rparr>) s2"
    using s1 s2 assms(2) by (simp add: wrote_def same_words_def)
  ultimately show ?thesis by fastforce
qed

lemma run_TryWrite:
  fixes p :: "byte list"
  assumes "live s" "w_st w = S" "writer_inv cap (data s) w" "\<not> w_closed w"
  defines "n \<equiv> min (length p) (cap - used (data s))"
  shows "\<exists>w' s'. run (TryWrite w p) s = (Done ((int n, None), w'), s') \<and> wrote S data live cap p n s w' s' \<and>
    w_opt w' = w_opt w"
proof -
  let ?u = "unat (w_tail w - w_cachedHead w)"
  have len: "offHead + 4 \<le> length (data s)" "4 dvd offHead"
    using assms(3) by (auto simp: writer_inv_def ring_ok_def layout_defs)
  have u: "used (data s) \<le> ?u" "?u \<le> cap" using assms(3) unfolding writer_inv_def by blast+
  consider "p = []" | "p \<noteq> []" "cap - ?u < length p" | "p \<noteq> []" "length p \<le> cap - ?u"
    by linarith
  then show ?thesis
  proof cases
    case 1
    then show ?thesis using assms(1-4) by (simp add: TryWrite_def n_def wrote_def)
  next
    case 2
    let ?w = "w\<lparr>w_cachedHead := ring_head (data s)\<rparr>"
    have "unat (w_tail ?w - w_cachedHead ?w) = used (data s)"
      using assms(3) by (simp add: writer_inv_def used_def)
    moreover have "run (TryWrite w p) s = run (writeFreeSpace ?w p) s"
      using 2 assms(2,4) run_read32 [OF assms(1) len]
      by (simp add: TryWrite_def writerFree_inv [OF assms(3)] run_basic ring_head_def)
    ultimately show ?thesis
      using run_writeFreeSpace [OF assms(1) _ writer_inv_refresh [OF assms(3)] 2(1)] assms(2)
      by (simp add: n_def)
  next
    case 3
    then have "n = min (length p) (cap - ?u)" using u by (simp add: n_def)
    moreover have "run (TryWrite w p) s = run (writeFreeSpace w p) s"
      using 3 assms(4) by (simp add: TryWrite_def writerFree_inv [OF assms(3)])
    ultimately show ?thesis using run_writeFreeSpace [OF assms(1-3) 3(1)] by simp
  qed
qed

lemma run_initHeader:
  assumes "live s" "headerSize \<le> length (data s)"
  shows "\<exists>s'. run (initHeader S c) s = (Done None, s') \<and> live s' \<and> data s' = patch (data s) 0 (header_bytes c)"
proof -
  have "header_bytes c \<noteq> []" by (metis length_header_bytes headerSize_def list.size(3) zero_neq_numeral)
  with write_ok [OF assms(1), of "header_bytes c" 0] assms(2) show ?thesis
    by (auto simp: initHeader_def run_basic)
qed

lemma run_NewWriter:
  assumes "live s"
  shows "validateCapacity c \<noteq> None \<Longrightarrow> run (NewWriter S c opts) s = (Done (Inl ErrInvalidCapacity), s)"
    and "validateCapacity c = None \<Longrightarrow> int (length (data s)) < int headerSize + c \<Longrightarrow>
      run (NewWriter S c opts) s = (Done (Inl ErrStorageTooSmall), s)"
    and "validateCapacity c = None \<Longrightarrow> int headerSize + c \<le> int (length (data s)) \<Longrightarrow>
      \<exists>w s'. run (NewWriter S c opts) s = (Done (Inr w), s') \<and> live s' \<and>
        data s' = patch (data s) 0 (header_bytes c) \<and> w_st w = S \<and> \<not> w_closed w \<and>
        w_opt w = applyOptions opts \<and> writer_inv (nat c) (data s') w"
proof -
  show "run (NewWriter S c opts) s = (Done (Inl ErrInvalidCapacity), s)" if "validateCapacity c \<noteq> None"
    using that by (auto simp: NewWriter_def validateCapacity_def split: if_splits)
  assume ok: "validateCapacity c = None"
  then obtain cap where c: "c = int cap" "cap_ok cap"
    by (metis cap_ok_validate validateCapacity_iff of_nat_numeral of_nat_power)
  then have cap: "0 < cap" "cap \<le> 2 ^ 31" using cap_ok_bounds by auto
  have add: "add64 (int headerSize) c = int (headerSize + cap)"
    using add64_nat [of headerSize cap] cap by (simp add: c(1) headerSize_def)
  have sub: "sub64 c 1 = int cap - 1"
    using cap sub64_nat [of 1 cap] by (simp add: c(1) of_nat_diff)
  note [simp] = size_data [OF assms]
  show "run (NewWriter S c opts) s = (Done (Inl ErrStorageTooSmall), s)"
    if "int (length (data s)) < int headerSize + c"
    using that ok by (simp add: NewWriter_def run_basic add [unfolded c(1)] c(1))
  assume "int headerSize + c \<le> int (length (data s))"
  then have len: "headerSize + cap \<le> length (data s)" by (simp add: c(1))
  with run_initHeader [OF assms, of c] obtain s' where s': "run (initHeader S c) s = (Done None, s')"
      "live s'" "data s' = patch (data s) 0 (header_bytes c)" by auto
  let ?w = "\<lparr>w_st = S, w_capacity = c, w_mask = sub64 c 1, w_opt = applyOptions opts,
      w_tail = 0, w_cachedHead = 0, w_closed = False\<rparr>"
  have "run (NewWriter S c opts) s = (Done (Inr ?w), s')"
  proof -
    have "\<not> int (length (data s)) < add64 (int headerSize) c" unfolding add using len by simp
    then show ?thesis using ok s'(1) by (simp add: NewWriter_def run_basic)
  qed
  moreover have "writer_inv (nat c) (data s') ?w"
    using fresh_ring [OF c(2) len] by (simp add: writer_inv_def s'(3) c(1) sub [unfolded c(1)])
  ultimately show "\<exists>w s'. run (NewWriter S c opts) s = (Done (Inr w), s') \<and> live s' \<and>
        data s' = patch (data s) 0 (header_bytes c) \<and> w_st w = S \<and> \<not> w_closed w \<and>
        w_opt w = applyOptions opts \<and> writer_inv (nat c) (data s') w"
    using s' by (intro exI [of _ ?w] exI [of _ s']) simp
qed

lemma run_CloseWriter:
  assumes "live s" "w_st w = S" "writer_inv cap (data s) w"
  shows "\<exists>s'. run (CloseWriter w) s = (Done (None, w\<lparr>w_closed := True\<rparr>), s') \<and> live s' \<and>
    writer_inv cap (data s') (w\<lparr>w_closed := True\<rparr>) \<and> ring_closed (data s') \<and>
    contents cap (data s') = contents cap (data s) \<and> ring_head (data s') = ring_head (data s) \<and>
    ring_tail (data s') = ring_tail (data s)"
proof (cases "w_closed w")
  case True
  then have "w\<lparr>w_closed := True\<rparr> = w" by (cases w) simp
  with True assms show ?thesis by (auto simp: CloseWriter_def writer_inv_def)
next
  case False
  have ok: "ring_ok cap (data s)" and len: "headerSize \<le> length (data s)" and t: "w_tail w = ring_tail (data s)"
    using assms(3) by (auto simp: writer_inv_def ring_ok_def)
  obtain s1 where s1: "run (writeUint32At S offClosed 1) s = (Done None, s1)" "live s1"
      "data s1 = patch (data s) offClosed (le32 1)"
    using run_write32 [OF assms(1), of offClosed 1] len by (auto simp: layout_defs)
  note cl = set_closed [OF ok, folded s1(3)]
  obtain s2 where s2: "run (writeUint32At S offTail (w_tail w)) s1 = (Done None, s2)" "live s2"
      "data s2 = patch (data s1) offTail (le32 (w_tail w))"
    using run_write32 [OF s1(2), of offTail "w_tail w"] len cl(3) by (auto simp: layout_defs)
  have "used (data s1) \<le> cap" using cl(2) by (simp add: ring_ok_def)
  note pub = publish_tail [OF cl(2), of 0, simplified, OF this, unfolded cl(5), folded t, folded s2(3)]
  have "used (data s2) = used (data s)" using pub(1) cl(1) by (metis length_contents)
  then have "writer_inv cap (data s2) (w\<lparr>w_closed := True\<rparr>)"
    using assms(3) pub cl t by (auto simp: writer_inv_def)
  moreover have "run (CloseWriter w) s = (Done (None, w\<lparr>w_closed := True\<rparr>), s2)"
    using False s1(1) s2(1) assms(2) by (simp add: CloseWriter_def run_basic Let_def)
  ultimately show ?thesis using s2(2) pub cl t by simp
qed

end


section \<open>Properties\<close>

text \<open>
  A region whose header has just been written, and the Writer that wrote it: the state
  from which the instances of the theorems start.
\<close>

definition fresh_region :: "nat \<Rightarrow> byte list" where
  "fresh_region cap = patch (replicate (headerSize + cap) 0) 0 (header_bytes (int cap))"

definition fresh_writer :: "'w storage \<Rightarrow> nat \<Rightarrow> 'w writer" where
  "fresh_writer st cap =
     \<lparr>w_st = st, w_capacity = int cap, w_mask = int cap - 1, w_opt = defaultOptions,
      w_tail = 0, w_cachedHead = 0, w_closed = False\<rparr>"

lemma fresh_region:
  assumes "cap_ok cap"
  shows "ring_ok cap (fresh_region cap)" "contents cap (fresh_region cap) = []"
    "\<not> ring_closed (fresh_region cap)" "header_ok (int cap) (fresh_region cap)"
    "length (fresh_region cap) = headerSize + cap" "ring_head (fresh_region cap) = 0"
    "ring_tail (fresh_region cap) = 0" "used (fresh_region cap) = 0"
  using fresh_ring [OF assms, of "replicate (headerSize + cap) 0"] by (simp_all add: fresh_region_def)

lemma fresh_writer_inv: "cap_ok cap \<Longrightarrow> writer_inv cap (fresh_region cap) (fresh_writer st cap)"
  by (simp add: writer_inv_def fresh_writer_def fresh_region)

lemma cap_ok_4 [simp]: "cap_ok 4" and cap_ok_8 [simp]: "cap_ok 8"
  unfolding cap_ok_def by (intro exI [of _ 2] exI [of _ 3]; simp)+

lemma fresh_writer_st [simp]: "w_st (fresh_writer st cap) = st"
  by (simp add: fresh_writer_def)

lemmas mem_ring_storage = mem.ring_storage_axioms

text \<open>The instances' world: a MemStorage with a fresh ring of capacity 4.\<close>

abbreviation mem4 :: mem where "mem4 \<equiv> \<lparr>buf = fresh_region 4\<rparr>"

lemma mem4_live: "length (buf mem4) < 2 ^ 62"
  and mem4_writer: "w_st (fresh_writer mem_storage 4) = mem_storage"
  and mem4_writer_inv: "writer_inv 4 (buf mem4) (fresh_writer mem_storage 4)"
  by (simp_all add: fresh_writer_inv fresh_region headerSize_def)

text \<open>
  C5: \<^verbatim>\<open>TryWrite\<close> refines the bounded queue, over any lawful storage and in every state in
  which the Writer's invariant holds: it returns what the specification returns (the
  count of bytes that fit, or \<^verbatim>\<open>ErrClosed\<close> after \<^verbatim>\<open>Close\<close>), the queue in the region is the
  specified one, nothing panics, and the invariant holds again.
\<close>

theorem TryWrite_refines:
  assumes "ring_storage S data live" "live s" "w_st w = S" "writer_inv cap (data s) w"
  shows "\<exists>res w' s'. run (TryWrite w p) s = (Done (res, w'), s') \<and>
    (res, fifo_of cap (data s')) = fifo_write cap p (fifo_of cap (data s)) \<and>
    live s' \<and> w_st w' = S \<and> writer_inv cap (data s') w'"
proof (cases "w_closed w")
  case True
  then have "ring_closed (data s)" using assms(4) by (simp add: writer_inv_def)
  with True show ?thesis using assms by (simp add: TryWrite_def fifo_write_def)
next
  case False
  then have "\<not> ring_closed (data s)" using assms(4) by (simp add: writer_inv_def)
  with ring_storage.run_TryWrite [OF assms False, of p] show ?thesis
    by (force simp: fifo_write_def wrote_def fifo_of_def Let_def)
qed

theorem TryWrite_refines_witness:
  "\<exists>w s. run (TryWrite (fresh_writer mem_storage 4) [1, 2, 3, 4, 5, 6]) mem4 =
     (Done ((4, None), w), s) \<and> contents 4 (buf s) = [1, 2, 3, 4]"
  using TryWrite_refines [OF mem_ring_storage mem4_live mem4_writer mem4_writer_inv, of "[1, 2, 3, 4, 5, 6]"]
  by (auto simp: fresh_region fifo_write_def fifo_of_def Let_def)

text \<open>
  C14: \<^verbatim>\<open>NewWriter\<close> fails with \<^verbatim>\<open>ErrInvalidCapacity\<close> exactly when the capacity is not a power
  of two up to \<open>2 ^ 31\<close>, with \<^verbatim>\<open>ErrStorageTooSmall\<close> exactly when it is one but the storage
  does not hold header and data, in both cases without touching the storage; otherwise it
  writes the header, leaves every byte after it alone, and returns a Writer on an empty,
  open ring whose invariant holds.
\<close>

theorem NewWriter_correct:
  assumes "ring_storage S data live" "live s"
  shows "\<exists>r s'. run (NewWriter S c opts) s = (Done r, s') \<and> live s' \<and>
    (case r of
       Inl e \<Rightarrow> s' = s \<and> (e = ErrInvalidCapacity \<and> \<not> (\<exists>k \<le> 31. c = 2 ^ k) \<or>
         e = ErrStorageTooSmall \<and> (\<exists>k \<le> 31. c = 2 ^ k) \<and> int (length (data s)) < int headerSize + c)
     | Inr w \<Rightarrow> (\<exists>k \<le> 31. c = 2 ^ k) \<and> int headerSize + c \<le> int (length (data s)) \<and>
         header_ok c (data s') \<and> drop headerSize (data s') = drop headerSize (data s) \<and>
         w_st w = S \<and> w_opt w = applyOptions opts \<and> writer_inv (nat c) (data s') w \<and>
         fifo_of (nat c) (data s') = \<lparr>queue = [], finished = False\<rparr>)"
proof (cases "validateCapacity c = None")
  case False
  then show ?thesis
    using ring_storage.run_NewWriter(1) [OF assms, of c opts] assms(2)
    by (auto simp: validateCapacity_iff)
next
  case True
  then obtain k where k: "k \<le> 31" "c = 2 ^ k" by (auto simp: validateCapacity_iff)
  show ?thesis
  proof (cases "int (length (data s)) < int headerSize + c")
    case short: True
    then show ?thesis
      using ring_storage.run_NewWriter(2) [OF assms True, of opts] assms(2) k by auto
  next
    case False
    then have fits: "int headerSize + c \<le> int (length (data s))" by simp
    have cap: "cap_ok (nat c)" "int (nat c) = c" using k by (auto simp: cap_ok_def nat_power_eq)
    have len: "headerSize + nat c \<le> length (data s)" using fits cap(2) by linarith
    obtain w s' where r: "run (NewWriter S c opts) s = (Done (Inr w), s')" "live s'"
        "data s' = patch (data s) 0 (header_bytes c)" "w_st w = S" "w_opt w = applyOptions opts"
        "writer_inv (nat c) (data s') w"
      using ring_storage.run_NewWriter(3) [OF assms True fits, of opts] by blast
    moreover have "drop headerSize (data s') = drop headerSize (data s)"
      using len by (simp add: r(3) patch_def)
    ultimately show ?thesis
      using fresh_ring [OF cap(1) len] fits k cap(2) by (auto simp: fifo_of_def)
  qed
qed

theorem NewWriter_correct_witness:
  "\<exists>w s. run (NewWriter mem_storage 4 []) \<lparr>buf = replicate 68 0\<rparr> = (Done (Inr w), s) \<and>
     fifo_of 4 (buf s) = \<lparr>queue = [], finished = False\<rparr> \<and>
   run (NewWriter mem_storage 4 []) \<lparr>buf = replicate 67 0\<rparr> =
     (Done (Inl ErrStorageTooSmall), \<lparr>buf = replicate 67 0\<rparr>)"
proof -
  have pow: "(\<forall>k \<le> 31. 2 ^ k \<noteq> (4::int)) = False" "(\<forall>k \<le> 31. (4::int) \<noteq> 2 ^ k) = False"
    using spec [of "\<lambda>k. k \<le> 31 \<longrightarrow> 2 ^ k \<noteq> (4::int)" 2] by auto
  have "\<exists>w s. run (NewWriter mem_storage 4 []) \<lparr>buf = replicate 68 0\<rparr> = (Done (Inr w), s) \<and>
      fifo_of 4 (buf s) = \<lparr>queue = [], finished = False\<rparr>"
    using NewWriter_correct [OF mem_ring_storage, of "\<lparr>buf = replicate 68 0\<rparr>" 4 "[]"]
    apply (simp add: pow, elim exE)
    subgoal for r s' by (cases r) (auto simp: headerSize_def pow)
    done
  moreover have "run (NewWriter mem_storage 4 []) \<lparr>buf = replicate 67 0\<rparr> =
      (Done (Inl ErrStorageTooSmall), \<lparr>buf = replicate 67 0\<rparr>)"
    using NewWriter_correct [OF mem_ring_storage, of "\<lparr>buf = replicate 67 0\<rparr>" 4 "[]"]
    apply (simp add: pow, elim exE)
    subgoal for r s' by (cases r) (auto simp: headerSize_def pow)
    done
  ultimately show ?thesis by blast
qed

text \<open>
  C16: \<^verbatim>\<open>Writer.Close\<close> marks the ring closed and changes nothing else of the queue: the
  bytes already written remain for the Reader. A second \<^verbatim>\<open>Close\<close> returns without effect.
\<close>

theorem CloseWriter_refines:
  assumes "ring_storage S data live" "live s" "w_st w = S" "writer_inv cap (data s) w"
  shows "\<exists>w' s'. run (CloseWriter w) s = (Done (None, w'), s') \<and>
    fifo_of cap (data s') = fifo_close (fifo_of cap (data s)) \<and>
    live s' \<and> writer_inv cap (data s') w' \<and> run (CloseWriter w') s' = (Done (None, w'), s')"
proof -
  obtain s' where s': "run (CloseWriter w) s = (Done (None, w\<lparr>w_closed := True\<rparr>), s')" "live s'"
      "writer_inv cap (data s') (w\<lparr>w_closed := True\<rparr>)" "ring_closed (data s')"
      "contents cap (data s') = contents cap (data s)"
    using ring_storage.run_CloseWriter [OF assms] by blast
  moreover have "run (CloseWriter (w\<lparr>w_closed := True\<rparr>)) s' = (Done (None, w\<lparr>w_closed := True\<rparr>), s')"
    by (simp add: CloseWriter_def)
  ultimately show ?thesis
    by (intro exI [of _ "w\<lparr>w_closed := True\<rparr>"] exI [of _ s']) (simp add: fifo_of_def fifo_close_def)
qed

theorem CloseWriter_refines_witness:
  "\<exists>w s. run (CloseWriter (fresh_writer mem_storage 4)) mem4 = (Done (None, w), s) \<and>
     ring_closed (buf s)"
  using CloseWriter_refines [OF mem_ring_storage mem4_live mem4_writer mem4_writer_inv]
  by (auto simp: fifo_of_def fifo_close_def)

end
