(* ===== verification/ReaderSpec.thy ===== *)
theory ReaderSpec
  imports Reader WriterSpec
begin

text \<open>
  The Reader run alone over a lawful storage: every operation keeps \<open>reader_inv\<close> and does
  to the queue in the region what the specification of \<^verbatim>\<open>Fifo\<close> says; and the two handles
  together, over any sequence of their operations.
\<close>

text \<open>The other side's progress keeps a Reader's invariant.\<close>

lemma reader_inv_mono:
  assumes "reader_inv cap d r" "ring_ok cap d'" "ring_head d' = ring_head d" "used d \<le> used d'"
  shows "reader_inv cap d' r"
  using assms by (auto simp: reader_inv_def)

lemma reader_inv_refresh:
  "reader_inv cap d r \<Longrightarrow> reader_inv cap d (r\<lparr>r_cachedTail := ring_tail d\<rparr>)"
  by (auto simp: reader_inv_def used_def ring_ok_def)

text \<open>After the head has been advanced by \<open>n\<close>.\<close>

lemma reader_inv_advance:
  assumes "reader_inv cap d r" "n \<le> unat (r_cachedTail r - r_head r)"
  defines "d' \<equiv> patch d offHead (le32 (r_head r + of_nat n))"
  shows "reader_inv cap d' (r\<lparr>r_head := r_head r + of_nat n\<rparr>)"
    and "contents cap d' = drop n (contents cap d)"
    and "ring_tail d' = ring_tail d" "ring_closed d' = ring_closed d"
proof -
  have ok: "ring_ok cap d" and h: "r_head r = ring_head d" and u: "unat (r_cachedTail r - r_head r) \<le> used d"
    and n: "n \<le> used d"
    using assms(1,2) by (auto simp: reader_inv_def)
  note adv = advance_head [OF ok n, folded h, folded d'_def]
  show "contents cap d' = drop n (contents cap d)" by (rule adv(1))
  show "ring_tail d' = ring_tail d" "ring_closed d' = ring_closed d" by (rule adv)+
  have len: "used d' = used d - n" using arg_cong [OF adv(1), of length] by simp
  have "r_cachedTail r - (r_head r + of_nat n) = of_nat (unat (r_cachedTail r - r_head r) - n)"
    using assms(2) by (simp add: of_nat_diff)
  moreover have "unat (of_nat (unat (r_cachedTail r - r_head r) - n) :: u32) = unat (r_cachedTail r - r_head r) - n"
    by (metis diff_le_self le_unat_uoi)
  ultimately show "reader_inv cap d' (r\<lparr>r_head := r_head r + of_nat n\<rparr>)"
    using assms(1) adv(2,5) len u by (simp add: reader_inv_def)
qed

lemma readerAvail_less: "readerAvail r < int k \<longleftrightarrow> unat (r_cachedTail r - r_head r) < k"
  unfolding readerAvail_eq by (rule of_nat_less_iff)

lemma readAvailable_eq:
  fixes r :: "'w reader"
  assumes "p \<noteq> []"
  defines "n \<equiv> min (length p) (unat (r_cachedTail r - r_head r))"
  shows "readAvailable r p =
     (if n = 0 then
        pbind (readUint32At (r_st r) offClosed) (\<lambda>c. case c of
            Inl e \<Rightarrow> Return ((0, Some e), p, r)
          | Inr closed \<Rightarrow> if closed \<noteq> 0 then Return ((0, Some EOF), p, r) else Return ((0, None), p, r))
      else pbind (readRing r p (int n)) (\<lambda>(p, err). case err of
            Some e \<Rightarrow> Return ((0, Some e), p, r)
          | None \<Rightarrow> advanceHead r p (int n)))"
proof -
  obtain k where k: "readerAvail r = int k" "n = min (length p) k"
    using readerAvail_eq [of r] n_def by blast
  moreover have "0 < length p" using assms(1) by simp
  ultimately show ?thesis by (auto simp: readAvailable_def Let_def min_def)
qed

lemma Uint32_drop: "i + 4 \<le> length b \<Longrightarrow> Uint32 (drop i b) = u32_at b i"
  and Uint64_drop: "i + 8 \<le> length b \<Longrightarrow> Uint64 (drop i b) = u64_at b i"
  by (simp_all add: u32_at_def u64_at_def Uint32_def Uint64_def slice_def)

lemma u32_at_take: "i + 4 \<le> n \<Longrightarrow> u32_at (take n d) i = u32_at d i"
  and u64_at_take: "i + 8 \<le> n \<Longrightarrow> u64_at (take n d) i = u64_at d i"
  by (simp_all add: u32_at_def u64_at_def slice_def drop_take min_def)

context ring_storage
begin

text \<open>What \<^verbatim>\<open>verifyHeader\<close> reads: the whole header in one call.\<close>

lemma read_header:
  assumes "live s" "headerSize \<le> length (data s)"
  shows "ReadAt S (replicate headerSize 0) 0 s = Ok (take headerSize (data s), int headerSize, None)"
    and "Uint32 (drop offMagic (take headerSize (data s))) = u32_at (data s) offMagic"
    and "Uint32 (drop offVersion (take headerSize (data s))) = u32_at (data s) offVersion"
    and "Uint64 (drop offCapacity (take headerSize (data s))) = u64_at (data s) offCapacity"
proof -
  have ne: "replicate headerSize 0 \<noteq> []" by (simp add: headerSize_def)
  show "ReadAt S (replicate headerSize 0) 0 s = Ok (take headerSize (data s), int headerSize, None)"
    using read_ok [OF assms(1) ne, of 0] assms(2) by (simp add: slice_def)
  show "Uint32 (drop offMagic (take headerSize (data s))) = u32_at (data s) offMagic"
      "Uint32 (drop offVersion (take headerSize (data s))) = u32_at (data s) offVersion"
      "Uint64 (drop offCapacity (take headerSize (data s))) = u64_at (data s) offCapacity"
    using assms(2) Uint32_drop [of 0 "take headerSize (data s)"]
    by (simp_all add: layout_defs Uint32_drop Uint64_drop u32_at_take u64_at_take)
qed

lemma run_verifyHeader:
  assumes "live s" "headerSize \<le> length (data s)"
  shows "run (verifyHeader S c) s =
    (Done (if header_ok c (data s) then None else Some ErrHeaderMismatch), s)"
  by (simp add: verifyHeader_def run_basic header_ok_def read_header [OF assms])

lemma read_cells:
  assumes "live s" "ring_ok cap (data s)" "i mod cap + n \<le> cap" "length p = n" "0 < n"
  shows "ReadAt S p (int (headerSize + i mod cap)) s = Ok (cells cap (data s) i n, int n, None)"
proof -
  have "headerSize + cap \<le> length (data s)" using assms(2) by (simp add: ring_ok_def)
  moreover have "p \<noteq> []" using assms(4,5) by auto
  ultimately show ?thesis
    using read_ok [OF assms(1), of p "headerSize + i mod cap"] cells_slice [OF assms(3)] assms(3,4)
    by simp
qed

text \<open>\<open>readRing\<close> takes the cells from the head on, whether or not anything has been written there.\<close>

lemma run_readRing_cells:
  assumes "live s" "r_st r = S" "ring_ok cap (data s)" "r_capacity r = int cap" "r_mask r = int cap - 1"
    and n: "0 < n" "n \<le> length p" "n \<le> cap"
  shows "run (readRing r p (int n)) s = (Done (cells cap (data s) (unat (r_head r)) n @ drop n p, None), s)"
proof -
  have cap: "cap_ok cap" "0 < cap" using assms(3) cap_ok_bounds by (auto simp: ring_ok_def)
  define s0 where "s0 = unat (r_head r) mod cap"
  have s0: "s0 < cap" "s0 mod cap = s0" using cap(2) by (simp_all add: s0_def)
  have con: "cells cap (data s) (unat (r_head r)) n = cells cap (data s) s0 n"
    unfolding s0_def by (rule cells_mod) simp
  note eq = readRing_eq [OF cap(1) assms(4,5) n(3,2), unfolded assms(2), folded s0_def]
  show ?thesis
  proof (cases "s0 + n \<le> cap")
    case True
    then have "ReadAt S (take n p) (int (headerSize + s0)) s = Ok (cells cap (data s) s0 n, int n, None)"
      using read_cells [OF assms(1,3), of s0 n "take n p"] n s0 by simp
    with True show ?thesis by (simp add: eq con run_basic Let_def)
  next
    case False
    define f where "f = cap - s0"
    have f: "0 < f" "f < n" "s0 + f = cap" using False s0 by (auto simp: f_def)
    have r1: "ReadAt S (take f p) (int (headerSize + s0)) s = Ok (cells cap (data s) s0 f, int f, None)"
      using read_cells [OF assms(1,3), of s0 f "take f p"] n f s0 by simp
    have "length (drop f (take n p)) = n - f" using n f by simp
    then have r2: "ReadAt S (drop f (take n p)) (int headerSize) s =
        Ok (cells cap (data s) 0 (n - f), int (n - f), None)"
      using read_cells [OF assms(1,3), of 0 "n - f" "drop f (take n p)"] n(3) f by simp
    have "cells cap (data s) (s0 + f) (n - f) = cells cap (data s) 0 (n - f)"
      by (rule cells_mod) (simp add: f(3))
    then have "cells cap (data s) s0 f @ cells cap (data s) 0 (n - f) = cells cap (data s) s0 n"
      using cells_append [of cap "data s" s0 f "n - f"] f(2) by simp
    with False f(2) r1 r2 show ?thesis
      by (simp add: eq con run_basic Let_def drop_take flip: f_def)
  qed
qed

lemma run_readRing:
  assumes "live s" "r_st r = S" "reader_inv cap (data s) r"
    and n: "0 < n" "n \<le> length p" "n \<le> used (data s)"
  shows "run (readRing r p (int n)) s = (Done (take n (contents cap (data s)) @ drop n p, None), s)"
proof -
  have "ring_ok cap (data s)" "r_capacity r = int cap" "r_mask r = int cap - 1" "n \<le> cap"
    using assms(3) n(3) by (auto simp: reader_inv_def ring_ok_def)
  moreover have "take n (contents cap (data s)) = cells cap (data s) (unat (r_head r)) n"
    using assms(3) n(3) by (simp add: contents_def take_cells reader_inv_def)
  ultimately show ?thesis using run_readRing_cells [OF assms(1,2) _ _ _ n(1,2)] by simp
qed

lemma run_advanceHead:
  assumes "live s" "r_st r = S" "reader_inv cap (data s) r"
    and n: "n \<le> unat (r_cachedTail r - r_head r)"
  shows "\<exists>s'. run (advanceHead r p (int n)) s =
      (Done ((int n, None), p, r\<lparr>r_head := r_head r + of_nat n\<rparr>), s') \<and> live s' \<and>
    reader_inv cap (data s') (r\<lparr>r_head := r_head r + of_nat n\<rparr>) \<and>
    contents cap (data s') = drop n (contents cap (data s)) \<and>
    ring_tail (data s') = ring_tail (data s) \<and> ring_closed (data s') = ring_closed (data s)"
proof -
  have "offHead + 4 \<le> length (data s)" "4 dvd offHead"
    using assms(3) by (auto simp: reader_inv_def ring_ok_def layout_defs)
  from run_write32 [OF assms(1) this, of "r_head r + of_nat n"]
  obtain s' where "run (writeUint32At S offHead (r_head r + of_nat n)) s = (Done None, s')" "live s'"
      "data s' = patch (data s) offHead (le32 (r_head r + of_nat n))" by blast
  with reader_inv_advance [OF assms(3) n] assms(2) show ?thesis
    by (intro exI [of _ s']) (simp add: advanceHead_def run_basic Let_def)
qed

lemma run_readAvailable:
  assumes "live s" "r_st r = S" "reader_inv cap (data s) r" "p \<noteq> []"
  defines "n \<equiv> min (length p) (unat (r_cachedTail r - r_head r))"
  shows "\<exists>r' s'. run (readAvailable r p) s =
      (Done ((int n, if n = 0 \<and> ring_closed (data s) then Some EOF else None),
             take n (contents cap (data s)) @ drop n p, r'), s') \<and>
    live s' \<and> r_st r' = S \<and> r_opt r' = r_opt r \<and> r_cachedTail r' = r_cachedTail r \<and>
    reader_inv cap (data s') r' \<and>
    contents cap (data s') = drop n (contents cap (data s)) \<and>
    ring_tail (data s') = ring_tail (data s) \<and> ring_closed (data s') = ring_closed (data s)"
proof (cases "n = 0")
  case True
  have "offClosed + 4 \<le> length (data s)" "4 dvd offClosed"
    using assms(3) by (auto simp: reader_inv_def ring_ok_def layout_defs)
  with True show ?thesis using assms(1-3)
    by (simp add: readAvailable_eq [OF assms(4), of r, folded n_def] run_basic run_read32 ring_closed_def)
next
  case False
  then have n: "0 < n" "n \<le> length p" "n \<le> used (data s)" "n \<le> unat (r_cachedTail r - r_head r)"
    using assms(3) by (auto simp: n_def reader_inv_def)
  have "run (readAvailable r p) s =
      run (advanceHead r (take n (contents cap (data s)) @ drop n p) (int n)) s"
    using False run_readRing [OF assms(1-3) n(1-3)]
    by (simp add: readAvailable_eq [OF assms(4), of r, folded n_def] run_basic)
  with False run_advanceHead [OF assms(1-3) n(4), of "take n (contents cap (data s)) @ drop n p"] assms(2)
  show ?thesis by auto
qed

lemma run_TryRead:
  assumes "live s" "r_st r = S" "reader_inv cap (data s) r" "p \<noteq> []"
  defines "n \<equiv> min (length p) (used (data s))"
  shows "\<exists>r' s'. run (TryRead r p) s =
      (Done ((int n, if n = 0 \<and> ring_closed (data s) then Some EOF else None),
             take n (contents cap (data s)) @ drop n p, r'), s') \<and>
    live s' \<and> r_st r' = S \<and> r_opt r' = r_opt r \<and> reader_inv cap (data s') r' \<and>
    contents cap (data s') = drop n (contents cap (data s)) \<and>
    ring_tail (data s') = ring_tail (data s) \<and> ring_closed (data s') = ring_closed (data s)"
proof (cases "unat (r_cachedTail r - r_head r) < length p")
  case False
  moreover have "unat (r_cachedTail r - r_head r) \<le> used (data s)"
    using assms(3) unfolding reader_inv_def by blast
  ultimately have "n = min (length p) (unat (r_cachedTail r - r_head r))" by (simp add: n_def)
  moreover have "run (TryRead r p) s = run (readAvailable r p) s"
    using False assms(4) by (simp add: TryRead_def readerAvail_less)
  ultimately show ?thesis using run_readAvailable [OF assms(1-4)] by auto
next
  case True
  let ?r = "r\<lparr>r_cachedTail := ring_tail (data s)\<rparr>"
  have len: "offTail + 4 \<le> length (data s)" "4 dvd offTail"
    using assms(3) by (auto simp: reader_inv_def ring_ok_def layout_defs)
  have "unat (r_cachedTail ?r - r_head ?r) = used (data s)"
    using assms(3) by (simp add: reader_inv_def used_def)
  moreover have "run (TryRead r p) s = run (readAvailable ?r p) s"
    using True assms(2,4) run_read32 [OF assms(1) len]
    by (simp add: TryRead_def readerAvail_less run_basic ring_tail_def)
  ultimately show ?thesis
    using run_readAvailable [OF assms(1) _ reader_inv_refresh [OF assms(3)] assms(4)] assms(2)
    by (auto simp: n_def)
qed

end


section \<open>Properties\<close>

definition fresh_reader :: "'w storage \<Rightarrow> nat \<Rightarrow> 'w reader" where
  "fresh_reader st cap =
     \<lparr>r_st = st, r_capacity = int cap, r_mask = int cap - 1, r_opt = defaultOptions,
      r_head = 0, r_cachedTail = 0\<rparr>"

lemma fresh_reader_inv: "cap_ok cap \<Longrightarrow> reader_inv cap (fresh_region cap) (fresh_reader st cap)"
  by (simp add: reader_inv_def fresh_reader_def fresh_region)

lemma fresh_reader_st [simp]: "r_st (fresh_reader st cap) = st"
  by (simp add: fresh_reader_def)

lemma mem4_reader: "r_st (fresh_reader mem_storage 4) = mem_storage"
  and mem4_reader_inv: "reader_inv 4 (buf mem4) (fresh_reader mem_storage 4)"
  by (simp_all add: fresh_reader_inv)

text \<open>
  C6: \<^verbatim>\<open>TryRead\<close> refines the bounded queue: it delivers the oldest bytes of the queue, as
  many as are there and fit, in order, into the front of the caller's buffer and leaves
  the rest of the buffer alone; on an empty queue it returns \<^verbatim>\<open>(0, nil)\<close>, or \<^verbatim>\<open>io.EOF\<close> once
  the ring is closed. Nothing panics, and the Reader's invariant holds again.
\<close>

theorem TryRead_refines:
  assumes "ring_storage S data live" "live s" "r_st r = S" "reader_inv cap (data s) r"
  shows "\<exists>res q r' s'. run (TryRead r p) s = (Done (res, q, r'), s') \<and>
    ((res, q), fifo_of cap (data s')) = fifo_read p (fifo_of cap (data s)) \<and>
    live s' \<and> r_st r' = S \<and> reader_inv cap (data s') r' \<and> ring_tail (data s') = ring_tail (data s)"
proof (cases "p = []")
  case True
  with assms(2-4) show ?thesis by (simp add: TryRead_def fifo_read_def)
next
  case False
  from ring_storage.run_TryRead [OF assms False] False contents_empty_iff [of cap "data s"]
  show ?thesis by (cases "used (data s) = 0") (fastforce simp: fifo_read_def fifo_of_def Let_def)+
qed

theorem TryRead_refines_witness:
  "\<exists>q r s. run (TryRead (fresh_reader mem_storage 4) [9, 9]) mem4 = (Done ((0, None), q, r), s) \<and> q = [9, 9]"
  using TryRead_refines [OF mem_ring_storage mem4_live mem4_reader mem4_reader_inv, of "[9, 9]"]
  by (auto simp: fresh_region fifo_read_def fifo_of_def)

lemma run_NewReader:
  assumes "ring_storage S data live" "live s"
  shows "run (NewReader S c opts) s =
    (Done (if validateCapacity c \<noteq> None then Inl ErrInvalidCapacity
      else if int (length (data s)) < int headerSize + c then Inl ErrStorageTooSmall
      else if \<not> header_ok c (data s) then Inl ErrHeaderMismatch
      else Inr \<lparr>r_st = S, r_capacity = c, r_mask = c - 1, r_opt = applyOptions opts,
                 r_head = 0, r_cachedTail = 0\<rparr>), s)"
proof (cases "validateCapacity c = None")
  case False
  then show ?thesis by (auto simp: NewReader_def validateCapacity_def split: if_splits)
next
  case True
  then obtain cap where c: "c = int cap" "cap_ok cap"
    by (metis cap_ok_validate validateCapacity_iff of_nat_numeral of_nat_power)
  then have cap: "0 < cap" "cap \<le> 2 ^ 31" using cap_ok_bounds by auto
  have add: "add64 (int headerSize) c = int headerSize + c"
    using add64_nat [of headerSize cap] cap by (simp add: c(1) headerSize_def)
  have sub: "sub64 c 1 = c - 1"
    using cap sub64_nat [of 1 cap] by (simp add: c(1) of_nat_diff)
  have size: "Size S s = int (length (data s))"
    using ring_storage.size_data [OF assms] .
  have "headerSize \<le> length (data s)" if "\<not> int (length (data s)) < int headerSize + c"
    using that c(1) by simp
  with True ring_storage.run_verifyHeader [OF assms, of c] show ?thesis
    by (simp add: NewReader_def run_basic add sub size)
qed

text \<open>
  C15: \<^verbatim>\<open>NewReader\<close> never touches the storage; it rejects a capacity that is not a power of
  two, a storage that is too small and a header whose magic, version or capacity differs,
  in this order, and otherwise returns a Reader at position 0. On a ring that nothing has
  been read from, that Reader's invariant holds.
\<close>

theorem NewReader_correct:
  assumes "ring_storage S data live" "live s"
  shows "\<exists>r. run (NewReader S c opts) s = (Done r, s) \<and>
    (case r of
       Inl e \<Rightarrow> e = ErrInvalidCapacity \<and> \<not> (\<exists>k \<le> 31. c = 2 ^ k) \<or>
         e = ErrStorageTooSmall \<and> (\<exists>k \<le> 31. c = 2 ^ k) \<and> int (length (data s)) < int headerSize + c \<or>
         e = ErrHeaderMismatch \<and> (\<exists>k \<le> 31. c = 2 ^ k) \<and> \<not> header_ok c (data s)
     | Inr r \<Rightarrow> header_ok c (data s) \<and> int headerSize + c \<le> int (length (data s)) \<and> r_st r = S \<and>
         r_opt r = applyOptions opts \<and>
         (ring_head (data s) = 0 \<and> used (data s) \<le> nat c \<longrightarrow> reader_inv (nat c) (data s) r))"
proof -
  have "reader_inv (nat c) (data s) \<lparr>r_st = S, r_capacity = c, r_mask = c - 1,
      r_opt = applyOptions opts, r_head = 0, r_cachedTail = 0\<rparr>"
    if "validateCapacity c = None" "ring_head (data s) = 0" "used (data s) \<le> nat c"
      "int headerSize + c \<le> int (length (data s))"
  proof -
    have "cap_ok (nat c)" "0 \<le> c" using that(1) by (auto simp: validateCapacity_iff cap_ok_def nat_power_eq)
    with that(2-4) show ?thesis by (simp add: reader_inv_def ring_ok_def)
  qed
  then show ?thesis
    by (auto simp: run_NewReader [OF assms] validateCapacity_iff)
qed

theorem NewReader_correct_witness:
  "\<exists>r. run (NewReader mem_storage 4 []) mem4 = (Done (Inr r), mem4)"
proof -
  have "(\<forall>k \<le> 31. (4::int) \<noteq> 2 ^ k) = False"
    using spec [of "\<lambda>k. k \<le> 31 \<longrightarrow> 2 ^ k \<noteq> (4::int)" 2] by auto
  then show ?thesis
    using NewReader_correct [OF mem_ring_storage mem4_live, of 4 "[]"] fresh_region(4,5) [of 4]
    apply (elim exE)
    subgoal for r by (cases r) auto
    done
qed

text \<open>
  Attaching. After \<^verbatim>\<open>NewWriter\<close> has set up a ring, \<^verbatim>\<open>NewReader\<close> with the same capacity
  succeeds and both handles' invariants hold; with any other valid capacity that the
  storage could hold it reports \<^verbatim>\<open>ErrHeaderMismatch\<close>.
\<close>

theorem attach_roundtrip:
  assumes "ring_storage S data live" "live s"
    and "validateCapacity c = None" "int headerSize + c \<le> int (length (data s))"
    and "validateCapacity c' = None" "int headerSize + c' \<le> int (length (data s))"
  shows "\<exists>w s'. run (NewWriter S c opts) s = (Done (Inr w), s') \<and> writer_inv (nat c) (data s') w \<and>
    (\<exists>r. run (NewReader S c' opts') s' = (Done r, s') \<and>
      (case r of Inl e \<Rightarrow> e = ErrHeaderMismatch \<and> c' \<noteq> c
               | Inr r \<Rightarrow> c' = c \<and> reader_inv (nat c) (data s') r))"
proof -
  have cap: "cap_ok (nat c)" "int (nat c) = c" "0 \<le> c" "0 \<le> c'" "c \<le> 2 ^ 31" "c' \<le> 2 ^ 31"
    using assms(3,5) cap_ok_bounds by (auto simp: validateCapacity_iff cap_ok_def nat_power_eq
        intro: order_trans [OF power_increasing [of _ 31]])
  have len: "headerSize + nat c \<le> length (data s)" using assms(4) cap(2) by linarith
  obtain w s' where w: "run (NewWriter S c opts) s = (Done (Inr w), s')" "live s'"
      "data s' = patch (data s) 0 (header_bytes c)" "writer_inv (nat c) (data s') w"
    using ring_storage.run_NewWriter(3) [OF assms(1-4), of opts] by blast
  note fresh = fresh_ring [OF cap(1) len, unfolded cap(2), folded w(3)]
  have "(word_of_int c' :: u64) = word_of_int c \<longleftrightarrow> c' = c"
    using cap by (simp add: word_of_int_eq_iff take_bit_int_eq_self)
  then have "header_ok c' (data s') \<longleftrightarrow> c' = c"
    using fresh(7) by (auto simp: header_ok_def)
  moreover have "reader_inv (nat c) (data s') \<lparr>r_st = S, r_capacity = c, r_mask = c - 1,
      r_opt = applyOptions opts', r_head = 0, r_cachedTail = 0\<rparr>"
    using fresh cap by (simp add: reader_inv_def)
  ultimately show ?thesis
    using w(1,4) assms(5,6) fresh(8) by (simp add: run_NewReader [OF assms(1) w(2)])
qed

theorem attach_roundtrip_witness:
  "\<exists>w s. run (NewWriter mem_storage 4 []) \<lparr>buf = replicate 72 0\<rparr> = (Done (Inr w), s) \<and>
    run (NewReader mem_storage 8 []) s = (Done (Inl ErrHeaderMismatch), s)"
proof -
  have "validateCapacity 4 = None" "validateCapacity 8 = None"
    using cap_ok_validate [of 4] cap_ok_validate [of 8] by simp_all
  then show ?thesis
    using attach_roundtrip [OF mem_ring_storage, of "\<lparr>buf = replicate 72 0\<rparr>" 4 8 "[]" "[]"]
    apply (simp add: headerSize_def, elim exE conjE)
    subgoal for w s r by (cases r) auto
    done
qed

end
