(* ===== verification/Session.thy ===== *)
theory Session
  imports ReaderSpec
begin

text \<open>
  A Writer and a Reader on one region that take turns, call by call: any sequence
  of \<^verbatim>\<open>TryWrite\<close>, \<^verbatim>\<open>TryRead\<close> and \<^verbatim>\<open>Close\<close> behaves like the specification of \<^verbatim>\<open>Fifo\<close>, and
  neither loses, duplicates nor reorders a byte. (The interleaving of the calls' single
  storage accesses is in \<^verbatim>\<open>Spsc\<close>.)
\<close>

datatype ring_op = OpWrite "byte list" | OpRead "byte list" | OpClose

datatype ring_res =
    Wrote "int64 \<times> gerror option"
  | Got "int64 \<times> gerror option" "byte list"
  | Closed

fun session :: "ring_op list \<Rightarrow> 'w writer \<Rightarrow> 'w reader \<Rightarrow> ('w, ring_res list \<times> 'w writer \<times> 'w reader) prog" where
  "session [] w r = Return ([], w, r)"
| "session (OpWrite p # ops) w r =
     pbind (TryWrite w p) (\<lambda>(res, w). pbind (session ops w r) (\<lambda>(rs, z). Return (Wrote res # rs, z)))"
| "session (OpRead p # ops) w r =
     pbind (TryRead r p) (\<lambda>(res, q, r). pbind (session ops w r) (\<lambda>(rs, z). Return (Got res q # rs, z)))"
| "session (OpClose # ops) w r =
     pbind (CloseWriter w) (\<lambda>(_, w). pbind (session ops w r) (\<lambda>(rs, z). Return (Closed # rs, z)))"

fun fifo_session :: "nat \<Rightarrow> ring_op list \<Rightarrow> fifo \<Rightarrow> ring_res list \<times> fifo" where
  "fifo_session cap [] f = ([], f)"
| "fifo_session cap (OpWrite p # ops) f =
     (let (res, f) = fifo_write cap p f; (rs, f) = fifo_session cap ops f in (Wrote res # rs, f))"
| "fifo_session cap (OpRead p # ops) f =
     (let ((res, q), f) = fifo_read p f; (rs, f) = fifo_session cap ops f in (Got res q # rs, f))"
| "fifo_session cap (OpClose # ops) f =
     (let (rs, f) = fifo_session cap ops (fifo_close f) in (Closed # rs, f))"

text \<open>The bytes the results say were accepted, and those they say were delivered.\<close>

fun accepted :: "ring_op list \<Rightarrow> ring_res list \<Rightarrow> byte list" where
  "accepted (OpWrite p # ops) (Wrote res # rs) = take (nat (fst res)) p @ accepted ops rs"
| "accepted (_ # ops) (_ # rs) = accepted ops rs"
| "accepted _ _ = []"

fun delivered :: "ring_res list \<Rightarrow> byte list" where
  "delivered (Got res q # rs) = take (nat (fst res)) q @ delivered rs"
| "delivered (_ # rs) = delivered rs"
| "delivered [] = []"

text \<open>The two handles of one ring: what one side does keeps the other's invariant.\<close>

definition pair_inv :: "nat \<Rightarrow> byte list \<Rightarrow> 'w writer \<Rightarrow> 'w reader \<Rightarrow> bool" where
  "pair_inv cap d w r \<longleftrightarrow> writer_inv cap d w \<and> reader_inv cap d r"

lemma used_le_append: "contents cap d' = contents cap d @ xs \<Longrightarrow> used d \<le> used d'"
  by (metis le_add1 length_append length_contents)

lemma used_le_drop: "contents cap d' = drop n (contents cap d) \<Longrightarrow> used d' \<le> used d"
  by (metis diff_le_self length_contents length_drop)

lemma pair_inv_write:
  assumes "pair_inv cap d w r" "writer_inv cap d' w'" "ring_head d' = ring_head d"
    and "used d \<le> used d'"
  shows "pair_inv cap d' w' r"
  using assms by (auto simp: pair_inv_def writer_inv_def intro: reader_inv_mono)

lemma pair_inv_read:
  assumes "pair_inv cap d w r" "reader_inv cap d' r'" "ring_tail d' = ring_tail d"
    and "ring_closed d' = ring_closed d" "used d' \<le> used d"
  shows "pair_inv cap d' w r'"
  using assms by (auto simp: pair_inv_def reader_inv_def intro: writer_inv_mono)

context ring_storage
begin

lemma session_write:
  assumes "live s" "w_st w = S" "pair_inv cap (data s) w r"
  shows "\<exists>w' s'. run (TryWrite w p) s = (Done (fst (fifo_write cap p (fifo_of cap (data s))), w'), s') \<and>
    fifo_of cap (data s') = snd (fifo_write cap p (fifo_of cap (data s))) \<and>
    live s' \<and> w_st w' = S \<and> pair_inv cap (data s') w' r"
proof (cases "w_closed w")
  case True
  then have "ring_closed (data s)" using assms(3) by (simp add: pair_inv_def writer_inv_def)
  with True assms show ?thesis by (simp add: TryWrite_def fifo_write_def)
next
  case False
  have inv: "writer_inv cap (data s) w" using assms(3) by (simp add: pair_inv_def)
  let ?n = "min (length p) (cap - used (data s))"
  obtain w' s' where r: "run (TryWrite w p) s = (Done ((int ?n, None), w'), s')"
      and wr: "wrote S data live cap p ?n s w' s'"
    using run_TryWrite [OF assms(1,2) inv False, of p] by blast
  then have "used (data s) \<le> used (data s')"
    by (auto simp: wrote_def intro: used_le_append)
  with wr assms(3) have "pair_inv cap (data s') w' r"
    by (intro pair_inv_write [OF assms(3)]) (auto simp: wrote_def)
  with False inv r wr show ?thesis
    by (auto simp: fifo_write_def fifo_of_def Let_def wrote_def writer_inv_def)
qed

lemma session_read:
  assumes "live s" "r_st r = S" "pair_inv cap (data s) w r"
  shows "\<exists>r' s'. run (TryRead r p) s = (Done (fst (fst (fifo_read p (fifo_of cap (data s)))),
      snd (fst (fifo_read p (fifo_of cap (data s)))), r'), s') \<and>
    fifo_of cap (data s') = snd (fifo_read p (fifo_of cap (data s))) \<and>
    live s' \<and> r_st r' = S \<and> pair_inv cap (data s') w r'"
proof (cases "p = []")
  case True
  with assms show ?thesis by (simp add: TryRead_def fifo_read_def)
next
  case False
  have inv: "reader_inv cap (data s) r" using assms(3) by (simp add: pair_inv_def)
  let ?n = "min (length p) (used (data s))"
  obtain r' s' where r: "run (TryRead r p) s =
      (Done ((int ?n, if ?n = 0 \<and> ring_closed (data s) then Some EOF else None),
             take ?n (contents cap (data s)) @ drop ?n p, r'), s')"
    and s': "live s'" "r_st r' = S" "reader_inv cap (data s') r'"
      "contents cap (data s') = drop ?n (contents cap (data s))"
      "ring_tail (data s') = ring_tail (data s)" "ring_closed (data s') = ring_closed (data s)"
    using run_TryRead [OF assms(1,2) inv False] by blast
  have "used (data s') \<le> used (data s)" using s'(4) by (rule used_le_drop)
  then have "pair_inv cap (data s') w r'"
    by (intro pair_inv_read [OF assms(3) s'(3)]) (simp_all add: s')
  with r s' False contents_empty_iff [of cap "data s"] show ?thesis
    by (cases "used (data s) = 0") (auto simp: fifo_read_def fifo_of_def Let_def)
qed

lemma session_close:
  assumes "live s" "w_st w = S" "pair_inv cap (data s) w r"
  shows "\<exists>w' s'. run (CloseWriter w) s = (Done (None, w'), s') \<and>
    fifo_of cap (data s') = fifo_close (fifo_of cap (data s)) \<and>
    live s' \<and> w_st w' = S \<and> pair_inv cap (data s') w' r"
proof -
  have inv: "writer_inv cap (data s) w" using assms(3) by (simp add: pair_inv_def)
  obtain s' where r: "run (CloseWriter w) s = (Done (None, w\<lparr>w_closed := True\<rparr>), s')"
    and s': "live s'" "writer_inv cap (data s') (w\<lparr>w_closed := True\<rparr>)" "ring_closed (data s')"
      "contents cap (data s') = contents cap (data s)" "ring_head (data s') = ring_head (data s)"
    using run_CloseWriter [OF assms(1,2) inv] by blast
  have "pair_inv cap (data s') (w\<lparr>w_closed := True\<rparr>) r"
    using s' used_le_append [of cap "data s'" "data s" "[]"] by (intro pair_inv_write [OF assms(3)]) simp_all
  with r s' assms(2) show ?thesis
    by (intro exI [of _ "w\<lparr>w_closed := True\<rparr>"] exI [of _ s']) (simp add: fifo_of_def fifo_close_def)
qed

end

text \<open>
  The two handles may reach the region through different storages, as the two processes'
  mappings of one segment are.
\<close>

lemma run_session:
  assumes SW: "ring_storage SW data live" and SR: "ring_storage SR data live"
    and "live s" "w_st w = SW" "r_st r = SR" "pair_inv cap (data s) w r"
  shows "\<exists>w' r' s'. run (session ops w r) s =
      (Done (fst (fifo_session cap ops (fifo_of cap (data s))), w', r'), s') \<and>
    fifo_of cap (data s') = snd (fifo_session cap ops (fifo_of cap (data s))) \<and>
    live s' \<and> w_st w' = SW \<and> r_st r' = SR \<and> pair_inv cap (data s') w' r'"
  using assms(3-)
proof (induction ops arbitrary: w r s)
  case (Cons op ops)
  show ?case
  proof (cases op)
    case (OpWrite p)
    obtain w1 s1 where 1: "run (TryWrite w p) s = (Done (fst (fifo_write cap p (fifo_of cap (data s))), w1), s1)"
      "fifo_of cap (data s1) = snd (fifo_write cap p (fifo_of cap (data s)))"
      "live s1" "w_st w1 = SW" "pair_inv cap (data s1) w1 r"
      using ring_storage.session_write [OF SW Cons.prems(1,2,4)] by blast
    from Cons.IH [OF 1(3,4) Cons.prems(3) 1(5)] show ?thesis
      by (elim exE conjE) (simp add: OpWrite run_basic 1(1,2) split_beta Let_def)
  next
    case (OpRead p)
    obtain r1 s1 where 1: "run (TryRead r p) s = (Done (fst (fst (fifo_read p (fifo_of cap (data s)))),
        snd (fst (fifo_read p (fifo_of cap (data s)))), r1), s1)"
      "fifo_of cap (data s1) = snd (fifo_read p (fifo_of cap (data s)))"
      "live s1" "r_st r1 = SR" "pair_inv cap (data s1) w r1"
      using ring_storage.session_read [OF SR Cons.prems(1,3,4)] by blast
    from Cons.IH [OF 1(3) Cons.prems(2) 1(4,5)] show ?thesis
      by (elim exE conjE) (simp add: OpRead run_basic 1(1,2) split_beta Let_def)
  next
    case OpClose
    obtain w1 s1 where 1: "run (CloseWriter w) s = (Done (None, w1), s1)"
      "fifo_of cap (data s1) = fifo_close (fifo_of cap (data s))"
      "live s1" "w_st w1 = SW" "pair_inv cap (data s1) w1 r"
      using ring_storage.session_close [OF SW Cons.prems(1,2,4)] by blast
    from Cons.IH [OF 1(3,4) Cons.prems(3) 1(5)] show ?thesis
      by (elim exE conjE) (simp add: OpClose run_basic 1(1,2) split_beta Let_def)
  qed
qed auto

text \<open>The specification delivers what it accepts, in order, and keeps the rest in the queue.\<close>

lemma fifo_write_conserves:
  "queue (snd (fifo_write cap p f)) = queue f @ take (nat (fst (fst (fifo_write cap p f)))) p"
  by (auto simp: fifo_write_def Let_def)

lemma fifo_read_conserves:
  "take (nat (fst (fst (fst (fifo_read p f))))) (snd (fst (fifo_read p f))) @ queue (snd (fifo_read p f)) = queue f"
  by (auto simp: fifo_read_def Let_def)

lemma fifo_session_conserves:
  "delivered (fst (fifo_session cap ops f)) @ queue (snd (fifo_session cap ops f)) =
    queue f @ accepted ops (fst (fifo_session cap ops f))"
proof (induction ops arbitrary: f)
  case (Cons op ops)
  show ?case
  proof (cases op)
    case (OpWrite p)
    with Cons [of "snd (fifo_write cap p f)"] show ?thesis
      by (simp add: fifo_write_conserves split_beta Let_def)
  next
    case (OpRead p)
    with Cons [of "snd (fifo_read p f)"] fifo_read_conserves [of p f, symmetric] show ?thesis
      by (simp add: split_beta Let_def)
  next
    case OpClose
    with Cons [of "fifo_close f"] show ?thesis by (simp add: fifo_close_def split_beta)
  qed
qed simp

lemma pair_inv_mem4: "pair_inv 4 (buf mem4) (fresh_writer mem_storage 4) (fresh_reader mem_storage 4)"
  using mem4_writer_inv mem4_reader_inv by (simp add: pair_inv_def)


section \<open>Properties\<close>

text \<open>
  C4: every sequence of \<^verbatim>\<open>TryWrite\<close>, \<^verbatim>\<open>TryRead\<close> and \<^verbatim>\<open>Close\<close> calls on the two handles of
  a ring, of any length and with any buffers, so also across any number of wrap-arounds of
  the data region and of the 32-bit counters, returns call by call exactly what the bounded
  queue returns, and leaves the specified queue in the region.
\<close>

theorem session_refines:
  assumes "ring_storage SW data live" "ring_storage SR data live"
    and "live s" "w_st w = SW" "r_st r = SR" "pair_inv cap (data s) w r"
  shows "\<exists>rs w' r' s'. run (session ops w r) s = (Done (rs, w', r'), s') \<and>
    (rs, fifo_of cap (data s')) = fifo_session cap ops (fifo_of cap (data s)) \<and>
    live s' \<and> pair_inv cap (data s') w' r'"
  using run_session [OF assms, of ops] by (metis prod.collapse)

theorem session_refines_witness:
  "\<exists>w r s. run (session [OpWrite [1, 2, 3], OpRead [0, 0], OpWrite [4, 5, 6, 7], OpClose, OpRead [0, 0, 0, 0],
       OpRead [0]] (fresh_writer mem_storage 4) (fresh_reader mem_storage 4)) mem4 =
     (Done ([Wrote (3, None), Got (2, None) [1, 2], Wrote (3, None), Closed, Got (4, None) [3, 4, 5, 6],
       Got (0, Some EOF) [0]], w, r), s)"
  using session_refines [OF mem_ring_storage mem_ring_storage mem4_live mem4_writer mem4_reader pair_inv_mem4,
      of "[OpWrite [1, 2, 3], OpRead [0, 0], OpWrite [4, 5, 6, 7], OpClose, OpRead [0, 0, 0, 0], OpRead [0]]"]
  by (auto simp: fifo_of_def fresh_region fifo_write_def fifo_read_def fifo_close_def Let_def)

text \<open>
  C13: no byte is lost, duplicated, reordered or made up: after every such sequence the
  bytes delivered so far, followed by those still in the ring, are the bytes accepted so
  far, in order, after those that were in the ring before.
\<close>

theorem session_conserves_bytes:
  assumes "ring_storage SW data live" "ring_storage SR data live"
    and "live s" "w_st w = SW" "r_st r = SR" "pair_inv cap (data s) w r"
  shows "\<exists>rs w' r' s'. run (session ops w r) s = (Done (rs, w', r'), s') \<and>
    delivered rs @ contents cap (data s') = contents cap (data s) @ accepted ops rs \<and>
    length (contents cap (data s')) \<le> cap"
proof -
  obtain w' r' s' where s': "run (session ops w r) s =
      (Done (fst (fifo_session cap ops (fifo_of cap (data s))), w', r'), s')"
    "fifo_of cap (data s') = snd (fifo_session cap ops (fifo_of cap (data s)))"
    "pair_inv cap (data s') w' r'"
    using run_session [OF assms, of ops] by blast
  moreover have "contents cap (data s') = queue (snd (fifo_session cap ops (fifo_of cap (data s))))"
    by (simp flip: s'(2))
  moreover have "used (data s') \<le> cap" using s'(3) by (auto simp: pair_inv_def dest: writer_inv_used)
  ultimately show ?thesis
    using fifo_session_conserves [of cap ops "fifo_of cap (data s)"] by auto
qed

theorem session_conserves_bytes_witness:
  "\<exists>rs w r s. run (session [OpWrite [1, 2, 3], OpRead [0, 0]] (fresh_writer mem_storage 4)
      (fresh_reader mem_storage 4)) mem4 = (Done (rs, w, r), s) \<and>
    delivered rs @ contents 4 (buf s) = accepted [OpWrite [1, 2, 3], OpRead [0, 0]] rs"
  using session_conserves_bytes [OF mem_ring_storage mem_ring_storage mem4_live mem4_writer mem4_reader pair_inv_mem4,
      of "[OpWrite [1, 2, 3], OpRead [0, 0]]"]
  by (simp only: fresh_region mem.simps cap_ok_4 append_Nil) blast

end
