(* ===== verification/Blocking.thy ===== *)
theory Blocking
  imports Session
begin

text \<open>
  The blocking calls run alone: when \<^verbatim>\<open>WriteContext\<close> and \<^verbatim>\<open>ReadContext\<close> return, with what,
  and how many rounds of their loops that takes. (Under interference they are in
  \<^verbatim>\<open>Threads\<close>.)
\<close>

lemma writeLoop_Suc:
  "m < int (length p) \<Longrightarrow> writeLoop (Suc fuel) ctx w p m wait =
    pbind (TryWrite w (drop (nat m) p)) (\<lambda>((n, err), w).
      let written = m + n in
      case err of
        Some e \<Rightarrow> Return (Some (written, Some e), w)
      | None \<Rightarrow>
          if n > 0 then writeLoop fuel ctx w p written (minPoll (w_opt w))
          else pbind (blockRound (w_st w) offHead (w_cachedHead w) (w_opt w) ctx wait) (\<lambda>r. case r of
              Inl e \<Rightarrow> Return (Some (written, Some e), w)
            | Inr wait \<Rightarrow> writeLoop fuel ctx w p written wait))"
  by simp

lemma writeLoop_done:
  "\<not> m < int (length p) \<Longrightarrow> writeLoop (Suc fuel) ctx w p m wait = Return (Some (m, None), w)"
  by simp

lemma run_blockRound_cancelled:
  "ctx_Err ctx s = Some e \<Longrightarrow> run (blockRound st off v opts ctx wait) s = (Done (Inl e), s)"
  by (simp add: blockRound_def run_basic)

lemma run_blockRound_Background:
  "WaiterStorage st = None \<Longrightarrow> run (blockRound st off v opts Background wait) s = (Done (Inr (nextWait opts wait)), s)"
  by (simp add: blockRound_def run_basic)

context ring_storage
begin

text \<open>A full ring: nothing is written, and the Writer knows the true head.\<close>

lemma run_TryWrite_full:
  assumes "live s" "w_st w = S" "writer_inv cap (data s) w" "\<not> w_closed w" "used (data s) = cap" "p \<noteq> []"
  shows "\<exists>w'. run (TryWrite w p) s = (Done ((0, None), w'), s) \<and> w_st w' = S \<and> w_opt w' = w_opt w \<and>
    writer_inv cap (data s) w' \<and> \<not> w_closed w'"
proof -
  let ?w = "w\<lparr>w_cachedHead := ring_head (data s)\<rparr>"
  have u: "unat (w_tail w - w_cachedHead w) = cap"
    using assms(3,5) unfolding writer_inv_def by linarith
  have len: "offHead + 4 \<le> length (data s)" "4 dvd offHead"
    using assms(3) by (auto simp: writer_inv_def ring_ok_def layout_defs)
  have inv: "writer_inv cap (data s) ?w" by (rule writer_inv_refresh [OF assms(3)])
  then have "unat (w_tail ?w - w_cachedHead ?w) = cap"
    using assms(5) unfolding writer_inv_def by linarith
  then have "writeFreeSpace ?w p = Return ((0, None), ?w)"
    by (simp add: writeFreeSpace_eq [OF inv assms(6)])
  moreover have "writerFree w < int (length p)"
    using assms(6) by (simp add: writerFree_inv [OF assms(3)] u)
  ultimately have "run (TryWrite w p) s = (Done ((0, None), ?w), s)"
    using assms(2,4,6) run_read32 [OF assms(1) len] by (simp add: TryWrite_def run_basic ring_head_def)
  with inv assms(2,4) show ?thesis by (intro exI [of _ ?w]) simp
qed

text \<open>With room for everything, \<^verbatim>\<open>WriteContext\<close> needs two rounds; with data or a closed ring, \<^verbatim>\<open>ReadContext\<close> one.\<close>

lemma run_WriteContext_fits:
  assumes "live s" "w_st w = S" "writer_inv cap (data s) w" "\<not> w_closed w"
    and "length p \<le> cap - used (data s)" "2 \<le> fuel"
  shows "\<exists>w' s'. run (WriteContext fuel ctx w p) s = (Done (Some (int (length p), None), w'), s') \<and>
    wrote S data live cap p (length p) s w' s'"
proof -
  obtain f where f: "fuel = Suc (Suc f)" using le_Suc_ex [OF assms(6)] by auto
  show ?thesis
  proof (cases "p = []")
    case True
    then have "run (WriteContext fuel ctx w p) s = (Done (Some (int (length p), None), w), s)"
      by (simp add: f WriteContext_def writeLoop_done del: writeLoop.simps)
    with True assms(1-3) show ?thesis by (auto simp: wrote_def)
  next
    case False
    have n: "min (length p) (cap - used (data s)) = length p" using assms(5) by simp
    obtain w' s' where r: "run (TryWrite w p) s = (Done ((int (length p), None), w'), s')"
        "wrote S data live cap p (length p) s w' s'"
      using run_TryWrite [OF assms(1-4), of p] unfolding n by blast
    have "run (WriteContext fuel ctx w p) s = (Done (Some (int (length p), None), w'), s')"
      using False r(1)
      by (simp add: f WriteContext_def writeLoop_Suc writeLoop_done run_basic Let_def del: writeLoop.simps)
    with r(2) show ?thesis by blast
  qed
qed

lemma run_ReadContext_ready:
  assumes "p \<noteq> []" "run (TryRead r p) s = (Done ((n, err), q, r'), s')" "0 < n \<or> err \<noteq> None" "1 \<le> fuel"
  shows "run (ReadContext fuel ctx r p) s = (Done (Some (n, err), q, r'), s')"
  using assms by (cases fuel) (auto simp: ReadContext_def run_basic)

lemma session_write_all:
  assumes "live s" "w_st w = S" "pair_inv cap (data s) w r" "\<not> w_closed w"
    and "length p \<le> cap - used (data s)" "2 \<le> fuel"
  shows "\<exists>w' s'. run (WriteContext fuel ctx w p) s = (Done (Some (int (length p), None), w'), s') \<and>
    fifo_of cap (data s') = (fifo_of cap (data s))\<lparr>queue := contents cap (data s) @ p\<rparr> \<and>
    live s' \<and> w_st w' = S \<and> pair_inv cap (data s') w' r"
proof -
  have inv: "writer_inv cap (data s) w" using assms(3) by (simp add: pair_inv_def)
  obtain w' s' where r: "run (WriteContext fuel ctx w p) s = (Done (Some (int (length p), None), w'), s')"
      and wr: "wrote S data live cap p (length p) s w' s'"
    using run_WriteContext_fits [OF assms(1,2) inv assms(4-6)] by blast
  then have "pair_inv cap (data s') w' r"
    by (intro pair_inv_write [OF assms(3)]) (auto simp: wrote_def intro: used_le_append)
  with r wr show ?thesis by (auto simp: wrote_def fifo_of_def)
qed

lemma session_read_ready:
  assumes "live s" "r_st r = S" "pair_inv cap (data s) w r" "p \<noteq> []"
    and "0 < used (data s) \<or> ring_closed (data s)" "1 \<le> fuel"
  shows "\<exists>r' s'. run (ReadContext fuel ctx r p) s = (Done (Some (fst (fst (fifo_read p (fifo_of cap (data s))))),
      snd (fst (fifo_read p (fifo_of cap (data s)))), r'), s') \<and>
    fifo_of cap (data s') = snd (fifo_read p (fifo_of cap (data s))) \<and>
    live s' \<and> r_st r' = S \<and> pair_inv cap (data s') w r'"
proof -
  obtain n err q f where spec: "fifo_read p (fifo_of cap (data s)) = (((n, err), q), f)" by (metis prod.collapse)
  have "0 < n \<or> err \<noteq> None"
    using spec assms(4,5) contents_empty_iff [of cap "data s"]
    by (auto simp: fifo_read_def fifo_of_def Let_def split: if_splits)
  with session_read [OF assms(1-3), of p] run_ReadContext_ready [OF assms(4) _ _ assms(6)]
  show ?thesis unfolding spec by fastforce
qed

end


section \<open>Properties\<close>

text \<open>
  C23: \<^verbatim>\<open>WriteContext\<close> returns, with everything written, if there is room: two rounds of its
  loop are enough, whatever the context, and the bytes are appended to the queue.
\<close>

theorem WriteContext_completes:
  assumes "ring_storage S data live" "live s" "w_st w = S" "writer_inv cap (data s) w" "\<not> w_closed w"
    and "length p \<le> cap - used (data s)" "2 \<le> fuel"
  shows "\<exists>w' s'. run (WriteContext fuel ctx w p) s = (Done (Some (int (length p), None), w'), s') \<and>
    contents cap (data s') = contents cap (data s) @ p \<and> writer_inv cap (data s') w'"
  using ring_storage.run_WriteContext_fits [OF assms, of ctx] by (auto simp: wrote_def)

theorem WriteContext_completes_witness:
  "\<exists>w s. run (WriteContext 2 Background (fresh_writer mem_storage 4) [1, 2, 3]) mem4 = (Done (Some (3, None), w), s) \<and>
    contents 4 (buf s) = [1, 2, 3]"
  using WriteContext_completes [OF mem_ring_storage mem4_live mem4_writer mem4_writer_inv, of "[1, 2, 3]" 2 Background]
  by (auto simp: fresh_region fresh_writer_def [of _ 4, THEN arg_cong, of w_closed])

text \<open>
  C24: \<^verbatim>\<open>ReadContext\<close> returns in the first round if there is data or the ring is closed,
  with exactly what the bounded queue's read returns.
\<close>

theorem ReadContext_returns:
  assumes "ring_storage S data live" "live s" "r_st r = S" "reader_inv cap (data s) r"
    and "p \<noteq> []" "0 < used (data s) \<or> ring_closed (data s)" "1 \<le> fuel"
  shows "\<exists>res q r' s'. run (ReadContext fuel ctx r p) s = (Done (Some res, q, r'), s') \<and>
    ((res, q), fifo_of cap (data s')) = fifo_read p (fifo_of cap (data s)) \<and> reader_inv cap (data s') r'"
proof -
  let ?n = "min (length p) (used (data s))"
  obtain r' s' where r: "run (TryRead r p) s =
      (Done ((int ?n, if ?n = 0 \<and> ring_closed (data s) then Some EOF else None),
             take ?n (contents cap (data s)) @ drop ?n p, r'), s')"
    and s': "reader_inv cap (data s') r'" "contents cap (data s') = drop ?n (contents cap (data s))"
      "ring_closed (data s') = ring_closed (data s)"
    using ring_storage.run_TryRead [OF assms(1-5)] by blast
  have "run (ReadContext fuel ctx r p) s =
      (Done (Some (int ?n, if ?n = 0 \<and> ring_closed (data s) then Some EOF else None),
             take ?n (contents cap (data s)) @ drop ?n p, r'), s')"
    by (rule ring_storage.run_ReadContext_ready [OF assms(1,5) r _ assms(7)]) (use assms(5,6) in auto)
  then show ?thesis
    using s' assms(5) contents_empty_iff [of cap "data s"]
    by (cases "used (data s) = 0") (auto simp: fifo_read_def fifo_of_def Let_def)
qed

theorem ReadContext_returns_witness:
  "\<exists>q r s. run (ReadContext 1 Background (fresh_reader mem_storage 4) [9])
      \<lparr>buf = patch (fresh_region 4) offClosed (le32 1)\<rparr> = (Done (Some (0, Some EOF), q, r), s)"
proof -
  have ok: "ring_ok 4 (fresh_region 4)" by (simp add: fresh_region)
  note cl = set_closed [OF ok]
  have "used (patch (fresh_region 4) offClosed (le32 1)) = 0"
    by (metis cl(1) cap_ok_4 contents_empty_iff fresh_region(2))
  moreover have "reader_inv 4 (patch (fresh_region 4) offClosed (le32 1)) (fresh_reader mem_storage 4)"
    by (rule reader_inv_mono [OF fresh_reader_inv [OF cap_ok_4] cl(2,4)]) (simp add: fresh_region)
  ultimately show ?thesis
    using ReadContext_returns [OF mem_ring_storage, of "\<lparr>buf = patch (fresh_region 4) offClosed (le32 1)\<rparr>"
        "fresh_reader mem_storage 4" 4 "[9]" 1 Background] cl
    by (auto simp: fresh_region headerSize_def fifo_read_def fifo_of_def)
qed

text \<open>
  C25: on a full ring, \<^verbatim>\<open>WriteContext\<close> returns a cancelled context's error in the first round,
  having written nothing and left the storage as it was.
\<close>

theorem WriteContext_cancelled:
  assumes "ring_storage S data live" "live s" "w_st w = S" "writer_inv cap (data s) w" "\<not> w_closed w"
    and "used (data s) = cap" "p \<noteq> []" "ctx_Err ctx s = Some e" "1 \<le> fuel"
  shows "\<exists>w'. run (WriteContext fuel ctx w p) s = (Done (Some (0, Some e), w'), s) \<and> writer_inv cap (data s) w'"
proof -
  obtain f where f: "fuel = Suc f" using assms(9) by (metis Suc_le_D One_nat_def)
  obtain w' where "run (TryWrite w p) s = (Done ((0, None), w'), s)" "writer_inv cap (data s) w'"
    using ring_storage.run_TryWrite_full [OF assms(1-7)] by blast
  then show ?thesis
    using assms(7,8) by (simp add: f WriteContext_def run_basic run_blockRound_cancelled)
qed

definition full4 :: mem where
  "full4 = \<lparr>buf = patch (fresh_region 4) offTail (le32 4)\<rparr>"

definition full_writer :: "mem writer" where
  "full_writer = (fresh_writer mem_storage 4)\<lparr>w_tail := 4\<rparr>"

lemma full4: "length (buf full4) < 2 ^ 62" "writer_inv 4 (buf full4) full_writer" "used (buf full4) = 4"
  "w_st full_writer = mem_storage" "\<not> w_closed full_writer"
proof -
  have inv: "writer_inv 4 (buf mem4) (fresh_writer mem_storage 4)" by (rule mem4_writer_inv)
  note pub = writer_inv_publish [OF inv, of 4]
  show "writer_inv 4 (buf full4) full_writer"
    using pub(1) by (simp add: full4_def full_writer_def fresh_writer_def)
  have "length (contents 4 (buf full4)) = 4"
    using pub(2) by (simp add: full4_def fresh_writer_def fresh_region staged_def del: length_contents)
  then show "used (buf full4) = 4" by simp
  show "length (buf full4) < 2 ^ 62" by (simp add: full4_def patch_simps fresh_region layout_defs)
  show "w_st full_writer = mem_storage" "\<not> w_closed full_writer" by (simp_all add: full_writer_def fresh_writer_def)
qed

definition cancelled :: "'w ctx" where
  "cancelled = Background\<lparr>ctx_Err := (\<lambda>_. Some Canceled)\<rparr>"

theorem WriteContext_cancelled_witness:
  "\<exists>w. run (WriteContext 1 cancelled full_writer [1]) full4 = (Done (Some (0, Some Canceled), w), full4)"
  using WriteContext_cancelled [OF mem_ring_storage full4(1,4,2,5,3), of "[1]" cancelled Canceled 1]
  by (auto simp: cancelled_def)

text \<open>
  Without a context and a wake-up primitive, \<^verbatim>\<open>Write\<close> on a full ring that nobody reads
  never returns: however many rounds it goes, it has not returned, and the storage is as it
  was.
\<close>

theorem Write_blocks_on_full:
  assumes "ring_storage S data live" "live s" "w_st w = S" "writer_inv cap (data s) w" "\<not> w_closed w"
    and "used (data s) = cap" "p \<noteq> []" "WaiterStorage S = None"
  shows "\<exists>w'. run (Write fuel w p) s = (Done (None, w'), s)"
proof -
  have "\<exists>w'. run (writeLoop fuel Background w p 0 wait) s = (Done (None, w'), s)" for wait
    using assms(3-5)
  proof (induction fuel arbitrary: w wait)
    case (Suc fuel)
    obtain w' where w': "run (TryWrite w p) s = (Done ((0, None), w'), s)" "w_st w' = S"
        "writer_inv cap (data s) w'" "\<not> w_closed w'"
      using ring_storage.run_TryWrite_full [OF assms(1,2) Suc.prems assms(6,7)] by blast
    show ?case
      using assms(7,8) w' Suc.IH [OF w'(2-4)]
      by (simp add: run_basic run_blockRound_Background)
  qed simp
  then show ?thesis by (simp add: Write_def WriteContext_def)
qed

theorem Write_blocks_on_full_witness:
  "\<exists>w. run (Write 1000 full_writer [1]) full4 = (Done (None, w), full4)"
  by (rule Write_blocks_on_full [OF mem_ring_storage full4(1,4,2,5,3)]) simp_all

end
