(* ===== verification/Os.thy ===== *)
theory Os
  imports Header
begin

text \<open>
  The operating system under the shared-memory backends. It is not code of the package:
  the record \<open>os\<close> lists the calls the package makes (\<^verbatim>\<open>os.OpenFile\<close>, \<^verbatim>\<open>mmap\<close>, \<^verbatim>\<open>futex\<close>, ...)
  and the definitions of the backends take it as an argument. A file is a descriptor, a
  mapping a handle; \<open>Load\<close> and \<open>Store\<close> are the accesses to mapped memory, \<open>None\<close> being the
  fault that kills the process.

  Locales state what is relied on: \<open>posix\<close> what the calls do to files, descriptors and
  mappings, as their manual pages describe it, \<open>steady_posix\<close> what they leave alone, \<open>futexes\<close> when they
  sleep and wake, and \<open>mapped_memory\<close> what one mapping that its
  file backs completely promises. No law says that a call succeeds. The theory \<open>Kernel\<close> has an
  operating system that keeps the laws.
\<close>

section \<open>The calls\<close>

record 'w os =
  OpenFile :: "string \<Rightarrow> bool \<Rightarrow> 'w \<Rightarrow> (gerror + int) \<times> 'w" \<comment> \<open>the flag is \<^verbatim>\<open>os.O_CREATE\<close>\<close>
  Truncate :: "int \<Rightarrow> int64 \<Rightarrow> 'w \<Rightarrow> gerror option \<times> 'w"
  StatSize :: "int \<Rightarrow> 'w \<Rightarrow> gerror + int64"
  CloseFd :: "int \<Rightarrow> 'w \<Rightarrow> gerror option \<times> 'w"
  Dup :: "int \<Rightarrow> 'w \<Rightarrow> (gerror + int) \<times> 'w"
  RemoveFile :: "string \<Rightarrow> 'w \<Rightarrow> gerror option \<times> 'w"
  SharedMemCreate :: "string \<Rightarrow> int64 \<Rightarrow> 'w \<Rightarrow> int \<times> 'w" \<comment> \<open>Android's \<^verbatim>\<open>ASharedMemory_create\<close>\<close>
  Mmap :: "int \<Rightarrow> int64 \<Rightarrow> 'w \<Rightarrow> (gerror + nat) \<times> 'w"
  Munmap :: "nat \<Rightarrow> 'w \<Rightarrow> gerror option \<times> 'w"
  Load :: "nat \<Rightarrow> nat \<Rightarrow> nat \<Rightarrow> 'w \<Rightarrow> byte list option"
  Store :: "nat \<Rightarrow> nat \<Rightarrow> byte list \<Rightarrow> 'w \<Rightarrow> 'w option"
  FutexWait :: "nat \<Rightarrow> nat \<Rightarrow> u32 \<Rightarrow> duration option \<Rightarrow> ('w, unit) prog"
  FutexWake :: "nat \<Rightarrow> nat \<Rightarrow> u32 \<Rightarrow> 'w \<Rightarrow> 'w"

text \<open>A system call as one step of a program, and one that only looks.\<close>

definition sys :: "('w \<Rightarrow> 'a \<times> 'w) \<Rightarrow> ('w, 'a) prog" where
  "sys f = call (\<lambda>w. let (a, w') = f w in (Ok a, w'))"

definition probe :: "('w \<Rightarrow> 'a) \<Rightarrow> ('w, 'a) prog" where
  "probe f = query (\<lambda>w. Ok (f w))"

lemma run_sys [run_simps]: "run (sys f) w = (Done (fst (f w)), snd (f w))"
  and run_probe [run_simps]: "run (probe g) w = (Done (g w), w)"
  by (simp_all add: sys_def probe_def run_basic split_beta Let_def)


section \<open>The contract of a mapping\<close>

locale mapped_memory =
  fixes OS :: "'w os"
    and m :: nat
    and len :: nat
    and data :: "'w \<Rightarrow> byte list"
    and live :: "'w \<Rightarrow> bool"
  assumes len_bound: "live w \<Longrightarrow> len < 2 ^ 62"
    and length_data: "live w \<Longrightarrow> length (data w) = len"
    and load: "live w \<Longrightarrow> 0 < n \<Longrightarrow> i + n \<le> len \<Longrightarrow> Load OS m i n w = Some (slice (data w) i n)"
    and store: "live w \<Longrightarrow> xs \<noteq> [] \<Longrightarrow> i + length xs \<le> len \<Longrightarrow>
      \<exists>w'. Store OS m i xs w = Some w' \<and> live w' \<and> data w' = patch (data w) i xs"
    and wake: "live w \<Longrightarrow> i + 4 \<le> len \<Longrightarrow> live (FutexWake OS m i v w) \<and> data (FutexWake OS m i v w) = data w"
    and wait: "i + 4 \<le> len \<Longrightarrow> quiet live (\<lambda>w w'. live w' \<and> data w' = data w) (FutexWait OS m i v d)"

text \<open>
  What a futex promises beyond that. \<open>wk w i\<close> counts how often the word at \<open>i\<close> has been woken:
  only \<^verbatim>\<open>FUTEX_WAKE\<close> adds to it, one for each call, and who sleeps on the word has found it as expected, in one
  step with going to sleep, and has not been woken since.
\<close>

locale waking_memory = mapped_memory +
  fixes wk :: "'a \<Rightarrow> nat \<Rightarrow> nat"
  assumes store_wakes: "Store OS m i xs w = Some w' \<Longrightarrow> wk w' = wk w"
    and wake_wakes: "live w \<Longrightarrow> i + 4 \<le> len \<Longrightarrow> 0 < v \<Longrightarrow>
      wk (FutexWake OS m i v w) = (wk w)(i := Suc (wk w i))"
    and wait_sleeps: "i + 4 \<le> len \<Longrightarrow>
      sleeps live (\<lambda>w w'. live w' \<and> data w' = data w \<and> wk w' = wk w)
        (\<lambda>u w. u32_at (data u) i = v \<and> wk w i \<le> wk u i) (FutexWait OS m i v d) w"


text \<open>Without a timeout, the wait ends only on another word or after a wake-up.\<close>

locale prompt_memory = waking_memory +
  assumes wait_prompt: "i + 4 \<le> len \<Longrightarrow>
      ends (\<lambda>w. live w \<and> n \<le> wk w i) (\<lambda>w. u32_at (data w) i \<noteq> v \<or> n < wk w i) (FutexWait OS m i v None) w"

section \<open>The contract of the calls\<close>

definition ENOENT :: gerror where "ENOENT = Errno 2"

text \<open>\<^verbatim>\<open>ftruncate\<close>: the tail is cut off, or zeros are appended.\<close>

definition resize :: "nat \<Rightarrow> byte list \<Rightarrow> byte list" where
  "resize n xs = take n xs @ replicate (n - length xs) 0"

lemma length_resize [simp]: "length (resize n xs) = n"
  by (simp add: resize_def)

text \<open>The end of the last page that \<open>n\<close> bytes of a file occupy.\<close>

definition page_end :: "nat \<Rightarrow> nat \<Rightarrow> nat" where
  "page_end page n = (n + page - 1) div page * page"

text \<open>
  What a state of the world shows of files: \<open>dir\<close> the names, \<open>bytes\<close> the bytes of an inode,
  \<open>fds\<close> the open descriptors, \<open>maps\<close> the mappings with their lengths. A mapping outlives its
  descriptor and its name. An access to a mapping is one to the file; it faults without a
  mapping and past the last page of the file, whatever the mapping's length.
\<close>

locale posix =
  fixes OS :: "'w os"
    and dir :: "'w \<Rightarrow> string \<Rightarrow> 'i option"
    and bytes :: "'w \<Rightarrow> 'i \<Rightarrow> byte list"
    and fds :: "'w \<Rightarrow> int \<Rightarrow> 'i option"
    and maps :: "'w \<Rightarrow> nat \<Rightarrow> ('i \<times> nat) option"
    and page :: nat
  assumes open_old: "OpenFile OS path c w = (Inr f, w') \<Longrightarrow> dir w path = Some ino \<Longrightarrow>
      fds w' = (fds w)(f \<mapsto> ino) \<and> dir w' = dir w \<and> bytes w' = bytes w \<and> maps w' = maps w"
    and open_new: "OpenFile OS path c w = (Inr f, w') \<Longrightarrow> dir w path = None \<Longrightarrow>
      c \<and> (\<exists>ino. fds w' = (fds w)(f \<mapsto> ino) \<and> dir w' = (dir w)(path \<mapsto> ino) \<and>
        (\<forall>j. j \<noteq> ino \<longrightarrow> bytes w' j = bytes w j) \<and> maps w' = maps w)"
    and truncate: "Truncate OS f n w = (None, w') \<Longrightarrow> fds w f = Some ino \<Longrightarrow> 0 \<le> n \<Longrightarrow>
      bytes w' = (bytes w)(ino := resize (nat n) (bytes w ino)) \<and> dir w' = dir w \<and> fds w' = fds w \<and> maps w' = maps w"
    and stat: "StatSize OS f w = Inr n \<Longrightarrow> fds w f = Some ino \<Longrightarrow> n = int (length (bytes w ino))"
    and close_fd: "CloseFd OS f w = (r, w') \<Longrightarrow>
      dir w' = dir w \<and> bytes w' = bytes w \<and> maps w' = maps w \<and> (\<forall>g. g \<noteq> f \<longrightarrow> fds w' g = fds w g)"
    and dup: "Dup OS f w = (Inr g, w') \<Longrightarrow> fds w f = Some ino \<Longrightarrow>
      fds w' = (fds w)(g \<mapsto> ino) \<and> dir w' = dir w \<and> bytes w' = bytes w \<and> maps w' = maps w"
    and remove: "RemoveFile OS path w = (r, w') \<Longrightarrow>
      bytes w' = bytes w \<and> fds w' = fds w \<and> maps w' = maps w \<and>
      (r = None \<or> r = Some ENOENT \<longrightarrow> dir w' = (dir w)(path := None))"
    and shared_mem_create: "SharedMemCreate OS name n w = (f, w') \<Longrightarrow> 0 \<le> f \<Longrightarrow> 0 < n \<Longrightarrow>
      \<exists>ino. fds w' = (fds w)(f \<mapsto> ino) \<and> length (bytes w' ino) = nat n \<and> maps w' = maps w"
    and mmap: "Mmap OS f n w = (Inr m, w') \<Longrightarrow> fds w f = Some ino \<Longrightarrow> 0 < n \<Longrightarrow>
      maps w m = None \<and> maps w' = (maps w)(m \<mapsto> (ino, nat n)) \<and> dir w' = dir w \<and> bytes w' = bytes w \<and> fds w' = fds w"
    and munmap: "Munmap OS m w = (None, w') \<Longrightarrow>
      maps w' = (maps w)(m := None) \<and> dir w' = dir w \<and> bytes w' = bytes w \<and> fds w' = fds w"
    and load: "maps w m = Some (ino, len) \<Longrightarrow> 0 < k \<Longrightarrow> i + k \<le> len \<Longrightarrow> i + k \<le> length (bytes w ino) \<Longrightarrow>
      Load OS m i k w = Some (slice (bytes w ino) i k)"
    and load_unmapped: "maps w m = None \<Longrightarrow> 0 < k \<Longrightarrow> Load OS m i k w = None"
    and load_past_end: "maps w m = Some (ino, len) \<Longrightarrow> 0 < k \<Longrightarrow> page_end page (length (bytes w ino)) < i + k \<Longrightarrow>
      Load OS m i k w = None"
    and store: "maps w m = Some (ino, len) \<Longrightarrow> xs \<noteq> [] \<Longrightarrow> i + length xs \<le> len \<Longrightarrow> i + length xs \<le> length (bytes w ino) \<Longrightarrow>
      \<exists>w'. Store OS m i xs w = Some w' \<and> bytes w' = (bytes w)(ino := patch (bytes w ino) i xs) \<and>
        dir w' = dir w \<and> fds w' = fds w \<and> maps w' = maps w"
    and wake: "dir (FutexWake OS m i v w) = dir w \<and> bytes (FutexWake OS m i v w) = bytes w \<and>
      fds (FutexWake OS m i v w) = fds w \<and> maps (FutexWake OS m i v w) = maps w"
    and wait: "quiet (\<lambda>_. True) (\<lambda>w w'. dir w' = dir w \<and> bytes w' = bytes w \<and> fds w' = fds w \<and> maps w' = maps w)
      (FutexWait OS m i v d)"

text \<open>
  Every mapping in \<open>ms\<close> is a whole mapping of the inode \<open>ino\<close>, whose file has \<open>len\<close> bytes; and
  names, descriptors and mappings are those of the state \<open>w0\<close>.
\<close>

definition backed ::
  "('w \<Rightarrow> string \<Rightarrow> 'i option) \<Rightarrow> ('w \<Rightarrow> 'i \<Rightarrow> byte list) \<Rightarrow> ('w \<Rightarrow> int \<Rightarrow> 'i option) \<Rightarrow>
    ('w \<Rightarrow> nat \<Rightarrow> ('i \<times> nat) option) \<Rightarrow> nat set \<Rightarrow> 'i \<Rightarrow> nat \<Rightarrow> 'w \<Rightarrow> 'w \<Rightarrow> bool" where
  "backed dir bytes fds maps ms ino len w0 w \<longleftrightarrow>
     (\<forall>m \<in> ms. maps w m = Some (ino, len)) \<and> length (bytes w ino) = len \<and> len < 2 ^ 62 \<and>
     dir w = dir w0 \<and> fds w = fds w0 \<and> maps w = maps w0"

context posix
begin

lemma mapped:
  assumes "m \<in> ms"
  shows "mapped_memory OS m len (\<lambda>w. bytes w ino) (backed dir bytes fds maps ms ino len w0)"
proof (unfold_locales, goal_cases)
  case (3 w n i)
  with assms show ?case by (intro load) (auto simp: backed_def)
next
  case (4 w xs i)
  then have "maps w m = Some (ino, len)" "length (bytes w ino) = len" using assms by (auto simp: backed_def)
  then show ?case using 4 store [of w m ino len xs i] by (auto simp: backed_def patch_simps)
next
  case (6 i v d)
  show ?case by (rule quiet_weaken [OF wait]) (auto simp: backed_def)
qed (use wake in \<open>auto simp: backed_def\<close>)

end

text \<open>The futexes of the files: a word is known by its inode, whatever mapping it is reached by.\<close>

locale futexes = posix OS dir bytes fds maps page
  for OS :: "'w os" and dir :: "'w \<Rightarrow> string \<Rightarrow> 'i option" and bytes fds maps page +
  fixes wakes :: "'w \<Rightarrow> 'i \<Rightarrow> nat \<Rightarrow> nat"
  assumes store_keeps: "Store OS m i xs w = Some w' \<Longrightarrow> wakes w' = wakes w"
    and wake_counts: "maps w m = Some (ino, len) \<Longrightarrow> i + 4 \<le> len \<Longrightarrow> 0 < v \<Longrightarrow>
      wakes (FutexWake OS m i v w) = (wakes w)(ino := (wakes w ino)(i := Suc (wakes w ino i)))"
    and wait_compares: "sleeps (\<lambda>w. maps w m = Some (ino, len) \<and> i + 4 \<le> length (bytes w ino))
      (\<lambda>w w'. dir w' = dir w \<and> bytes w' = bytes w \<and> fds w' = fds w \<and> maps w' = maps w \<and> wakes w' = wakes w)
      (\<lambda>u w. u32_at (bytes u ino) i = v \<and> wakes w ino i \<le> wakes u ino i) (FutexWait OS m i v d) w"
begin

lemma mapped_waking:
  assumes "m \<in> ms"
  shows "waking_memory OS m len (\<lambda>w. bytes w ino) (backed dir bytes fds maps ms ino len w0) (\<lambda>w. wakes w ino)"
proof (rule waking_memory.intro [OF mapped [OF assms]], unfold_locales, goal_cases)
  case (1 i xs w w')
  then show ?case by (simp add: store_keeps)
next
  case (2 w i v)
  then have "maps w m = Some (ino, len)" using assms unfolding backed_def by blast
  with 2 wake_counts [of w m ino len i v] show ?case by simp
next
  case (3 i v d w)
  then show ?case
    using assms by (intro sleeps_weaken [OF wait_compares [of m ino len i v d w]]) (auto simp: backed_def)
qed

end

locale prompt_futexes = futexes OS dir bytes fds maps page wakes
  for OS :: "'w os" and dir :: "'w \<Rightarrow> string \<Rightarrow> 'i option" and bytes fds maps page wakes +
  assumes wait_ends: "i + 4 \<le> len \<Longrightarrow>
      ends (\<lambda>w. maps w m = Some (ino, len) \<and> i + 4 \<le> length (bytes w ino) \<and> n \<le> wakes w ino i)
        (\<lambda>w. u32_at (bytes w ino) i \<noteq> v \<or> n < wakes w ino i) (FutexWait OS m i v None) w"
begin

lemma mapped_prompt:
  assumes "m \<in> ms"
  shows "prompt_memory OS m len (\<lambda>w. bytes w ino) (backed dir bytes fds maps ms ino len w0) (\<lambda>w. wakes w ino)"
proof (rule prompt_memory.intro [OF mapped_waking [OF assms]], unfold_locales, goal_cases)
  case (1 i n v w)
  then show ?case
    using assms by (intro ends_weaken [OF wait_ends [of i len m ino n v w]]) (auto simp: backed_def)
qed

end

text \<open>
  What the calls leave alone beyond that: one that fails changes nothing, a new descriptor was not in use, a new
  file is empty, and an access to a mapping does not touch names, descriptors or mappings.
\<close>

locale steady_posix = posix +
  assumes open_fresh: "OpenFile OS path c w = (Inr f, w') \<Longrightarrow> fds w f = None"
    and open_empty: "OpenFile OS path c w = (Inr f, w') \<Longrightarrow> dir w path = None \<Longrightarrow> dir w' path = Some ino \<Longrightarrow>
      bytes w' ino = []"
    and open_fails: "OpenFile OS path c w = (Inl e, w') \<Longrightarrow>
      dir w' = dir w \<and> bytes w' = bytes w \<and> fds w' = fds w \<and> maps w' = maps w"
    and truncate_fails: "Truncate OS f n w = (Some e, w') \<Longrightarrow>
      dir w' = dir w \<and> bytes w' = bytes w \<and> fds w' = fds w \<and> maps w' = maps w"
    and remove_fails: "RemoveFile OS path w = (Some e, w') \<Longrightarrow> dir w' = dir w"
    and mmap_fails: "Mmap OS f n w = (Inl e, w') \<Longrightarrow>
      dir w' = dir w \<and> bytes w' = bytes w \<and> fds w' = fds w \<and> maps w' = maps w"
    and munmap_fails: "Munmap OS m w = (Some e, w') \<Longrightarrow>
      dir w' = dir w \<and> bytes w' = bytes w \<and> fds w' = fds w \<and> maps w' = maps w"
    and store_tables: "Store OS m i xs w = Some w' \<Longrightarrow> dir w' = dir w \<and> fds w' = fds w \<and> maps w' = maps w"

end
