(* ===== verification/Mapped.thy ===== *)
theory Mapped
  imports Os
begin

text \<open>
  Mapped memory as a Go byte slice, and \<^verbatim>\<open>backend/futex_linux.go\<close>. Both mmap-backed
  storages, Linux's and Android's, are built from these.
\<close>

section \<open>The slice over a mapping\<close>

record mem_slice =
  handle :: nat
  slen :: nat

text \<open>
  \<^verbatim>\<open>copy(p, mem[off:off+int64(len(p))])\<close> and \<^verbatim>\<open>copy(mem[off:off+int64(len(p))], p)\<close>: the
  slice expression panics unless \<open>0 \<le> off \<le> off+len \<le> len(mem)\<close>; the bytes are then moved
  from or to mapped memory, which faults where the mapping is not backed.
\<close>

definition copyOut :: "'w os \<Rightarrow> mem_slice \<Rightarrow> byte list \<Rightarrow> int64 \<Rightarrow> 'w \<Rightarrow> (byte list \<times> int64) go" where
  "copyOut OS mem p off w =
     (let e = add64 off (int (length p)) in
      if \<not> (0 \<le> off \<and> off \<le> e \<and> e \<le> int (slen mem)) then Panic SliceBounds
      else if p = [] then Ok (p, 0)
      else case Load OS (handle mem) (nat off) (length p) w of
          None \<Rightarrow> Panic MemoryFault
        | Some b \<Rightarrow> Ok (b, int (length p)))"

definition copyIn :: "'w os \<Rightarrow> mem_slice \<Rightarrow> byte list \<Rightarrow> int64 \<Rightarrow> 'w \<Rightarrow> int64 go \<times> 'w" where
  "copyIn OS mem p off w =
     (let e = add64 off (int (length p)) in
      if \<not> (0 \<le> off \<and> off \<le> e \<and> e \<le> int (slen mem)) then (Panic SliceBounds, w)
      else if p = [] then (Ok 0, w)
      else case Store OS (handle mem) (nat off) p w of
          None \<Rightarrow> (Panic MemoryFault, w)
        | Some w' \<Rightarrow> (Ok (int (length p)), w'))"


section \<open>Futexes\<close>

definition wakeAll :: u32 where "wakeAll = 2 ^ 31 - 1"

text \<open>\<^verbatim>\<open>&mem[off]\<close>: the address of a word, here its offset in the mapping.\<close>

definition wordAt :: "mem_slice \<Rightarrow> int64 \<Rightarrow> nat go" where
  "wordAt mem off = (if 0 \<le> off \<and> off < int (slen mem) then Ok (nat off) else Panic IndexOutOfRange)"

definition futexWaitWord :: "'w os \<Rightarrow> mem_slice \<Rightarrow> nat \<Rightarrow> u32 \<Rightarrow> duration \<Rightarrow> ('w, unit) prog" where
  "futexWaitWord OS mem word old timeout =
     FutexWait OS (handle mem) word old (if timeout > 0 then Some timeout else None)"

definition futexWakeWord :: "'w os \<Rightarrow> mem_slice \<Rightarrow> nat \<Rightarrow> 'w \<Rightarrow> 'w" where
  "futexWakeWord OS mem word w = FutexWake OS (handle mem) word wakeAll w"


section \<open>Over a mapping that keeps its contract\<close>

context mapped_memory
begin

lemma copyOut_ok:
  assumes "live w" "p \<noteq> []" "i + length p \<le> len"
  shows "copyOut OS \<lparr>handle = m, slen = len\<rparr> p (int i) w = Ok (slice (data w) i (length p), int (length p))"
proof -
  have "add64 (int i) (int (length p)) = int (i + length p)"
    using assms len_bound [OF assms(1)] by (intro add64_nat) simp
  with assms load [OF assms(1), of "length p" i] show ?thesis
    by (simp add: copyOut_def Let_def)
qed

lemma copyIn_ok:
  assumes "live w" "p \<noteq> []" "i + length p \<le> len"
  shows "\<exists>w'. copyIn OS \<lparr>handle = m, slen = len\<rparr> p (int i) w = (Ok (int (length p)), w') \<and> live w' \<and>
    data w' = patch (data w) i p"
proof -
  have "add64 (int i) (int (length p)) = int (i + length p)"
    using assms len_bound [OF assms(1)] by (intro add64_nat) simp
  with assms store [OF assms] show ?thesis
    by (auto simp: copyIn_def Let_def)
qed

lemma wordAt_ok: "i + 4 \<le> len \<Longrightarrow> wordAt \<lparr>handle = m, slen = len\<rparr> (int i) = Ok i"
  by (simp add: wordAt_def)

lemma quiet_futexWait:
  assumes "i + 4 \<le> len"
  shows "quiet (\<lambda>w. live w \<and> i + 4 \<le> length (data w)) (\<lambda>w w'. live w' \<and> data w' = data w)
    (pbind (query (\<lambda>_. wordAt \<lparr>handle = m, slen = len\<rparr> (int i))) (\<lambda>a.
       futexWaitWord OS \<lparr>handle = m, slen = len\<rparr> a old d))"
  unfolding wordAt_ok [OF assms] query_def call_def
  by (simp add: pbind_Atomic quiet_Atomic futexWaitWord_def del: pbind.simps(2) quiet.simps(2))
    (auto intro: quiet_weaken [OF wait [OF assms]])

lemma futexWake_ok:
  "live w \<Longrightarrow> i + 4 \<le> len \<Longrightarrow>
    live (futexWakeWord OS \<lparr>handle = m, slen = len\<rparr> i w) \<and>
    data (futexWakeWord OS \<lparr>handle = m, slen = len\<rparr> i w) = data w"
  by (simp add: futexWakeWord_def wake)

end

end
