(* ===== verification/Kernel.thy ===== *)
theory Kernel
  imports Mapped
begin

text \<open>
  An operating system that keeps the laws of \<open>posix\<close>, small enough to be executed: files,
  descriptors, mappings with whole-page faults past the end of the file, and futexes. The
  witnesses and the concrete runs of the development are over it.
\<close>

section \<open>A small Linux\<close>

record kernel =
  k_dir :: "string \<Rightarrow> nat option" \<comment> \<open>\<^verbatim>\<open>/dev/shm\<close>: path to inode\<close>
  k_file :: "nat \<Rightarrow> byte list" \<comment> \<open>the bytes of an inode\<close>
  k_fd :: "int \<Rightarrow> nat option"
  k_map :: "nat \<Rightarrow> (nat \<times> nat) option" \<comment> \<open>a mapping: its inode and length\<close>
  k_wakes :: "nat \<Rightarrow> nat \<Rightarrow> nat" \<comment> \<open>how often a word of an inode has been woken\<close>
  k_next :: nat

definition kernel0 :: kernel where
  "kernel0 = \<lparr>k_dir = (\<lambda>_. None), k_file = (\<lambda>_. []), k_fd = (\<lambda>_. None), k_map = (\<lambda>_. None),
     k_wakes = (\<lambda>_ _. 0), k_next = 3\<rparr>"

definition EBADF :: gerror where "EBADF = Errno 9"
definition EINVAL :: gerror where "EINVAL = Errno 22"

definition k_OpenFile :: "string \<Rightarrow> bool \<Rightarrow> kernel \<Rightarrow> (gerror + int) \<times> kernel" where
  "k_OpenFile path creat k =
     (let n = k_next k in
      if k_fd k (int n) \<noteq> None then (Inl (Errno 24), k) else
      case k_dir k path of
        Some ino \<Rightarrow> (Inr (int n), k\<lparr>k_fd := (k_fd k)(int n \<mapsto> ino), k_next := n + 1\<rparr>)
      | None \<Rightarrow>
          if creat then (Inr (int n), k\<lparr>k_dir := (k_dir k)(path \<mapsto> n), k_file := (k_file k)(n := []),
            k_fd := (k_fd k)(int n \<mapsto> n), k_next := n + 1\<rparr>)
          else (Inl ENOENT, k))"

definition k_Truncate :: "int \<Rightarrow> int64 \<Rightarrow> kernel \<Rightarrow> gerror option \<times> kernel" where
  "k_Truncate fd sz k =
     (case k_fd k fd of
        None \<Rightarrow> (Some EBADF, k)
      | Some ino \<Rightarrow> if sz < 0 then (Some EINVAL, k)
          else (None, k\<lparr>k_file := (k_file k)(ino := resize (nat sz) (k_file k ino))\<rparr>))"

definition k_StatSize :: "int \<Rightarrow> kernel \<Rightarrow> gerror + int64" where
  "k_StatSize fd k = (case k_fd k fd of None \<Rightarrow> Inl EBADF | Some ino \<Rightarrow> Inr (int (length (k_file k ino))))"

definition k_CloseFd :: "int \<Rightarrow> kernel \<Rightarrow> gerror option \<times> kernel" where
  "k_CloseFd fd k =
     (case k_fd k fd of None \<Rightarrow> (Some EBADF, k) | Some _ \<Rightarrow> (None, k\<lparr>k_fd := (k_fd k)(fd := None)\<rparr>))"

definition k_Dup :: "int \<Rightarrow> kernel \<Rightarrow> (gerror + int) \<times> kernel" where
  "k_Dup fd k =
     (case k_fd k fd of
        None \<Rightarrow> (Inl EBADF, k)
      | Some ino \<Rightarrow> (Inr (int (k_next k)), k\<lparr>k_fd := (k_fd k)(int (k_next k) \<mapsto> ino), k_next := k_next k + 1\<rparr>))"

definition k_RemoveFile :: "string \<Rightarrow> kernel \<Rightarrow> gerror option \<times> kernel" where
  "k_RemoveFile path k =
     (case k_dir k path of None \<Rightarrow> (Some ENOENT, k) | Some _ \<Rightarrow> (None, k\<lparr>k_dir := (k_dir k)(path := None)\<rparr>))"

definition k_SharedMemCreate :: "string \<Rightarrow> int64 \<Rightarrow> kernel \<Rightarrow> int \<times> kernel" where
  "k_SharedMemCreate name sz k =
     (let n = k_next k in
      (int n, k\<lparr>k_file := (k_file k)(n := replicate (nat sz) 0), k_fd := (k_fd k)(int n \<mapsto> n), k_next := n + 1\<rparr>))"

text \<open>\<^verbatim>\<open>mmap\<close> does not look at the length of the file.\<close>

definition k_Mmap :: "int \<Rightarrow> int64 \<Rightarrow> kernel \<Rightarrow> (gerror + nat) \<times> kernel" where
  "k_Mmap fd sz k =
     (case (k_fd k fd, k_map k (k_next k)) of
        (None, _) \<Rightarrow> (Inl EBADF, k)
      | (Some ino, Some _) \<Rightarrow> (Inl (Errno 12), k)
      | (Some ino, None) \<Rightarrow> if sz \<le> 0 then (Inl EINVAL, k)
          else (Inr (k_next k), k\<lparr>k_map := (k_map k)(k_next k \<mapsto> (ino, nat sz)), k_next := k_next k + 1\<rparr>))"

definition k_Munmap :: "nat \<Rightarrow> kernel \<Rightarrow> gerror option \<times> kernel" where
  "k_Munmap m k =
     (case k_map k m of None \<Rightarrow> (Some EINVAL, k) | Some _ \<Rightarrow> (None, k\<lparr>k_map := (k_map k)(m := None)\<rparr>))"

text \<open>
  An access is backed up to the end of the file's last page; past the end of the file the
  page holds zeros, and what is stored there is not part of the file.
\<close>

definition padded :: "nat \<Rightarrow> byte list \<Rightarrow> byte list" where
  "padded n xs = xs @ replicate (n - length xs) 0"

definition k_Load :: "nat \<Rightarrow> nat \<Rightarrow> nat \<Rightarrow> kernel \<Rightarrow> byte list option" where
  "k_Load m i n k =
     (case k_map k m of
        None \<Rightarrow> None
      | Some (ino, len) \<Rightarrow>
          if i + n \<le> len \<and> i + n \<le> page_end 4096 (length (k_file k ino)) then Some (slice (padded (i + n) (k_file k ino)) i n)
          else None)"

definition k_Store :: "nat \<Rightarrow> nat \<Rightarrow> byte list \<Rightarrow> kernel \<Rightarrow> kernel option" where
  "k_Store m i xs k =
     (case k_map k m of
        None \<Rightarrow> None
      | Some (ino, len) \<Rightarrow>
          if i + length xs \<le> len \<and> i + length xs \<le> page_end 4096 (length (k_file k ino)) then
            Some (k\<lparr>k_file := (k_file k)(ino :=
              take (length (k_file k ino)) (patch (padded (i + length xs) (k_file k ino)) i xs))\<rparr>)
          else None)"

text \<open>
  \<^verbatim>\<open>FUTEX_WAIT\<close>: compare and go to sleep in one step; a call on an address that is not
  mapped, or whose word has changed, returns at once. A sleeper without a timeout sleeps
  until the word is woken; one with a timeout may go on at any moment.
\<close>

definition k_FutexWait :: "nat \<Rightarrow> nat \<Rightarrow> u32 \<Rightarrow> duration option \<Rightarrow> (kernel, unit) prog" where
  "k_FutexWait m i old d =
     Atomic (\<lambda>k. case (k_map k m, k_Load m i 4 k) of
        (Some (ino, len), Some b) \<Rightarrow>
          (if Uint32 b = old \<and> d = None
           then (let c = k_wakes k ino i in Await (\<lambda>k. c < k_wakes k ino i) (Return ())) else Return (), k)
      | _ \<Rightarrow> (Return (), k))"

definition k_FutexWake :: "nat \<Rightarrow> nat \<Rightarrow> u32 \<Rightarrow> kernel \<Rightarrow> kernel" where
  "k_FutexWake m i n k =
     (case k_map k m of
        None \<Rightarrow> k
      | Some (ino, len) \<Rightarrow> k\<lparr>k_wakes := (k_wakes k)(ino := (k_wakes k ino)(i := k_wakes k ino i + 1))\<rparr>)"

definition kernel_os :: "kernel os" where
  "kernel_os =
     \<lparr>OpenFile = k_OpenFile, Truncate = k_Truncate, StatSize = k_StatSize, CloseFd = k_CloseFd, Dup = k_Dup,
      RemoveFile = k_RemoveFile, SharedMemCreate = k_SharedMemCreate, Mmap = k_Mmap, Munmap = k_Munmap,
      Load = k_Load, Store = k_Store, FutexWait = k_FutexWait, FutexWake = k_FutexWake\<rparr>"

lemma kernel_os_simps [simp]:
  "OpenFile kernel_os = k_OpenFile" "Truncate kernel_os = k_Truncate" "StatSize kernel_os = k_StatSize"
  "CloseFd kernel_os = k_CloseFd" "Dup kernel_os = k_Dup" "RemoveFile kernel_os = k_RemoveFile"
  "SharedMemCreate kernel_os = k_SharedMemCreate" "Mmap kernel_os = k_Mmap" "Munmap kernel_os = k_Munmap"
  "Load kernel_os = k_Load" "Store kernel_os = k_Store" "FutexWait kernel_os = k_FutexWait"
  "FutexWake kernel_os = k_FutexWake"
  by (simp_all add: kernel_os_def)


section \<open>It keeps the laws\<close>

lemma page_end_ge: "0 < page \<Longrightarrow> n \<le> page_end page n"
  unfolding page_end_def by (cases "n = 0") (use dividend_less_div_times [of page "n + page - 1"] in \<open>simp_all add: mult.commute\<close>)

lemma padded_within [simp]: "n \<le> length xs \<Longrightarrow> padded n xs = xs"
  by (simp add: padded_def)

interpretation kernel: posix kernel_os k_dir k_file k_fd k_map 4096
proof (unfold_locales, unfold kernel_os_simps, goal_cases)
  case (14 w m ino len xs i)
  then show ?case using page_end_ge [of 4096 "length (k_file w ino)"] by (simp add: k_Store_def patch_simps)
next
  case (11 w m ino len k i)
  then show ?case using page_end_ge [of 4096 "length (k_file w ino)"] by (simp add: k_Load_def)
next
  case (16 m i v d)
  show ?case
    by (auto simp: k_FutexWait_def quiet_Atomic Let_def simp del: quiet.simps(2) split: option.split)
qed (auto simp: k_OpenFile_def k_Truncate_def k_StatSize_def k_CloseFd_def k_Dup_def k_RemoveFile_def k_SharedMemCreate_def
    k_Mmap_def k_Munmap_def k_Load_def k_FutexWake_def Let_def split: option.splits if_splits)

interpretation kernel: steady_posix kernel_os k_dir k_file k_fd k_map 4096
  by (unfold_locales, unfold kernel_os_simps)
    (auto simp: k_OpenFile_def k_Truncate_def k_RemoveFile_def k_Mmap_def k_Munmap_def k_Store_def Let_def
      split: option.splits if_splits prod.splits)

interpretation kernel: futexes kernel_os k_dir k_file k_fd k_map 4096 k_wakes
proof (unfold_locales, unfold kernel_os_simps, goal_cases)
  case (3 m ino len i v d w)
  show ?case
    by (auto simp: k_FutexWait_def k_Load_def u32_at_def sleeps_Atomic Let_def split: option.split)
qed (auto simp: k_Store_def k_FutexWake_def split: option.splits if_splits)

interpretation kernel: prompt_futexes kernel_os k_dir k_file k_fd k_map 4096 k_wakes
proof (unfold_locales, unfold kernel_os_simps, goal_cases)
  case (1 i len m ino n v w)
  have "k_Load m i 4 k = Some (slice (k_file k ino) i 4)"
    if "k_map k m = Some (ino, len)" "i + 4 \<le> length (k_file k ino)" for k
    using kernel.load [of k m ino len 4 i] that 1 by simp
  then show ?case by (simp add: k_FutexWait_def ends_Atomic Let_def u32_at_def)
qed

interpretation kernel_memory: mapped_memory kernel_os m len "\<lambda>k. k_file k ino"
    "backed k_dir k_file k_fd k_map (insert m ms) ino len k0"
  for m ms ino len k0
  by (rule kernel.mapped [OF insertI1])

interpretation kernel_futex_memory: waking_memory kernel_os m len "\<lambda>k. k_file k ino"
    "backed k_dir k_file k_fd k_map (insert m ms) ino len k0" "\<lambda>k. k_wakes k ino"
  for m ms ino len k0
  by (rule kernel.mapped_waking [OF insertI1])

interpretation kernel_prompt_memory: prompt_memory kernel_os m len "\<lambda>k. k_file k ino"
    "backed k_dir k_file k_fd k_map (insert m ms) ino len k0" "\<lambda>k. k_wakes k ino"
  for m ms ino len k0
  by (rule kernel.mapped_prompt [OF insertI1])

end
