(* ===== verification/ShmLinux.thy ===== *)
theory ShmLinux
  imports Kernel
begin

text \<open>
  \<^verbatim>\<open>backend/shm_linux.go\<close>: named shared memory as files under \<^verbatim>\<open>/dev/shm\<close>. The functions of
  package \<^verbatim>\<open>backend\<close> carry the prefix \<open>backend_\<close>, to tell them from those of the root
  package. A deferred \<^verbatim>\<open>f.Close()\<close> is the last step of every path behind it.
\<close>

section \<open>State and operations\<close>

record shm_handle =
  sh_mem :: mem_slice
  sh_size :: int64
  sh_owns :: bool
  sh_path :: string

definition maxInt32 :: int64 where "maxInt32 = 2 ^ 31 - 1"

definition validateShmSize :: "int64 \<Rightarrow> gerror option" where
  "validateShmSize sz =
     (if sz \<le> 0 then Some (Errorf ''backend: size must be positive, got '')
      else if sz > maxInt32 then Some (Errorf ''backend: size '')
      else None)"

definition shmPath :: "string \<Rightarrow> gerror + string" where
  "shmPath name =
     (if name = [] then Inl (Errorf ''backend: name must not be empty'')
      else if CHR ''/'' \<in> set name then Inl (Errorf ''backend: name must not contain '')
      else Inr (''/dev/shm/'' @ name))"

definition mapShm :: "'w os \<Rightarrow> int \<Rightarrow> string \<Rightarrow> int64 \<Rightarrow> bool \<Rightarrow> ('w, gerror + shm_handle) prog" where
  "mapShm OS f path sz owns =
     (let cleanup = (if owns then pbind (sys (RemoveFile OS path)) (\<lambda>_. Return ()) else Return ()) in
      pbind (probe (StatSize OS f)) (\<lambda>info. case info of
          Inl err \<Rightarrow> pbind cleanup (\<lambda>_. Return (Inl (ErrorfW ''backend: stat '' err)))
        | Inr n \<Rightarrow>
            if n < sz then pbind cleanup (\<lambda>_. Return (Inl (ErrorfW ''backend: '' ErrIncompleteSegment)))
            else pbind (sys (Mmap OS f sz)) (\<lambda>r. case r of
                Inl err \<Rightarrow> pbind cleanup (\<lambda>_. Return (Inl (ErrorfW ''backend: mmap '' err)))
              | Inr mem \<Rightarrow> Return (Inr
                  \<lparr>sh_mem = \<lparr>handle = mem, slen = nat sz\<rparr>, sh_size = sz, sh_owns = owns, sh_path = path\<rparr>))))"

definition backend_CreateShm :: "'w os \<Rightarrow> string \<Rightarrow> int64 \<Rightarrow> ('w, gerror + shm_handle) prog" where
  "backend_CreateShm OS name sz =
     (case validateShmSize sz of
        Some err \<Rightarrow> Return (Inl err)
      | None \<Rightarrow> (case shmPath name of
            Inl err \<Rightarrow> Return (Inl err)
          | Inr path \<Rightarrow> pbind (sys (OpenFile OS path True)) (\<lambda>r. case r of
                Inl err \<Rightarrow> Return (Inl (ErrorfW ''backend: create shared memory '' err))
              | Inr f \<Rightarrow>
                  pbind (sys (Truncate OS f sz)) (\<lambda>err.
                  pbind (case err of
                      Some err \<Rightarrow> pbind (sys (RemoveFile OS path)) (\<lambda>_.
                        Return (Inl (ErrorfW ''backend: create shared memory '' err)))
                    | None \<Rightarrow> mapShm OS f path sz True) (\<lambda>res.
                  pbind (sys (CloseFd OS f)) (\<lambda>_. Return res))))))"

definition backend_OpenShm :: "'w os \<Rightarrow> string \<Rightarrow> int64 \<Rightarrow> ('w, gerror + shm_handle) prog" where
  "backend_OpenShm OS name sz =
     (case validateShmSize sz of
        Some err \<Rightarrow> Return (Inl err)
      | None \<Rightarrow> (case shmPath name of
            Inl err \<Rightarrow> Return (Inl err)
          | Inr path \<Rightarrow> pbind (sys (OpenFile OS path False)) (\<lambda>r. case r of
                Inl err \<Rightarrow> Return (Inl (ErrorfW ''backend: open shared memory '' err))
              | Inr f \<Rightarrow>
                  pbind (mapShm OS f path sz False) (\<lambda>res.
                  pbind (sys (CloseFd OS f)) (\<lambda>_. Return res)))))"

definition shm_ReadAt :: "'w os \<Rightarrow> shm_handle \<Rightarrow> byte list \<Rightarrow> int64 \<Rightarrow> 'w \<Rightarrow> (byte list \<times> int64 \<times> gerror option) go" where
  "shm_ReadAt OS s p off w =
     (if off < 0 \<or> add64 off (int (length p)) > sh_size s then Ok (p, 0, Some (Errorf ''backend: ReadAt out of range: off=''))
      else case copyOut OS (sh_mem s) p off w of Ok (p', n) \<Rightarrow> Ok (p', n, None) | Panic c \<Rightarrow> Panic c)"

definition shm_WriteAt :: "'w os \<Rightarrow> shm_handle \<Rightarrow> byte list \<Rightarrow> int64 \<Rightarrow> 'w \<Rightarrow> (int64 \<times> gerror option) go \<times> 'w" where
  "shm_WriteAt OS s p off w =
     (if off < 0 \<or> add64 off (int (length p)) > sh_size s then (Ok (0, Some (Errorf ''backend: WriteAt out of range: off='')), w)
      else case copyIn OS (sh_mem s) p off w of (Ok n, w') \<Rightarrow> (Ok (n, None), w') | (Panic c, w') \<Rightarrow> (Panic c, w'))"

definition shm_Size :: "shm_handle \<Rightarrow> 'w \<Rightarrow> int64" where
  "shm_Size s w = sh_size s"

definition os_IsNotExist :: "gerror \<Rightarrow> bool" where
  "os_IsNotExist err \<longleftrightarrow> err = ENOENT"

definition shm_Close :: "'w os \<Rightarrow> shm_handle \<Rightarrow> 'w \<Rightarrow> gerror option go \<times> 'w" where
  "shm_Close OS s w =
     (case Munmap OS (handle (sh_mem s)) w of
        (Some err, w) \<Rightarrow> (Ok (Some (ErrorfW ''backend: munmap: '' err)), w)
      | (None, w) \<Rightarrow>
          if sh_owns s then (case RemoveFile OS (sh_path s) w of
              (Some err, w) \<Rightarrow>
                if \<not> os_IsNotExist err then (Ok (Some (ErrorfW ''backend: remove '' err)), w) else (Ok None, w)
            | (None, w) \<Rightarrow> (Ok None, w))
          else (Ok None, w))"

definition shm_Wait :: "'w os \<Rightarrow> shm_handle \<Rightarrow> int64 \<Rightarrow> u32 \<Rightarrow> duration \<Rightarrow> ('w, unit) prog" where
  "shm_Wait OS s off old timeout =
     pbind (query (\<lambda>_. wordAt (sh_mem s) off)) (\<lambda>word. futexWaitWord OS (sh_mem s) word old timeout)"

definition shm_Wake :: "'w os \<Rightarrow> shm_handle \<Rightarrow> int64 \<Rightarrow> 'w \<Rightarrow> unit go \<times> 'w" where
  "shm_Wake OS s off w =
     (case wordAt (sh_mem s) off of Ok word \<Rightarrow> (Ok (), futexWakeWord OS (sh_mem s) word w) | Panic c \<Rightarrow> (Panic c, w))"

definition shm_storage :: "'w os \<Rightarrow> shm_handle \<Rightarrow> 'w storage" where
  "shm_storage OS s =
     \<lparr>ReadAt = shm_ReadAt OS s, WriteAt = shm_WriteAt OS s, Size = shm_Size s, CloseOp = shm_Close OS s,
      AtomicStorage = None, WaiterStorage = Some \<lparr>Wait = shm_Wait OS s, Wake = shm_Wake OS s\<rparr>\<rparr>"

lemma shm_storage_simps [simp]:
  "ReadAt (shm_storage OS s) = shm_ReadAt OS s" "WriteAt (shm_storage OS s) = shm_WriteAt OS s"
  "Size (shm_storage OS s) = shm_Size s" "CloseOp (shm_storage OS s) = shm_Close OS s"
  "AtomicStorage (shm_storage OS s) = None"
  "WaiterStorage (shm_storage OS s) = Some \<lparr>Wait = shm_Wait OS s, Wake = shm_Wake OS s\<rparr>"
  by (simp_all add: shm_storage_def)


section \<open>The contract\<close>

text \<open>A storage whose slice is a mapping that keeps its own contract keeps the ring's.\<close>

locale shm_mapping = mapped_memory +
  fixes s :: shm_handle
  assumes mem_s: "sh_mem s = \<lparr>handle = m, slen = len\<rparr>"
    and size_s: "sh_size s = int len"

sublocale shm_mapping \<subseteq> ring_storage "shm_storage OS s" data live
proof (unfold_locales, unfold shm_storage_simps, goal_cases)
  case (1 w)
  then show ?case by (simp add: shm_Size_def size_s length_data)
next
  case (2 w)
  then show ?case using len_bound [OF 2] by (simp add: length_data)
next
  case (3 w p i)
  then have "add64 (int i) (int (length p)) = int (i + length p)" "i + length p \<le> len"
    using len_bound [OF 3(1)] by (simp_all add: length_data add64_nat)
  with 3 copyOut_ok [OF 3(1,2), of i] show ?case
    by (simp add: shm_ReadAt_def mem_s size_s)
next
  case (4 w p i)
  then have "add64 (int i) (int (length p)) = int (i + length p)" "i + length p \<le> len"
    using len_bound [OF 4(1)] by (simp_all add: length_data add64_nat)
  with 4 copyIn_ok [OF 4(1,2), of i] show ?case
    by (auto simp: shm_WriteAt_def mem_s size_s)
next
  case (7 u w i)
  then show ?case using wordAt_ok [of i] futexWake_ok [OF 7(2), of i]
    by (auto simp: shm_Wake_def mem_s length_data)
next
  case (8 u w i v d)
  then show ?case using quiet_futexWait [of i v d] by (auto simp: shm_Wait_def mem_s length_data)
qed auto

context shm_mapping
begin

lemma lawful: "ring_storage (shm_storage OS s) data live"
  by (rule ring_storage_axioms)

end

sublocale shm_mapping \<subseteq> checked_storage "shm_storage OS s" data live
proof (unfold_locales, unfold shm_storage_simps, goal_cases)
  case (1 w p i)
  then have "add64 (int i) (int (length p)) = int (i + length p)" by (intro add64_nat) simp
  with 1 show ?case by (simp add: shm_ReadAt_def size_s length_data)
qed

abbreviation shm_of :: "nat \<Rightarrow> int64 \<Rightarrow> bool \<Rightarrow> string \<Rightarrow> shm_handle" where
  "shm_of m sz own path \<equiv>
     \<lparr>sh_mem = \<lparr>handle = m, slen = nat sz\<rparr>, sh_size = sz, sh_owns = own, sh_path = path\<rparr>"

text \<open>The mappings that \<open>kernel_os\<close> hands out.\<close>

interpretation kernel_shm: shm_mapping kernel_os m len "\<lambda>k. k_file k ino"
    "backed k_dir k_file k_fd k_map (insert m ms) ino len k0"
    "\<lparr>sh_mem = \<lparr>handle = m, slen = len\<rparr>, sh_size = int len, sh_owns = own, sh_path = path\<rparr>"
  for m ms ino len k0 own path
  by unfold_locales simp_all


section \<open>Creating and opening\<close>

lemma valid_size: "validateShmSize sz = None \<longleftrightarrow> 0 < sz \<and> sz < 2 ^ 31"
  by (auto simp: validateShmSize_def maxInt32_def)

text \<open>The system calls behind a \<^verbatim>\<open>CreateShm\<close> and an \<^verbatim>\<open>OpenShm\<close> that succeed.\<close>

lemma create_calls:
  assumes "run (backend_CreateShm OS name sz) w = (Done (Inr s), w')"
  obtains path f w1 w2 n m w3 r where "validateShmSize sz = None" "shmPath name = Inr path"
    "OpenFile OS path True w = (Inr f, w1)" "Truncate OS f sz w1 = (None, w2)" "StatSize OS f w2 = Inr n" "sz \<le> n"
    "Mmap OS f sz w2 = (Inr m, w3)" "CloseFd OS f w3 = (r, w')" "s = shm_of m sz True path"
  using assms
  by (auto simp: backend_CreateShm_def mapShm_def run_sys run_probe run_pbind Let_def not_less prod_eq_iff
      split: option.splits sum.splits if_splits prod.splits)

lemma open_calls:
  assumes "run (backend_OpenShm OS name sz) w = (Done (Inr s), w')"
  obtains path f w1 n m w2 r where "validateShmSize sz = None" "shmPath name = Inr path"
    "OpenFile OS path False w = (Inr f, w1)" "StatSize OS f w1 = Inr n" "sz \<le> n"
    "Mmap OS f sz w1 = (Inr m, w2)" "CloseFd OS f w2 = (r, w')" "s = shm_of m sz False path"
  using assms
  by (auto simp: backend_OpenShm_def mapShm_def run_sys run_probe run_pbind Let_def not_less prod_eq_iff
      split: option.splits sum.splits if_splits prod.splits)

context posix
begin

lemma shm_live:
  assumes "m \<in> ms" "nat sz = len" "0 \<le> sz"
  shows "ring_storage (shm_storage OS (shm_of m sz own path)) (\<lambda>w. bytes w ino) (backed dir bytes fds maps ms ino len w0)"
proof -
  have "shm_mapping OS m len (\<lambda>w. bytes w ino) (backed dir bytes fds maps ms ino len w0) (shm_of m sz own path)"
    using mapped [OF assms(1)] assms(2,3) by (intro shm_mapping.intro shm_mapping_axioms.intro) auto
  then show ?thesis by (rule shm_mapping.lawful)
qed

lemma create_ok:
  assumes "run (backend_CreateShm OS name sz) w = (Done (Inr s), w')"
  obtains path m ino where "validateShmSize sz = None" "shmPath name = Inr path" "s = shm_of m sz True path"
    "dir w' path = Some ino" "length (bytes w' ino) = nat sz" "maps w m = None"
    "maps w' = (maps w)(m \<mapsto> (ino, nat sz))" "\<And>i. dir w path = Some i \<Longrightarrow> ino = i"
proof -
  obtain path f w1 w2 n m w3 r where calls: "validateShmSize sz = None" "shmPath name = Inr path"
    "OpenFile OS path True w = (Inr f, w1)" "Truncate OS f sz w1 = (None, w2)" "StatSize OS f w2 = Inr n" "sz \<le> n"
    "Mmap OS f sz w2 = (Inr m, w3)" "CloseFd OS f w3 = (r, w')" "s = shm_of m sz True path"
    using create_calls [OF assms] by metis
  have sz: "0 < sz" using calls(1) by (simp add: valid_size)
  obtain ino where w1: "fds w1 f = Some ino" "dir w1 path = Some ino" "maps w1 = maps w" "\<And>i. dir w path = Some i \<Longrightarrow> ino = i"
    using open_old [OF calls(3)] open_new [OF calls(3)] by (cases "dir w path") auto
  from truncate [OF calls(4) w1(1)] mmap [OF calls(7), of ino] close_fd [OF calls(8)] w1 sz
  show ?thesis by (intro that [OF calls(1,2,9), of ino]) (auto simp: less_imp_le)
qed

lemma open_ok:
  assumes "run (backend_OpenShm OS name sz) w = (Done (Inr s), w')"
  obtains path m ino where "validateShmSize sz = None" "shmPath name = Inr path" "s = shm_of m sz False path"
    "dir w path = Some ino" "sz \<le> int (length (bytes w ino))" "dir w' = dir w" "bytes w' = bytes w"
    "maps w' = (maps w)(m \<mapsto> (ino, nat sz))"
proof -
  obtain path f w1 n m w2 r where calls: "validateShmSize sz = None" "shmPath name = Inr path"
    "OpenFile OS path False w = (Inr f, w1)" "StatSize OS f w1 = Inr n" "sz \<le> n"
    "Mmap OS f sz w1 = (Inr m, w2)" "CloseFd OS f w2 = (r, w')" "s = shm_of m sz False path"
    using open_calls [OF assms] by metis
  have sz: "0 < sz" using calls(1) by (simp add: valid_size)
  obtain ino where w1: "dir w path = Some ino" "fds w1 f = Some ino" "dir w1 = dir w" "bytes w1 = bytes w" "maps w1 = maps w"
    using open_old [OF calls(3)] open_new [OF calls(3)] by (cases "dir w path") auto
  from stat [OF calls(4) w1(2)] mmap [OF calls(6) w1(2)] close_fd [OF calls(7)] w1 sz calls(5)
  show ?thesis by (intro that [OF calls(1,2,8), of ino]) auto
qed

end


section \<open>Properties\<close>

text \<open>
  C26: opening a segment that is not long enough yet. Whatever the operating system does,
  once the file is open and its length known, \<^verbatim>\<open>OpenShm\<close> maps it only if it is at least as
  long as asked for; a shorter one gives an error that \<^verbatim>\<open>errors.Is\<close> recognises as
  \<^verbatim>\<open>ErrIncompleteSegment\<close>, with nothing mapped, nothing removed and the file closed.
\<close>

theorem OpenShm_checks_length:
  assumes "validateShmSize sz = None" "shmPath name = Inr path"
    and "OpenFile OS path False w = (Inr f, w1)" "StatSize OS f w1 = Inr n"
  shows "run (backend_OpenShm OS name sz) w =
    (if n < sz then (Done (Inl (ErrorfW ''backend: '' ErrIncompleteSegment)), snd (CloseFd OS f w1))
     else case Mmap OS f sz w1 of
         (Inl e, w2) \<Rightarrow> (Done (Inl (ErrorfW ''backend: mmap '' e)), snd (CloseFd OS f w2))
       | (Inr m, w2) \<Rightarrow> (Done (Inr (shm_of m sz False path)), snd (CloseFd OS f w2))) \<and>
    errors_Is (ErrorfW ''backend: '' ErrIncompleteSegment) ErrIncompleteSegment"
  using assms by (auto simp: backend_OpenShm_def mapShm_def run_sys run_probe run_pbind Let_def
      split: prod.split sum.split)

definition kernel_with_file :: "nat \<Rightarrow> kernel" where
  "kernel_with_file n = kernel0\<lparr>k_dir := [''/dev/shm/x'' \<mapsto> 0], k_file := (\<lambda>_. replicate n 7)\<rparr>"

theorem OpenShm_checks_length_witness:
  "\<exists>k. run (backend_OpenShm kernel_os ''x'' 80) (kernel_with_file 0) =
    (Done (Inl (ErrorfW ''backend: '' ErrIncompleteSegment)), k)"
  using OpenShm_checks_length [of 80 "''x''" "''/dev/shm/x''" kernel_os "kernel_with_file 0" 3
      "snd (k_OpenFile ''/dev/shm/x'' False (kernel_with_file 0))" 0]
  by (simp add: valid_size shmPath_def kernel_with_file_def kernel0_def k_OpenFile_def k_StatSize_def Let_def)

text \<open>
  So no consumer is killed by a fault: on every system that keeps the laws, from any
  state, the storage \<^verbatim>\<open>OpenShm\<close> returns is backed over its whole size, and every in-range read
  returns the file's bytes, whatever the name, the size and the file that was there.
\<close>

theorem OpenShm_no_fault:
  assumes "posix OS dir bytes fds maps page" "run (backend_OpenShm OS name sz) w = (Done (Inr s), w')"
    and "p \<noteq> []" "int i + int (length p) \<le> sz"
  shows "\<exists>path ino. shmPath name = Inr path \<and> dir w path = Some ino \<and>
    shm_ReadAt OS s p (int i) w' = Ok (slice (bytes w ino) i (length p), int (length p), None)"
proof -
  obtain path m ino where o: "validateShmSize sz = None" "shmPath name = Inr path" "s = shm_of m sz False path"
      "dir w path = Some ino" "sz \<le> int (length (bytes w ino))" "bytes w' = bytes w"
      "maps w' = (maps w)(m \<mapsto> (ino, nat sz))"
    using posix.open_ok [OF assms(1,2)] by metis
  have add: "add64 (int i) (int (length p)) = int i + int (length p)"
    using o(1) assms(4) by (intro add64_id) (simp add: is_int64_def valid_size)
  have "Load OS m i (length p) w' = Some (slice (bytes w ino) i (length p))"
    using posix.load [OF assms(1), of w' m ino "nat sz" "length p" i] o(5-7) assms(3,4) by (simp add: le_nat_iff)
  then show ?thesis using o(2-4) assms(3,4) add by (simp add: shm_ReadAt_def copyOut_def)
qed

theorem OpenShm_no_fault_witness:
  "\<exists>s k. run (backend_OpenShm kernel_os ''x'' 80) (kernel_with_file 81) = (Done (Inr s), k) \<and>
    shm_ReadAt kernel_os s [0, 0] 78 k = Ok ([7, 7], 2, None)"
proof -
  obtain s k where run: "run (backend_OpenShm kernel_os ''x'' 80) (kernel_with_file 81) = (Done (Inr s), k)"
    by (simp add: backend_OpenShm_def mapShm_def run_sys run_probe run_pbind validateShmSize_def maxInt32_def shmPath_def
        kernel_with_file_def kernel0_def k_OpenFile_def k_StatSize_def k_Mmap_def Let_def)
  from OpenShm_no_fault [OF kernel.posix_axioms run, of "[0, 0]" 78]
  have "shm_ReadAt kernel_os s [0, 0] 78 k = Ok ([7, 7], 2, None)"
    by (auto simp: kernel_with_file_def shmPath_def slice_def eval_nat_numeral split: if_splits)
  with run show ?thesis by blast
qed

text \<open>
  C27: a creation that fails leaves no segment behind: for any operating system, if \<^verbatim>\<open>CreateShm\<close>
  returns an error after the file has been opened (so from \<^verbatim>\<open>ftruncate\<close>, \<^verbatim>\<open>fstat\<close>, a short
  file or \<^verbatim>\<open>mmap\<close>), its last two calls are the removal of the path and the closing of the file.
\<close>

theorem CreateShm_failure_removes:
  assumes "run (backend_CreateShm OS name sz) w = (Done (Inl e), w')"
    and "shmPath name = Inr path" "validateShmSize sz = None" "OpenFile OS path True w = (Inr f, w1)"
  shows "\<exists>w2. w' = snd (CloseFd OS f (snd (RemoveFile OS path w2)))"
  using assms
  by (auto simp: backend_CreateShm_def mapShm_def run_sys run_probe run_pbind Let_def
      split: option.splits sum.splits if_splits prod.splits) 

text \<open>An operating system that is the small Linux with no memory left for mappings.\<close>

definition full_os :: "kernel os" where
  "full_os = kernel_os\<lparr>Mmap := (\<lambda>fd sz k. (Inl (Errno 12), k))\<rparr>"

theorem CreateShm_failure_removes_witness:
  "\<exists>e k k2. run (backend_CreateShm full_os ''x'' 80) kernel0 = (Done (Inl e), k) \<and>
    k = snd (k_CloseFd 3 (snd (k_RemoveFile ''/dev/shm/x'' k2))) \<and> k_dir k ''/dev/shm/x'' = None"
proof -
  obtain k where run: "run (backend_CreateShm full_os ''x'' 80) kernel0 =
      (Done (Inl (ErrorfW ''backend: mmap '' (Errno 12))), k)" and "k_dir k ''/dev/shm/x'' = None"
    by (simp add: backend_CreateShm_def mapShm_def run_sys run_probe run_pbind full_os_def
        validateShmSize_def maxInt32_def shmPath_def kernel0_def k_OpenFile_def k_Truncate_def k_StatSize_def k_RemoveFile_def k_CloseFd_def Let_def)
  moreover obtain w1 where "OpenFile full_os ''/dev/shm/x'' True kernel0 = (Inr 3, w1)"
    by (simp add: full_os_def k_OpenFile_def kernel0_def Let_def)
  ultimately show ?thesis
    using CreateShm_failure_removes [OF run, of "''/dev/shm/x''" 3 w1]
    by (simp add: valid_size shmPath_def full_os_def)
qed

text \<open>
  C33: \<^verbatim>\<open>CreateShm\<close> is documented to create a new segment but opens an existing one of the
  name and cuts it to the new size, under the feet of whoever has it mapped: on every system
  that keeps the laws, after a successful \<^verbatim>\<open>CreateShm\<close> of a smaller segment of the same name, an
  in-range read of the other process's storage beyond the new last page faults and kills it.
\<close>

theorem CreateShm_cuts_live_segment:
  assumes "posix OS dir bytes fds maps page" "run (backend_CreateShm OS name sz) w = (Done (Inr s), w')"
    and "shmPath name = Inr path" "dir w path = Some ino" "maps w m = Some (ino, nat old)" "old < 2 ^ 31"
    and "p \<noteq> []" "int i + int (length p) \<le> old" "page_end page (nat sz) < i + length p"
  shows "shm_ReadAt OS (shm_of m old False path) p (int i) w' = Panic MemoryFault"
proof -
  obtain m' where c: "length (bytes w' ino) = nat sz" "maps w m' = None" "maps w' = (maps w)(m' \<mapsto> (ino, nat sz))"
    using posix.create_ok [OF assms(1,2)] assms(3,4) by (metis sum.inject(2))
  then have "maps w' m = Some (ino, nat old)" using assms(5) by auto
  then have "Load OS m i (length p) w' = None"
    using posix.load_past_end [OF assms(1), of w' m ino "nat old" "length p" i] c(1) assms(7,9) by simp
  moreover have "add64 (int i) (int (length p)) = int i + int (length p)"
    using assms(6,8) by (intro add64_id) (simp add: is_int64_def)
  ultimately show ?thesis using assms(7,8) by (simp add: shm_ReadAt_def copyOut_def)
qed

theorem CreateShm_cuts_live_segment_witness:
  "\<exists>s k'. run (backend_CreateShm kernel_os ''x'' 80)
      ((kernel_with_file 8256)\<lparr>k_map := [1 \<mapsto> (0, 8256)]\<rparr>) = (Done (Inr s), k') \<and>
    shm_ReadAt kernel_os (shm_of 1 8256 False ''/dev/shm/x'') [0] 5000 k' = Panic MemoryFault"
proof -
  obtain s k' where run: "run (backend_CreateShm kernel_os ''x'' 80)
      ((kernel_with_file 8256)\<lparr>k_map := [1 \<mapsto> (0, 8256)]\<rparr>) = (Done (Inr s), k')"
    by (simp add: backend_CreateShm_def mapShm_def run_sys run_probe run_pbind validateShmSize_def maxInt32_def shmPath_def
        kernel_with_file_def kernel0_def k_OpenFile_def k_Truncate_def k_StatSize_def k_Mmap_def Let_def)
  have "shm_ReadAt kernel_os (shm_of 1 8256 False ''/dev/shm/x'') [0] (int 5000) k' = Panic MemoryFault"
    by (rule CreateShm_cuts_live_segment [OF kernel.posix_axioms run, where ino = 0])
      (simp_all add: shmPath_def kernel_with_file_def kernel0_def page_end_def)
  with run show ?thesis by auto
qed

end
