(* ===== verification/ShmPort.thy ===== *)
theory ShmPort
  imports Os
begin

text \<open>
  \<^verbatim>\<open>backend/shm.go\<close>: the macOS and Windows storage, a thin layer over the package
  \<^verbatim>\<open>github.com/hidez8891/shm\<close>. That package is not part of the repository; the record
  \<open>hshm\<close> lists the functions of it that are called, and a \<^verbatim>\<open>*shm.Memory\<close> is a handle.
\<close>

record 'w hshm =
  h_Create :: "string \<Rightarrow> int64 \<Rightarrow> 'w \<Rightarrow> (gerror + nat) \<times> 'w"
  h_Open :: "string \<Rightarrow> int64 \<Rightarrow> 'w \<Rightarrow> (gerror + nat) \<times> 'w"
  h_ReadAt :: "nat \<Rightarrow> byte list \<Rightarrow> int64 \<Rightarrow> 'w \<Rightarrow> (byte list \<times> int64 \<times> gerror option) go"
  h_WriteAt :: "nat \<Rightarrow> byte list \<Rightarrow> int64 \<Rightarrow> 'w \<Rightarrow> (int64 \<times> gerror option) go \<times> 'w"
  h_Close :: "nat \<Rightarrow> 'w \<Rightarrow> gerror option go \<times> 'w"

record port_handle =
  ph_mem :: nat
  ph_size :: int64

definition port_validateShmSize :: "int64 \<Rightarrow> gerror option" where
  "port_validateShmSize sz =
     (if sz \<le> 0 then Some (Errorf ''backend: size must be positive, got '')
      else if sz > 2 ^ 31 - 1 then Some (Errorf ''backend: size '')
      else None)"

text \<open>\<^verbatim>\<open>int32(size)\<close>\<close>

definition to_int32 :: "int64 \<Rightarrow> int" where
  "to_int32 x = signed_take_bit 31 x"

definition port_CreateShm :: "'w hshm \<Rightarrow> string \<Rightarrow> int64 \<Rightarrow> ('w, gerror + port_handle) prog" where
  "port_CreateShm H name sz =
     (case port_validateShmSize sz of
        Some err \<Rightarrow> Return (Inl err)
      | None \<Rightarrow> pbind (sys (h_Create H name (to_int32 sz))) (\<lambda>r. case r of
            Inl err \<Rightarrow> Return (Inl (ErrorfW ''backend: create shared memory '' err))
          | Inr m \<Rightarrow> Return (Inr \<lparr>ph_mem = m, ph_size = sz\<rparr>)))"

definition port_OpenShm :: "'w hshm \<Rightarrow> string \<Rightarrow> int64 \<Rightarrow> ('w, gerror + port_handle) prog" where
  "port_OpenShm H name sz =
     (case port_validateShmSize sz of
        Some err \<Rightarrow> Return (Inl err)
      | None \<Rightarrow> pbind (sys (h_Open H name (to_int32 sz))) (\<lambda>r. case r of
            Inl err \<Rightarrow> Return (Inl (ErrorfW ''backend: open shared memory '' err))
          | Inr m \<Rightarrow> Return (Inr \<lparr>ph_mem = m, ph_size = sz\<rparr>)))"

definition port_ReadAt :: "'w hshm \<Rightarrow> port_handle \<Rightarrow> byte list \<Rightarrow> int64 \<Rightarrow> 'w \<Rightarrow> (byte list \<times> int64 \<times> gerror option) go" where
  "port_ReadAt H s p off w = h_ReadAt H (ph_mem s) p off w"

definition port_WriteAt :: "'w hshm \<Rightarrow> port_handle \<Rightarrow> byte list \<Rightarrow> int64 \<Rightarrow> 'w \<Rightarrow> (int64 \<times> gerror option) go \<times> 'w" where
  "port_WriteAt H s p off w = h_WriteAt H (ph_mem s) p off w"

definition port_Size :: "port_handle \<Rightarrow> 'w \<Rightarrow> int64" where
  "port_Size s w = ph_size s"

definition port_Close :: "'w hshm \<Rightarrow> port_handle \<Rightarrow> 'w \<Rightarrow> gerror option go \<times> 'w" where
  "port_Close H s w = h_Close H (ph_mem s) w"

definition port_storage :: "'w hshm \<Rightarrow> port_handle \<Rightarrow> 'w storage" where
  "port_storage H s =
     \<lparr>ReadAt = port_ReadAt H s, WriteAt = port_WriteAt H s, Size = port_Size s, CloseOp = port_Close H s,
      AtomicStorage = None, WaiterStorage = None\<rparr>"

text \<open>Every size that passes the check survives the conversion to the package's 32-bit sizes.\<close>

lemma to_int32_valid: "port_validateShmSize sz = None \<Longrightarrow> to_int32 sz = sz"
  by (auto simp: port_validateShmSize_def to_int32_def split: if_splits
      intro!: signed_take_bit_int_eq_self)


section \<open>Properties\<close>

text \<open>
  The macOS and Windows storage never passes the library a truncated size: a size that
  does not fit in an \<^verbatim>\<open>int32\<close>, or is not positive, is refused before any call; any other
  reaches \<^verbatim>\<open>shm.Create\<close> unchanged, its failure is wrapped and its success gives a storage
  that reports exactly the size asked for.
\<close>

theorem port_CreateShm_size:
  "run (port_CreateShm H name sz) w =
    (if 0 < sz \<and> sz < 2 ^ 31 then
       (case h_Create H name sz w of
          (Inl e, w') \<Rightarrow> (Done (Inl (ErrorfW ''backend: create shared memory '' e)), w')
        | (Inr m, w') \<Rightarrow> (Done (Inr \<lparr>ph_mem = m, ph_size = sz\<rparr>), w'))
     else (Done (Inl (Errorf (if sz \<le> 0 then ''backend: size must be positive, got '' else ''backend: size ''))), w))"
proof (cases "port_validateShmSize sz")
  case None
  then have "0 < sz" "sz < 2 ^ 31" by (auto simp: port_validateShmSize_def split: if_splits)
  with None to_int32_valid [OF None] show ?thesis
    by (auto simp: port_CreateShm_def run_sys run_pbind split: prod.split sum.split)
next
  case (Some e)
  then show ?thesis by (auto simp: port_CreateShm_def port_validateShmSize_def split: if_splits)
qed

end
