(* ===== verification/Spsc.thy ===== *)
theory Spsc
  imports Session
begin

text \<open>
  One Writer and one Reader over one storage, each in its own thread: their storage
  accesses interleave arbitrarily. The history of a run is what has been published and
  what has been consumed; \<open>spsc_inv\<close> ties it to the region. \<open>writer_step\<close> and \<open>reader_step\<close>
  say what either side may do to the region in one step; each operation is shown, in the
  logic of \<^verbatim>\<open>RelyGuarantee\<close>, to make only its own side's steps and to be correct whatever
  steps the other side takes in between.

  \<open>A\<close> is a property that the Writer maintains of the stream: whether it has been closed, and
  what has been published of it. Where the storage
  counts wake-ups (\<open>wk\<close>), the history also has a debt of each side: it has stored a counter and
  has not yet woken the other side, which may be asleep on it.
\<close>

record hist =
  produced :: "byte list"
  consumed :: "byte list"
  wdebt :: bool
  rdebt :: bool

definition spsc_inv ::
  "('w \<Rightarrow> byte list) \<Rightarrow> ('w \<Rightarrow> bool) \<Rightarrow> (bool \<Rightarrow> byte list \<Rightarrow> bool) \<Rightarrow> nat \<Rightarrow> 'w \<Rightarrow> hist \<Rightarrow> bool" where
  "spsc_inv data live A cap w g \<longleftrightarrow> live w \<and> ring_ok cap (data w) \<and> A (ring_closed (data w)) (produced g) \<and>
     produced g = consumed g @ contents cap (data w)"

text \<open>
  One side's part in waking the other: a counter that it owes a wake-up for, or changes, is
  woken after that or still owed one.
\<close>

definition pays :: "('w \<Rightarrow> nat \<Rightarrow> nat) option \<Rightarrow> nat \<Rightarrow> bool \<Rightarrow> 'w \<Rightarrow> 'w \<Rightarrow> bool \<Rightarrow> bool" where
  "pays wk off owed w w' owes \<longleftrightarrow> (\<forall>f. wk = Some f \<longrightarrow>
     (\<forall>i. f w i \<le> f w' i) \<and> (owed \<longrightarrow> owes \<or> f w off < f w' off))"

lemma pays_None [simp]: "pays None off a w w' b"
  by (simp add: pays_def)

lemma pays_trans:
  assumes "pays wk off (d0 \<or> t1 \<noteq> t0) w0 w1 d1" "pays wk off (d1 \<or> t2 \<noteq> t1) w1 w2 d2"
  shows "pays wk off (d0 \<or> t2 \<noteq> t0) w0 w2 d2"
  unfolding pays_def
proof (intro allI impI conjI)
  fix f assume f: "wk = Some f"
  then have le: "f w0 i \<le> f w1 i" "f w1 i \<le> f w2 i" for i using assms by (auto simp: pays_def)
  then show "f w0 i \<le> f w2 i" for i by (meson order_trans)
  assume "d0 \<or> t2 \<noteq> t0"
  then have "d0 \<or> t1 \<noteq> t0 \<or> t2 \<noteq> t1" by auto
  with f assms le [of off] show "d2 \<or> f w0 off < f w2 off"
    by (auto simp: pays_def) (meson le_less_trans less_le_trans)+
qed

lemma pays_same: "same_wakes wk w w' \<Longrightarrow> (a \<longrightarrow> b) \<Longrightarrow> pays wk off a w w' b"
  and pays_later: "same_wakes wk w w' \<Longrightarrow> pays wk off a w w' (\<exists>f. wk = Some f)"
  and pays_woken: "woken wk off w w' \<Longrightarrow> pays wk off a w w' b"
  and pays_nothing: "woken wk i w w' \<Longrightarrow> pays wk off False w w' b"
  by (auto simp: pays_def same_wakes_def woken_def)

text \<open>
  How often it may do so: once for each counter that it stores, and it stores one only to make
  \<open>n\<close>, the bytes that it has published or consumed, larger.
\<close>

definition spends :: "('w \<Rightarrow> nat \<Rightarrow> nat) option \<Rightarrow> nat \<Rightarrow> bool \<Rightarrow> nat \<Rightarrow> 'w \<Rightarrow> 'w \<Rightarrow> bool \<Rightarrow> nat \<Rightarrow> bool" where
  "spends wk off owed n w w' owes n' \<longleftrightarrow> (\<forall>f. wk = Some f \<longrightarrow>
     f w' off + of_bool owes + n \<le> f w off + of_bool owed + n')"

lemma spends_trans: "spends wk off d0 n0 w0 w1 d1 n1 \<Longrightarrow> spends wk off d1 n1 w1 w2 d2 n2 \<Longrightarrow> spends wk off d0 n0 w0 w2 d2 n2"
  unfolding spends_def by (fastforce)

lemma spends_same: "same_wakes wk w w' \<Longrightarrow> (d' \<Longrightarrow> d) \<Longrightarrow> n \<le> n' \<Longrightarrow> spends wk off d n w w' d' n'"
  and spends_later: "same_wakes wk w w' \<Longrightarrow> n < n' \<Longrightarrow> spends wk off d n w w' d' n'"
  and spends_woken: "woken wk off w w' \<Longrightarrow> spends wk off (\<exists>f. wk = Some f) n w w' False n"
  by (auto simp: spends_def same_wakes_def woken_def of_bool_def)

definition same_wake :: "('w \<Rightarrow> nat \<Rightarrow> nat) option \<Rightarrow> nat \<Rightarrow> 'w \<Rightarrow> 'w \<Rightarrow> bool" where
  "same_wake wk off w w' \<longleftrightarrow> (\<forall>f. wk = Some f \<longrightarrow> f w' off = f w off)"

lemma same_wake_trans: "same_wake wk off u v \<Longrightarrow> same_wake wk off v w \<Longrightarrow> same_wake wk off u w"
  and same_wakes_wake: "same_wakes wk w w' \<Longrightarrow> same_wake wk off w w'"
  and woken_same_wake: "woken wk i w w' \<Longrightarrow> off \<noteq> i \<Longrightarrow> same_wake wk off w w'"
  by (auto simp: same_wake_def same_wakes_def woken_def)

lemma no_waker [simp]: "same_wake None off w w'" "spends None off d n w w' d' n'"
  by (simp_all add: same_wake_def spends_def)

definition writer_step ::
  "('w \<Rightarrow> byte list) \<Rightarrow> ('w \<Rightarrow> bool) \<Rightarrow> ('w \<Rightarrow> nat \<Rightarrow> nat) option \<Rightarrow> (bool \<Rightarrow> byte list \<Rightarrow> bool) \<Rightarrow> nat \<Rightarrow> ('w, hist) interference" where
  "writer_step data live wk A cap = (\<lambda>(w, g) (w', g').
     spsc_inv data live A cap w g \<longrightarrow>
     spsc_inv data live A cap w' g' \<and> consumed g' = consumed g \<and>
     ring_head (data w') = ring_head (data w) \<and>
     (\<exists>c. contents cap (data w') = contents cap (data w) @ c) \<and>
     (ring_closed (data w) \<longrightarrow>
        ring_closed (data w') \<and> contents cap (data w') = contents cap (data w)) \<and>
     fixed (data w') = fixed (data w) \<and> rdebt g' = rdebt g \<and>
     pays wk offTail (wdebt g \<or> ring_tail (data w') \<noteq> ring_tail (data w)) w w' (wdebt g') \<and>
     (ring_closed (data w') \<or> spends wk offTail (wdebt g) (length (produced g)) w w' (wdebt g') (length (produced g'))) \<and>
     same_wake wk offHead w w')"

definition reader_step ::
  "('w \<Rightarrow> byte list) \<Rightarrow> ('w \<Rightarrow> bool) \<Rightarrow> ('w \<Rightarrow> nat \<Rightarrow> nat) option \<Rightarrow> (bool \<Rightarrow> byte list \<Rightarrow> bool) \<Rightarrow> nat \<Rightarrow> ('w, hist) interference" where
  "reader_step data live wk A cap = (\<lambda>(w, g) (w', g').
     spsc_inv data live A cap w g \<longrightarrow>
     spsc_inv data live A cap w' g' \<and> produced g' = produced g \<and>
     ring_tail (data w') = ring_tail (data w) \<and> ring_closed (data w') = ring_closed (data w) \<and>
     used (data w') \<le> used (data w) \<and>
     drop headerSize (data w') = drop headerSize (data w) \<and>
     fixed (data w') = fixed (data w) \<and> wdebt g' = wdebt g \<and>
     pays wk offHead (rdebt g \<or> ring_head (data w') \<noteq> ring_head (data w)) w w' (rdebt g') \<and>
     spends wk offHead (rdebt g) (length (consumed g)) w w' (rdebt g') (length (consumed g')) \<and>
     same_wake wk offTail w w')"

lemmas step_defs = writer_step_def reader_step_def

lemma reflp_writer_step: "reflp (writer_step data live wk A cap)"
  and reflp_reader_step: "reflp (reader_step data live wk A cap)"
  by (auto simp: step_defs same_wakes_def intro!: reflpI pays_same spends_same same_wakes_wake)

lemma transp_writer_step: "transp (writer_step data live wk A cap)"
  by (rule transpI) (auto simp: writer_step_def intro: pays_trans spends_trans same_wake_trans)

lemma transp_reader_step: "transp (reader_step data live wk A cap)"
  by (rule transpI) (auto simp: reader_step_def intro: pays_trans spends_trans same_wake_trans)

text \<open>The two guarantees compose: each is the other side's rely.\<close>

interpretation spsc: two_sided "reader_step data live wk A cap" "writer_step data live wk A cap"
    "writer_step data live wk A cap" "reader_step data live wk A cap"
  for data :: "'w \<Rightarrow> byte list" and live wk A cap
  by unfold_locales (simp_all add: reflp_writer_step reflp_reader_step transp_writer_step transp_reader_step)

lemma cells_same_data:
  assumes "drop headerSize d' = drop headerSize d" "headerSize \<le> length d" "headerSize \<le> length d'"
  shows "cells cap d' i n = cells cap d i n"
proof -
  have "d' ! (headerSize + j) = d ! (headerSize + j)" for j
    using assms by (metis nth_drop)
  then show ?thesis by (simp add: cells_def cell_def)
qed


section \<open>What each side knows\<close>

definition writer_knows ::
  "('w \<Rightarrow> byte list) \<Rightarrow> ('w \<Rightarrow> bool) \<Rightarrow> ('w \<Rightarrow> nat \<Rightarrow> nat) option \<Rightarrow> (bool \<Rightarrow> byte list \<Rightarrow> bool) \<Rightarrow> nat \<Rightarrow> 'w writer \<Rightarrow> byte list \<Rightarrow> byte list \<Rightarrow>
    'w \<Rightarrow> hist \<Rightarrow> bool" where
  "writer_knows data live wk A cap h pr st w g \<longleftrightarrow> spsc_inv data live A cap w g \<and>
     writer_inv cap (data w) h \<and> produced g = pr \<and> staged cap (data w) (length st) = st \<and> \<not> wdebt g"

definition reader_knows ::
  "('w \<Rightarrow> byte list) \<Rightarrow> ('w \<Rightarrow> bool) \<Rightarrow> ('w \<Rightarrow> nat \<Rightarrow> nat) option \<Rightarrow> (bool \<Rightarrow> byte list \<Rightarrow> bool) \<Rightarrow> nat \<Rightarrow> 'w reader \<Rightarrow> byte list \<Rightarrow> byte list \<Rightarrow>
    'w \<Rightarrow> hist \<Rightarrow> bool" where
  "reader_knows data live wk A cap h co xs w g \<longleftrightarrow> spsc_inv data live A cap w g \<and>
     reader_inv cap (data w) h \<and> consumed g = co \<and> take (length xs) (contents cap (data w)) = xs \<and> \<not> rdebt g"

lemma writer_knows_stable:
  "stable (reader_step data live wk A cap) (writer_knows data live wk A cap h pr st)"
  unfolding stable_def
proof (intro allI impI)
  fix w g w' g'
  assume k: "writer_knows data live wk A cap h pr st w g" and s: "reader_step data live wk A cap (w, g) (w', g')"
  then have st: "spsc_inv data live A cap w' g'" "produced g' = produced g"
      "ring_tail (data w') = ring_tail (data w)" "ring_closed (data w') = ring_closed (data w)"
      "used (data w') \<le> used (data w)" "drop headerSize (data w') = drop headerSize (data w)" "wdebt g' = wdebt g"
    by (auto simp: reader_step_def writer_knows_def)
  have ok: "ring_ok cap (data w)" "ring_ok cap (data w')"
    using k st(1) by (auto simp: writer_knows_def spsc_inv_def)
  then have "staged cap (data w') n = staged cap (data w) n" for n
    using cells_same_data [OF st(6)] by (simp add: staged_def st(3) ring_ok_def)
  moreover have "writer_inv cap (data w') h"
    using k by (intro writer_inv_mono [OF _ ok(2) st(3,4,5)]) (simp add: writer_knows_def)
  ultimately show "writer_knows data live wk A cap h pr st w' g'"
    using k st by (simp add: writer_knows_def)
qed

lemma take_append_prefix: "take (length xs) ys = xs \<Longrightarrow> take (length xs) (ys @ zs) = xs"
  by (metis append_assoc append_eq_conv_conj append_take_drop_id)

lemma reader_knows_stable:
  "stable (writer_step data live wk A cap) (reader_knows data live wk A cap h co xs)"
  unfolding stable_def
proof (intro allI impI)
  fix w g w' g'
  assume k: "reader_knows data live wk A cap h co xs w g" and s: "writer_step data live wk A cap (w, g) (w', g')"
  then obtain c where st: "spsc_inv data live A cap w' g'" "consumed g' = consumed g"
      "ring_head (data w') = ring_head (data w)" "contents cap (data w') = contents cap (data w) @ c" "rdebt g' = rdebt g"
    by (auto simp: writer_step_def reader_knows_def)
  have "reader_inv cap (data w') h"
    using k st(1) used_le_append [OF st(4)]
    by (intro reader_inv_mono [OF _ _ st(3)]) (auto simp: reader_knows_def spsc_inv_def)
  then show "reader_knows data live wk A cap h co xs w' g'"
    using k st by (simp add: reader_knows_def take_append_prefix del: take_append)
qed


lemma writer_knows_live: "writer_knows data live wk A cap h pr st w g \<Longrightarrow> live w"
  and reader_knows_live: "reader_knows data live wk A cap rh co xs w g \<Longrightarrow> live w"
  by (auto simp: writer_knows_def reader_knows_def spsc_inv_def)

lemma writer_knows_word:
  "writer_knows data live wk A cap h pr st w g \<Longrightarrow> i + 4 \<le> headerSize \<Longrightarrow> i + 4 \<le> length (data w)"
  and reader_knows_word:
  "reader_knows data live wk A cap rh co xs w g \<Longrightarrow> i + 4 \<le> headerSize \<Longrightarrow> i + 4 \<le> length (data w)"
  by (auto simp: writer_knows_def reader_knows_def spsc_inv_def ring_ok_def)

lemma word_offsets [simp]:
  "4 dvd offHead" "4 dvd offTail" "4 dvd offClosed"
  "offHead + 4 \<le> headerSize" "offTail + 4 \<le> headerSize" "offClosed + 4 \<le> headerSize"
  "offTail \<noteq> offHead" "offHead \<noteq> offTail" "offClosed \<noteq> offHead" "offClosed \<noteq> offTail"
  by (simp_all add: layout_defs)

text \<open>Between the store of its counter and the wake-up each side knows the same, and is in debt.\<close>

definition writer_owes ::
  "('w \<Rightarrow> byte list) \<Rightarrow> ('w \<Rightarrow> bool) \<Rightarrow> ('w \<Rightarrow> nat \<Rightarrow> nat) option \<Rightarrow> (bool \<Rightarrow> byte list \<Rightarrow> bool) \<Rightarrow> nat \<Rightarrow> 'w writer \<Rightarrow>
    byte list \<Rightarrow> 'w \<Rightarrow> hist \<Rightarrow> bool" where
  "writer_owes data live wk A cap h pr w g \<longleftrightarrow>
     writer_knows data live wk A cap h pr [] w (g\<lparr>wdebt := False\<rparr>) \<and> (wdebt g \<longleftrightarrow> wk \<noteq> None)"

definition reader_owes ::
  "('w \<Rightarrow> byte list) \<Rightarrow> ('w \<Rightarrow> bool) \<Rightarrow> ('w \<Rightarrow> nat \<Rightarrow> nat) option \<Rightarrow> (bool \<Rightarrow> byte list \<Rightarrow> bool) \<Rightarrow> nat \<Rightarrow> 'w reader \<Rightarrow>
    byte list \<Rightarrow> 'w \<Rightarrow> hist \<Rightarrow> bool" where
  "reader_owes data live wk A cap r co w g \<longleftrightarrow>
     reader_knows data live wk A cap r co [] w (g\<lparr>rdebt := False\<rparr>) \<and> (rdebt g \<longleftrightarrow> wk \<noteq> None)"

lemma spsc_inv_debt [simp]:
  "spsc_inv data live A cap w (g\<lparr>wdebt := b\<rparr>) = spsc_inv data live A cap w g"
  "spsc_inv data live A cap w (g\<lparr>rdebt := b\<rparr>) = spsc_inv data live A cap w g"
  by (simp_all add: spsc_inv_def)

lemma writer_owes_stable: "stable (reader_step data live wk A cap) (writer_owes data live wk A cap h pr)"
  unfolding stable_def
proof (intro allI impI)
  fix w g w' g'
  assume o: "writer_owes data live wk A cap h pr w g" and s: "reader_step data live wk A cap (w, g) (w', g')"
  then have "wdebt g' = wdebt g" by (simp add: writer_owes_def writer_knows_def reader_step_def)
  moreover have step: "reader_step data live wk A cap (w, g\<lparr>wdebt := False\<rparr>) (w', g'\<lparr>wdebt := False\<rparr>)"
    using s by (simp add: reader_step_def)
  have "writer_knows data live wk A cap h pr [] w' (g'\<lparr>wdebt := False\<rparr>)"
    by (rule stableD [OF writer_knows_stable _ step]) (use o in \<open>simp add: writer_owes_def\<close>)
  ultimately show "writer_owes data live wk A cap h pr w' g'"
    using o by (simp add: writer_owes_def)
qed

lemma reader_owes_stable: "stable (writer_step data live wk A cap) (reader_owes data live wk A cap r co)"
  unfolding stable_def
proof (intro allI impI)
  fix w g w' g'
  assume o: "reader_owes data live wk A cap r co w g" and s: "writer_step data live wk A cap (w, g) (w', g')"
  then have "rdebt g' = rdebt g" by (simp add: reader_owes_def reader_knows_def writer_step_def)
  moreover have step: "writer_step data live wk A cap (w, g\<lparr>rdebt := False\<rparr>) (w', g'\<lparr>rdebt := False\<rparr>)"
    using s by (simp add: writer_step_def)
  have "reader_knows data live wk A cap r co [] w' (g'\<lparr>rdebt := False\<rparr>)"
    by (rule stableD [OF reader_knows_stable _ step]) (use o in \<open>simp add: reader_owes_def\<close>)
  ultimately show "reader_owes data live wk A cap r co w' g'"
    using o by (simp add: reader_owes_def)
qed

lemma writer_owes_live: "writer_owes data live wk A cap h pr w g \<Longrightarrow> live w \<and> offTail + 4 \<le> length (data w)"
  and reader_owes_live: "reader_owes data live wk A cap r co w g \<Longrightarrow> live w \<and> offHead + 4 \<le> length (data w)"
  by (auto simp: writer_owes_def reader_owes_def dest: writer_knows_live reader_knows_live intro: writer_knows_word reader_knows_word)

text \<open>The wake-up pays the debt.\<close>

lemma writer_pays:
  assumes "writer_owes data live wk A cap h pr w g" "live w'" "data w' = data w" "woken wk offTail w w'"
  shows "writer_step data live wk A cap (w, g) (w', g\<lparr>wdebt := False\<rparr>)"
    and "writer_knows data live wk A cap h pr [] w' (g\<lparr>wdebt := False\<rparr>)"
  using assms by (auto simp: writer_owes_def writer_knows_def writer_step_def spsc_inv_def pays_woken
      intro: woken_same_wake spends_woken [where wk = "Some _"])

lemma reader_pays:
  assumes "reader_owes data live wk A cap r co w g" "live w'" "data w' = data w" "woken wk offHead w w'"
  shows "reader_step data live wk A cap (w, g) (w', g\<lparr>rdebt := False\<rparr>)"
    and "reader_knows data live wk A cap r co [] w' (g\<lparr>rdebt := False\<rparr>)"
  using assms by (auto simp: reader_owes_def reader_knows_def reader_step_def spsc_inv_def pays_woken
      intro: woken_same_wake spends_woken)

lemma no_debt:
  "writer_owes data live wk A cap h pr w g \<Longrightarrow> wk = None \<Longrightarrow> writer_knows data live wk A cap h pr [] w g"
  "reader_owes data live wk A cap r co w g \<Longrightarrow> wk = None \<Longrightarrow> reader_knows data live wk A cap r co [] w g"
  by (simp_all add: writer_owes_def reader_owes_def writer_knows_def reader_knows_def)

text \<open>A step that leaves the region as it is.\<close>

lemma writer_knows_same_data:
  assumes "writer_knows data live wk A cap h pr st w g" "live w'" "data w' = data w"
    and "same_wakes wk w w' \<or> woken wk i w w' \<and> i \<noteq> offHead \<and> w_closed h"
  shows "writer_step data live wk A cap (w, g) (w', g)" "writer_knows data live wk A cap h pr st w' g"
proof -
  have "pays wk offTail False w w' False" "same_wake wk offHead w w'"
    using assms(4) by (auto intro: pays_same pays_nothing same_wakes_wake woken_same_wake)
  moreover have "ring_closed (data w) \<or> spends wk offTail False (length pr) w w' False (length pr)"
    using assms(1,4) by (auto simp: writer_knows_def writer_inv_def intro: spends_same)
  ultimately show "writer_step data live wk A cap (w, g) (w', g)" "writer_knows data live wk A cap h pr st w' g"
    using assms(1-3) by (auto simp: writer_knows_def writer_step_def spsc_inv_def)
qed

lemma reader_knows_same_data:
  assumes "reader_knows data live wk A cap h co xs w g" "live w'" "data w' = data w" "same_wakes wk w w'"
  shows "reader_step data live wk A cap (w, g) (w', g)" "reader_knows data live wk A cap h co xs w' g"
  using assms by (auto simp: reader_knows_def reader_step_def spsc_inv_def intro: pays_same spends_same same_wakes_wake)


text \<open>
  Why a side goes to sleep: its cached copy of the other's counter says that there is nothing to
  do. A side that is asleep has paid its debt, and is right, or else the other side is in debt.
\<close>

definition sees_full :: "nat \<Rightarrow> 'w writer \<Rightarrow> bool" where
  "sees_full cap h \<longleftrightarrow> unat (w_tail h - w_cachedHead h) = cap"

definition sees_empty :: "'w reader \<Rightarrow> bool" where
  "sees_empty r \<longleftrightarrow> unat (r_cachedTail r - r_head r) = 0"

definition writer_asleep :: "('w \<Rightarrow> byte list) \<Rightarrow> ('w \<Rightarrow> nat \<Rightarrow> nat) option \<Rightarrow> nat \<Rightarrow> 'w \<Rightarrow> hist \<Rightarrow> bool" where
  "writer_asleep data wk cap w g \<longleftrightarrow> wk = None \<or> \<not> wdebt g \<and> (rdebt g \<or> used (data w) = cap)"

definition reader_asleep :: "('w \<Rightarrow> byte list) \<Rightarrow> ('w \<Rightarrow> nat \<Rightarrow> nat) option \<Rightarrow> nat \<Rightarrow> 'w \<Rightarrow> hist \<Rightarrow> bool" where
  "reader_asleep data wk cap w g \<longleftrightarrow> wk = None \<or> \<not> rdebt g \<and> (wdebt g \<or> used (data w) = 0)"

text \<open>What a program may be blocked on: that, or a condition that says its fuel is used up.\<close>

definition writer_waits ::
  "('w \<Rightarrow> byte list) \<Rightarrow> ('w \<Rightarrow> nat \<Rightarrow> nat) option \<Rightarrow> nat \<Rightarrow> ('w \<Rightarrow> bool) \<Rightarrow> 'w \<Rightarrow> hist \<Rightarrow> bool" where
  "writer_waits data wk cap b w g \<longleftrightarrow> hopeless b \<or> writer_asleep data wk cap w g"

definition reader_waits ::
  "('w \<Rightarrow> byte list) \<Rightarrow> ('w \<Rightarrow> nat \<Rightarrow> nat) option \<Rightarrow> nat \<Rightarrow> ('w \<Rightarrow> bool) \<Rightarrow> 'w \<Rightarrow> hist \<Rightarrow> bool" where
  "reader_waits data wk cap b w g \<longleftrightarrow> hopeless b \<or> reader_asleep data wk cap w g"

lemma waits_None: "writer_waits data None cap b w g" "reader_waits data None cap b w g"
  by (simp_all add: writer_waits_def reader_waits_def writer_asleep_def reader_asleep_def)

lemma waits_hopeless [simp]:
  "hopeless b \<Longrightarrow> writer_waits data wk cap b w g" "hopeless b \<Longrightarrow> reader_waits data wk cap b w g"
  by (simp_all add: writer_waits_def reader_waits_def)

lemma pays_asleep:
  assumes "pays wk off (d \<or> u32_at (data w) off \<noteq> u32_at (data u) off) u w d'" "asleep data wk off v u w"
  shows "wk = None \<or> d' \<or> u32_at (data w) off = v"
proof (cases wk)
  case (Some f)
  with assms(2) have "u32_at (data u) off = v" "\<not> f u off < f w off" by (auto simp: asleep_def)
  with assms(1) Some show ?thesis by (auto simp: pays_def)
qed simp

lemma writer_falls_asleep:
  assumes "writer_knows data live wk A cap h pr st u gu" "writer_knows data live wk A cap h pr st w g"
    and "reader_step data live wk A cap (u, gu) (w, g)" "asleep data wk offHead (w_cachedHead h) u w" "sees_full cap h"
  shows "writer_asleep data wk cap w g"
proof -
  have "pays wk offHead (rdebt gu \<or> u32_at (data w) offHead \<noteq> u32_at (data u) offHead) u w (rdebt g)"
    using assms(1,3) by (simp add: reader_step_def writer_knows_def ring_head_def)
  from pays_asleep [OF this assms(4)] assms(2,5) show ?thesis
    by (auto simp: writer_asleep_def writer_knows_def writer_inv_def used_def sees_full_def ring_head_def)
qed

lemma reader_falls_asleep:
  assumes "reader_knows data live wk A cap r co xs u gu" "reader_knows data live wk A cap r co xs w g"
    and "writer_step data live wk A cap (u, gu) (w, g)" "asleep data wk offTail (r_cachedTail r) u w" "sees_empty r"
  shows "reader_asleep data wk cap w g"
proof -
  have "pays wk offTail (wdebt gu \<or> u32_at (data w) offTail \<noteq> u32_at (data u) offTail) u w (wdebt g)"
    using assms(1,3) by (simp add: writer_step_def reader_knows_def ring_tail_def)
  from pays_asleep [OF this assms(4)] assms(2,5) show ?thesis
    by (auto simp: reader_asleep_def reader_knows_def reader_inv_def used_def sees_empty_def ring_tail_def)
qed


section \<open>The Writer's operations\<close>

lemma writer_inv_same_words:
  "writer_inv cap d h \<Longrightarrow> same_words d d' \<Longrightarrow> writer_inv cap d' h"
  by (rule writer_inv_mono) (auto simp: same_words_ring_ok same_words_used writer_inv_def,
      auto simp: same_words_def)

lemma writer_knows_staged:
  assumes "writer_knows data live wk A cap h pr st w g" "live w'" "same_words (data w) (data w')"
    and "contents cap (data w') = contents cap (data w)" "staged cap (data w') (length st') = st'"
    and "same_wakes wk w w'"
  shows "writer_step data live wk A cap (w, g) (w', g)" "writer_knows data live wk A cap h pr st' w' g"
proof -
  have "ring_ok cap (data w') = ring_ok cap (data w)" by (rule same_words_ring_ok [OF assms(3)])
  moreover have "ring_closed (data w') = ring_closed (data w)" using assms(3) by (simp add: same_words_def)
  ultimately show "writer_knows data live wk A cap h pr st' w' g"
    using assms writer_inv_same_words [OF _ assms(3)] by (auto simp: writer_knows_def spsc_inv_def)
  then show "writer_step data live wk A cap (w, g) (w', g)"
    using assms by (auto simp: writer_step_def writer_knows_def same_words_def
        intro: pays_same spends_same same_wakes_wake)
qed

context waking_storage
begin

lemma rg_write_chunk:
  assumes "writer_knows data live wk A cap h pr st w g"
    and "xs \<noteq> []" "length st + length xs \<le> cap - unat (w_tail h - w_cachedHead h)"
    and "t mod cap = (unat (w_tail h) + length st) mod cap" "t mod cap + length xs \<le> cap"
    and k: "\<And>w g. writer_knows data live wk A cap h pr (st @ xs) w g \<Longrightarrow>
      rg B (reader_step data live wk A cap) (writer_step data live wk A cap) Q (k (int (length xs), None)) w g"
  shows "rg B (reader_step data live wk A cap) (writer_step data live wk A cap) Q
    (pbind (call (WriteAt S xs (int (headerSize + t mod cap)))) k) w g"
proof (rule rg_call_stable [OF writer_knows_stable assms(1)])
  fix w g assume kn: "writer_knows data live wk A cap h pr st w g"
  then have l: "live w" "ring_ok cap (data w)" "w_tail h = ring_tail (data w)"
      "used (data w) \<le> unat (w_tail h - w_cachedHead h)" "unat (w_tail h - w_cachedHead h) \<le> cap"
      "staged cap (data w) (length st) = st"
    unfolding writer_knows_def spsc_inv_def writer_inv_def by blast+
  then have fit: "used (data w) + length st + length xs \<le> cap" using assms(3) by linarith
  obtain w' where w': "WriteAt S xs (int (headerSize + t mod cap)) w = (Ok (int (length xs), None), w')"
      "live w'" "same_words (data w) (data w')" "contents cap (data w') = contents cap (data w)"
      "staged cap (data w') (length st + length xs) = st @ xs"
    using write_chunk [OF l(1,2) fit assms(2) assms(4) [unfolded l(3)] assms(5)] l(6) by auto
  with writer_knows_staged [OF kn w'(2-4), of "st @ xs"] write_wakes [OF w'(1)] k
  show "\<exists>a w' g'. WriteAt S xs (int (headerSize + t mod cap)) w = (Ok a, w') \<and>
      writer_step data live wk A cap (w, g) (w', g') \<and>
      rg B (reader_step data live wk A cap) (writer_step data live wk A cap) Q (k a) w' g'"
    by (intro exI [of _ "(int (length xs), None)"] exI [of _ w'] exI [of _ g]) simp
qed

lemma rg_writeRing:
  assumes "writer_knows data live wk A cap h pr [] w g" "w_st h = S"
    and n: "0 < n" "n \<le> length p" "n \<le> cap - unat (w_tail h - w_cachedHead h)"
    and k: "\<And>w g. writer_knows data live wk A cap h pr (take n p) w g \<Longrightarrow>
      rg B (reader_step data live wk A cap) (writer_step data live wk A cap) Q (k None) w g"
  shows "rg B (reader_step data live wk A cap) (writer_step data live wk A cap) Q
    (pbind (writeRing h p (int n)) k) w g"
proof -
  have cap: "cap_ok cap" "0 < cap" and wc: "w_capacity h = int cap" "w_mask h = int cap - 1"
    using assms(1) cap_ok_bounds by (auto simp: writer_knows_def writer_inv_def ring_ok_def)
  define s0 where "s0 = unat (w_tail h) mod cap"
  have s0: "s0 < cap" "s0 mod cap = s0" using cap(2) by (simp_all add: s0_def)
  have n_cap: "n \<le> cap" using n(3) by simp
  note eq = writeRing_eq [OF cap(1) wc n_cap n(2), unfolded assms(2), folded s0_def]
  show ?thesis
  proof (cases "s0 + n \<le> cap")
    case True
    have "take n p \<noteq> []" "length (take n p) = n" using n by auto
    then have "rg B (reader_step data live wk A cap) (writer_step data live wk A cap) Q
        (pbind (call (WriteAt S (take n p) (int (headerSize + s0 mod cap)))) (\<lambda>(_, err). k err)) w g"
      by (intro rg_write_chunk [OF assms(1)]) (use n True s0 k in \<open>simp_all add: s0_def\<close>)
    with True s0(2) show ?thesis by (simp add: eq Let_def pbind_assoc case_prod_unfold)
  next
    case False
    define f where "f = cap - s0"
    have f: "0 < f" "f < n" "s0 + f = cap" using False s0 by (auto simp: f_def)
    have t1: "take f p \<noteq> []" "length (take f p) = f" using n f by auto
    have t2: "drop f (take n p) \<noteq> []" "length (drop f (take n p)) = n - f" using n f by auto
    have joined: "take f p @ drop f (take n p) = take n p"
      using f(2) by (metis append_take_drop_id min.absorb3 take_take)
    have wrap: "(unat (w_tail h) + f) mod cap = 0"
      using f(3) by (metis mod_add_left_eq mod_self s0_def)
    have second: "rg B (reader_step data live wk A cap) (writer_step data live wk A cap) Q
        (pbind (call (WriteAt S (drop f (take n p)) (int (headerSize + 0 mod cap)))) (\<lambda>(_, err). k err)) w g"
      if "writer_knows data live wk A cap h pr (take f p) w g" for w g
      by (intro rg_write_chunk [OF that t2(1)])
        (use n f t1(2) t2(2) wrap n_cap k joined in \<open>simp_all only: split\<close>, simp_all)
    have "rg B (reader_step data live wk A cap) (writer_step data live wk A cap) Q
        (pbind (call (WriteAt S (take f p) (int (headerSize + s0 mod cap)))) (\<lambda>(_, err).
           case err of Some e \<Rightarrow> k (Some e)
           | None \<Rightarrow> pbind (call (WriteAt S (drop f (take n p)) (int headerSize))) (\<lambda>(_, err). k err))) w g"
      by (intro rg_write_chunk [OF assms(1) t1(1)]) (use n f t1(2) s0 second in \<open>simp_all add: s0_def\<close>)
    moreover have "pbind (writeRing h p (int n)) k =
        pbind (call (WriteAt S (take f p) (int (headerSize + s0)))) (\<lambda>(_, err).
           case err of Some e \<Rightarrow> k (Some e)
           | None \<Rightarrow> pbind (call (WriteAt S (drop f (take n p)) (int headerSize))) (\<lambda>(_, err). k err))"
      using False unfolding eq Let_def f_def [symmetric]
      by (simp add: pbind_assoc case_prod_unfold)
        (rule arg_cong [where f = "pbind _"], auto simp: fun_eq_iff pbind_assoc split: option.split)
    ultimately show ?thesis using s0(2) by simp
  qed
qed

lemma rg_publishTail:
  assumes "writer_knows data live wk A cap h pr xs w g" "w_st h = S"
    and "length xs \<le> cap - unat (w_tail h - w_cachedHead h)" "\<not> w_closed h" "A False (pr @ xs)" "xs \<noteq> []"
    and k: "\<And>h' w g. writer_knows data live wk A cap h' (pr @ xs) [] w g \<Longrightarrow> w_st h' = S \<Longrightarrow>
      w_opt h' = w_opt h \<Longrightarrow> w_closed h' = w_closed h \<Longrightarrow>
      rg B (reader_step data live wk A cap) (writer_step data live wk A cap) Q
        (k ((int (length xs), None), h')) w g"
  shows "rg B (reader_step data live wk A cap) (writer_step data live wk A cap) Q
    (pbind (publishTail h (int (length xs))) k) w g"
proof -
  let ?h = "h\<lparr>w_tail := w_tail h + of_nat (length xs)\<rparr>"
  let ?k = "\<lambda>u. k ((int (length xs), None), ?h)"
  have wake: "rg B (reader_step data live wk A cap) (writer_step data live wk A cap) Q
      (pbind (wakeWord S offTail) ?k) w g"
    if "writer_owes data live wk A cap ?h (pr @ xs) w g" for w g
  proof (rule rg_wake [OF writer_owes_stable that word_offsets(2)])
    fix w g
    show "writer_owes data live wk A cap ?h (pr @ xs) w g \<Longrightarrow> live w \<and> offTail + 4 \<le> length (data w)"
      by (rule writer_owes_live)
    show "\<exists>g'. writer_step data live wk A cap (w, g) (w', g') \<and> rg B (reader_step data live wk A cap)
        (writer_step data live wk A cap) Q (?k ()) w' g'"
      if "writer_owes data live wk A cap ?h (pr @ xs) w g" "live w'" "data w' = data w" "woken wk offTail w w'" for w'
      using writer_pays [OF that] k [of ?h] assms(2) by fastforce
    show "rg B (reader_step data live wk A cap) (writer_step data live wk A cap) Q (?k ()) w g"
      if "writer_owes data live wk A cap ?h (pr @ xs) w g" "wk = None"
      by (rule k [OF no_debt(1) [OF that]]) (simp_all add: assms(2))
  qed
  have "rg B (reader_step data live wk A cap) (writer_step data live wk A cap) Q
      (pbind (storeWord S offTail (w_tail ?h)) (\<lambda>err. case err of
         Some e \<Rightarrow> k ((0, Some e), ?h)
       | None \<Rightarrow> pbind (wakeWord S offTail) ?k)) w g"
  proof (rule rg_store [OF writer_knows_stable assms(1)])
    fix w g w'
    assume kn: "writer_knows data live wk A cap h pr xs w g" and "live w'"
      and d: "data w' = patch (data w) offTail (le32 (w_tail ?h))" and wk: "same_wakes wk w w'"
    let ?g = "g\<lparr>produced := produced g @ xs, wdebt := wk \<noteq> None\<rparr>"
    have inv: "writer_inv cap (data w) h" and i: "spsc_inv data live A cap w g"
        and pr: "produced g = pr" "staged cap (data w) (length xs) = xs"
      using kn by (auto simp: writer_knows_def)
    have "\<not> ring_closed (data w)" using inv assms(4) by (simp add: writer_inv_def)
    note pub = writer_inv_publish [OF inv assms(3)]
    have d': "data w' = patch (data w) offTail (le32 (w_tail h + of_nat (length xs)))"
      using d by simp
    have "ring_ok cap (data w')" using pub(1) by (simp add: d' writer_inv_def)
    then have i': "spsc_inv data live A cap w' ?g"
      using i pub(1-3) inv pr \<open>live w'\<close> assms(4,5) by (simp add: d' spsc_inv_def writer_inv_def)
    moreover from this have "writer_owes data live wk A cap ?h (pr @ xs) w' ?g"
      using pub(1) pr by (simp add: d' writer_owes_def writer_knows_def)
    moreover have "writer_step data live wk A cap (w, g) (w', ?g)"
      using i i' pub(2,3) pr(2) \<open>\<not> ring_closed (data w)\<close> wk assms(6)
      by (simp add: writer_step_def d' pays_later spends_later same_wakes_wake fixed_words [of cap] spsc_inv_def [of _ _ _ _ w])
    ultimately show "\<exists>g'. writer_step data live wk A cap (w, g) (w', g') \<and>
        rg B (reader_step data live wk A cap) (writer_step data live wk A cap) Q
          (case None of Some e \<Rightarrow> k ((0, Some e), ?h) | None \<Rightarrow> pbind (wakeWord S offTail) ?k) w' g'"
      using wake by auto
  qed (auto intro: writer_knows_live writer_knows_word)
  moreover have "pbind (publishTail h (int (length xs))) k =
      pbind (storeWord S offTail (w_tail ?h)) (\<lambda>err. case err of
         Some e \<Rightarrow> k ((0, Some e), ?h)
       | None \<Rightarrow> pbind (wakeWord S offTail) ?k)"
    by (simp add: publishTail_def writeUint32At_def Let_def pbind_assoc assms(2))
      (rule arg_cong [where f = "pbind _"], auto simp: fun_eq_iff pbind_assoc assms(2) split: option.split)
  ultimately show ?thesis by simp
qed

text \<open>
  What \<^verbatim>\<open>TryWrite\<close> returns, and what it has published by then: something, if it is known that there
  is \<open>room\<close>, which the Reader can only make larger.
\<close>

lemma rg_writeFreeSpace:
  assumes "writer_knows data live wk A cap h pr [] w g" "w_st h = S" "\<not> w_closed h" "p \<noteq> []"
    and A: "\<And>n. A False (pr @ take n p)"
    and k: "\<And>n h' w g. n \<le> length p \<Longrightarrow> writer_knows data live wk A cap h' (pr @ take n p) [] w g \<Longrightarrow>
      w_st h' = S \<Longrightarrow> w_opt h' = w_opt h \<Longrightarrow> w_closed h' = w_closed h \<Longrightarrow>
      (n = 0 \<Longrightarrow> h' = h \<and> sees_full cap h) \<Longrightarrow>
      rg B (reader_step data live wk A cap) (writer_step data live wk A cap) Q (k ((int n, None), h')) w g"
  shows "rg B (reader_step data live wk A cap) (writer_step data live wk A cap) Q (pbind (writeFreeSpace h p) k) w g"
proof -
  have inv: "writer_inv cap (data w) h" using assms(1) by (simp add: writer_knows_def)
  define n where "n = min (length p) (cap - unat (w_tail h - w_cachedHead h))"
  note eq = writeFreeSpace_eq [OF inv assms(4), folded n_def]
  show ?thesis
  proof (cases "n = 0")
    case True
    moreover have "0 < length p" using assms(4) by simp
    ultimately have "sees_full cap h"
      using inv unfolding n_def sees_full_def writer_inv_def by linarith
    with True k [of 0 h w g] assms(1,2) show ?thesis by (simp add: eq)
  next
    case False
    then have n: "0 < n" "n \<le> length p" "n \<le> cap - unat (w_tail h - w_cachedHead h)"
      and len: "length (take n p) = n" by (simp_all add: n_def)
    have "rg B (reader_step data live wk A cap) (writer_step data live wk A cap) Q
        (pbind (publishTail h (int n)) k) w g"
      if "writer_knows data live wk A cap h pr (take n p) w g" for w g
      using rg_publishTail [OF that assms(2) _ assms(3) A [of n], where k = k] n len k assms(4) by simp
    then have "rg B (reader_step data live wk A cap) (writer_step data live wk A cap) Q
        (pbind (writeRing h p (int n)) (\<lambda>err. case err of
           Some e \<Rightarrow> k ((0, Some e), h) | None \<Rightarrow> pbind (publishTail h (int n)) k)) w g"
      by (intro rg_writeRing [OF assms(1,2) n]) simp
    moreover have "pbind (writeFreeSpace h p) k = pbind (writeRing h p (int n)) (\<lambda>err. case err of
           Some e \<Rightarrow> k ((0, Some e), h) | None \<Rightarrow> pbind (publishTail h (int n)) k)"
      using False by (simp add: eq pbind_assoc)
        (rule arg_cong [where f = "pbind _"], auto simp: fun_eq_iff split: option.split)
    ultimately show ?thesis by simp
  qed
qed

lemma writer_knows_refresh:
  "writer_knows data live wk A cap h pr st w g \<Longrightarrow>
    writer_knows data live wk A cap (h\<lparr>w_cachedHead := ring_head (data w)\<rparr>) pr st w g"
  by (simp add: writer_knows_def writer_inv_refresh)

lemma rg_TryWrite:
  assumes "writer_knows data live wk A cap h pr [] w g" "w_st h = S" "room \<longrightarrow> used (data w) < cap"
    and A: "\<And>n. A False (pr @ take n p)"
    and k: "\<And>n err h' w g. n \<le> length p \<Longrightarrow> writer_knows data live wk A cap h' (pr @ take n p) [] w g \<Longrightarrow>
      w_st h' = S \<Longrightarrow> w_opt h' = w_opt h \<Longrightarrow> w_closed h' = w_closed h \<Longrightarrow>
      err = (if w_closed h then Some ErrClosed else None) \<Longrightarrow> (w_closed h \<Longrightarrow> n = 0) \<Longrightarrow>
      (n = 0 \<Longrightarrow> err = None \<Longrightarrow> p \<noteq> [] \<Longrightarrow> sees_full cap h' \<and> \<not> room) \<Longrightarrow>
      rg B (reader_step data live wk A cap) (writer_step data live wk A cap) Q (k ((int n, err), h')) w g"
  shows "rg B (reader_step data live wk A cap) (writer_step data live wk A cap) Q (pbind (TryWrite h p) k) w g"
proof -
  consider "w_closed h" | "\<not> w_closed h" "p = []" | "\<not> w_closed h" "p \<noteq> []" by blast
  then show ?thesis
  proof cases
    case 1
    with k [of 0 h w g] assms(1,2) show ?thesis by (simp add: TryWrite_def)
  next
    case 2
    with k [of 0 h w g] assms(1,2) show ?thesis by (simp add: TryWrite_def)
  next
    case 3
    have free: "rg B (reader_step data live wk A cap) (writer_step data live wk A cap) Q
        (pbind (writeFreeSpace h' p) k) w g"
      if "writer_knows data live wk A cap h' pr [] w g" "w_st h' = S" "w_opt h' = w_opt h"
        "w_closed h' = w_closed h" "sees_full cap h' \<longrightarrow> \<not> room" for h' w g
      using that 3 by (intro rg_writeFreeSpace [OF that(1,2) _ 3(2) A]) (auto intro!: k)
    let ?I = "\<lambda>w g. writer_knows data live wk A cap h pr [] w g \<and> (room \<longrightarrow> used (data w) < cap)"
    have I: "stable (reader_step data live wk A cap) ?I"
    proof (unfold stable_def, intro allI impI conjI)
      fix w g w' g' assume "?I w g" and s: "reader_step data live wk A cap (w, g) (w', g')"
      then show "writer_knows data live wk A cap h pr [] w' g'"
        by (intro stableD [OF writer_knows_stable _ s]) simp
      have "used (data w') \<le> used (data w)" using s \<open>?I w g\<close> by (simp add: reader_step_def writer_knows_def)
      then show "used (data w') < cap" if room using that \<open>?I w g\<close> by simp
    qed
    have fresh: "sees_full cap (h\<lparr>w_cachedHead := ring_head (data w)\<rparr>) \<longrightarrow> \<not> room" if "?I w g" for w g
      using that by (auto simp: sees_full_def writer_knows_def writer_inv_def used_def)
    have refresh: "rg B (reader_step data live wk A cap) (writer_step data live wk A cap) Q
        (pbind (readUint32At S offHead) (\<lambda>r. case r of
            Inl e \<Rightarrow> k ((0, Some e), h)
          | Inr head \<Rightarrow> pbind (writeFreeSpace (h\<lparr>w_cachedHead := head\<rparr>) p) k)) w g"
      by (rule rg_read32 [where I = ?I, OF I _ reflp_writer_step])
        (use assms(1,3) fresh in \<open>auto intro!: free intro: writer_knows_live writer_knows_word writer_knows_refresh
          simp: assms(2) simp flip: ring_head_def\<close>)
    moreover have "pbind (TryWrite h p) k =
        (if writerFree h < int (length p) then
           pbind (readUint32At S offHead) (\<lambda>r. case r of
              Inl e \<Rightarrow> k ((0, Some e), h)
            | Inr head \<Rightarrow> pbind (writeFreeSpace (h\<lparr>w_cachedHead := head\<rparr>) p) k)
         else pbind (writeFreeSpace h p) k)"
      using 3 by (simp add: TryWrite_def pbind_assoc assms(2))
        (auto intro!: arg_cong [where f = "pbind _"] simp: fun_eq_iff split: sum.split)
    moreover have "sees_full cap h \<longrightarrow> writerFree h < int (length p)"
      using 3(2) assms(1) by (auto simp: sees_full_def writer_knows_def writer_inv_def ring_ok_def writerFree_eq)
    ultimately show ?thesis using free [OF assms(1,2)] by auto
  qed
qed

text \<open>
  \<^verbatim>\<open>Close\<close>: two stores, each followed by its wake-up. The second re-stores the tail.
\<close>

lemma rg_write32_writer:
  assumes kn: "writer_knows data live wk A cap h pr [] w g" and i: "4 dvd i" "i + 4 \<le> headerSize" "i \<noteq> offHead" "w_closed h'"
    and step: "\<And>w g w'. writer_knows data live wk A cap h pr [] w g \<Longrightarrow> live w' \<Longrightarrow>
      data w' = patch (data w) i (le32 v) \<Longrightarrow> same_wakes wk w w' \<Longrightarrow>
      writer_step data live wk A cap (w, g) (w', g) \<and> writer_knows data live wk A cap h' pr [] w' g"
    and k: "\<And>w g. writer_knows data live wk A cap h' pr [] w g \<Longrightarrow>
      rg B (reader_step data live wk A cap) (writer_step data live wk A cap) Q (k None) w g"
  shows "rg B (reader_step data live wk A cap) (writer_step data live wk A cap) Q
    (pbind (writeUint32At S i v) k) w g"
proof -
  have wake: "rg B (reader_step data live wk A cap) (writer_step data live wk A cap) Q
      (pbind (wakeWord S i) (\<lambda>_. k None)) w g" if "writer_knows data live wk A cap h' pr [] w g" for w g
  proof (rule rg_wake [OF writer_knows_stable that i(1)])
    fix w g w'
    assume "writer_knows data live wk A cap h' pr [] w g" "live w'" "data w' = data w" "woken wk i w w'"
    from writer_knows_same_data [OF this(1-3), of i] this(4) i(3,4)
    show "\<exists>g'. writer_step data live wk A cap (w, g) (w', g') \<and>
        rg B (reader_step data live wk A cap) (writer_step data live wk A cap) Q (k None) w' g'"
      by (auto intro: k)
  next
    show "live w \<and> i + 4 \<le> length (data w)" if "writer_knows data live wk A cap h' pr [] w g" for w g
      using writer_knows_live [OF that] writer_knows_word [OF that i(2)] by simp
  qed (rule k)
  have "rg B (reader_step data live wk A cap) (writer_step data live wk A cap) Q
      (pbind (storeWord S i v) (\<lambda>err. case err of
         Some e \<Rightarrow> k (Some e) | None \<Rightarrow> pbind (wakeWord S i) (\<lambda>_. k None))) w g"
  proof (rule rg_store [OF writer_knows_stable kn i(1)])
    fix w g w'
    assume "writer_knows data live wk A cap h pr [] w g" "live w'" "data w' = patch (data w) i (le32 v)" "same_wakes wk w w'"
    from step [OF this] wake show "\<exists>g'. writer_step data live wk A cap (w, g) (w', g') \<and>
        rg B (reader_step data live wk A cap) (writer_step data live wk A cap) Q
          (case None of Some e \<Rightarrow> k (Some e) | None \<Rightarrow> pbind (wakeWord S i) (\<lambda>_. k None)) w' g'"
      by auto
  qed (auto intro: writer_knows_live writer_knows_word i(2))
  moreover have "pbind (writeUint32At S i v) k = pbind (storeWord S i v) (\<lambda>err. case err of
         Some e \<Rightarrow> k (Some e) | None \<Rightarrow> pbind (wakeWord S i) (\<lambda>_. k None))"
    by (simp add: writeUint32At_def pbind_assoc)
      (rule arg_cong [where f = "pbind _"], auto simp: fun_eq_iff pbind_assoc split: option.split)
  ultimately show ?thesis by simp
qed

lemma writer_closes:
  assumes "writer_knows data live wk A cap h pr [] w g" "live w'"
    and "data w' = patch (data w) offClosed (le32 1)" "same_wakes wk w w'" "A True pr"
  shows "writer_step data live wk A cap (w, g) (w', g) \<and>
    writer_knows data live wk A cap (h\<lparr>w_closed := True\<rparr>) pr [] w' g"
proof -
  have i: "spsc_inv data live A cap w g" and inv: "writer_inv cap (data w) h" and pr: "produced g = pr" "\<not> wdebt g"
    using assms(1) by (auto simp: writer_knows_def)
  then have ok: "ring_ok cap (data w)" by (simp add: spsc_inv_def)
  note cl = set_closed [OF ok, folded assms(3)]
  have "used (data w') = used (data w)" by (simp add: used_def cl(4,5))
  then have "writer_inv cap (data w') (h\<lparr>w_closed := True\<rparr>)"
    using inv cl by (auto simp: writer_inv_def)
  moreover have "fixed (data w') = fixed (data w)" using fixed_words(3) [OF ok] by (simp add: assms(3))
  ultimately show ?thesis
    using i cl assms(2,4,5) pr
    by (auto simp: writer_knows_def writer_step_def spsc_inv_def intro: pays_same same_wakes_wake)
qed

lemma writer_restores_tail:
  assumes "writer_knows data live wk A cap h pr [] w g" "live w'"
    and "data w' = patch (data w) offTail (le32 (w_tail h))" "same_wakes wk w w'"
  shows "writer_step data live wk A cap (w, g) (w', g) \<and> writer_knows data live wk A cap h pr [] w' g"
proof -
  have i: "spsc_inv data live A cap w g" and inv: "writer_inv cap (data w) h" and pr: "produced g = pr" "\<not> wdebt g"
    using assms(1) by (auto simp: writer_knows_def)
  then have "contents cap (data w') = contents cap (data w)" "ring_head (data w') = ring_head (data w)"
      "ring_closed (data w') = ring_closed (data w)" "writer_inv cap (data w') h"
    using writer_inv_publish [OF inv, of 0] by (simp_all add: assms(3))
  moreover from this inv have "ring_ok cap (data w')" "ring_tail (data w') = ring_tail (data w)"
    by (simp_all add: writer_inv_def)
  moreover have "fixed (data w') = fixed (data w)"
    using i fixed_words(2) [of cap] by (simp add: assms(3) spsc_inv_def)
  ultimately show ?thesis
    using i assms(2,4) pr
    by (auto simp: writer_knows_def writer_step_def spsc_inv_def intro: pays_same spends_same same_wakes_wake)
qed

lemma rg_CloseWriter:
  assumes "writer_knows data live wk A cap h pr [] w g" "w_st h = S" "A True pr"
    and k: "\<And>w g. writer_knows data live wk A cap (h\<lparr>w_closed := True\<rparr>) pr [] w g \<Longrightarrow>
      rg B (reader_step data live wk A cap) (writer_step data live wk A cap) Q (k (None, h\<lparr>w_closed := True\<rparr>)) w g"
  shows "rg B (reader_step data live wk A cap) (writer_step data live wk A cap) Q (pbind (CloseWriter h) k) w g"
proof (cases "w_closed h")
  case True
  then have "h\<lparr>w_closed := True\<rparr> = h" by (cases h) simp
  with True k [of w g] assms(1) show ?thesis by (simp add: CloseWriter_def)
next
  case False
  let ?h = "h\<lparr>w_closed := True\<rparr>"
  have tail: "rg B (reader_step data live wk A cap) (writer_step data live wk A cap) Q
      (pbind (writeUint32At S offTail (w_tail ?h)) (\<lambda>err. k (err, ?h))) w g"
    if "writer_knows data live wk A cap ?h pr [] w g" for w g
    by (rule rg_write32_writer [OF that word_offsets(2,5) _ _, where h' = ?h])
      (auto intro!: k dest: writer_restores_tail [where h = ?h] simp: layout_defs)
  have "rg B (reader_step data live wk A cap) (writer_step data live wk A cap) Q
      (pbind (writeUint32At S offClosed 1) (\<lambda>err. case err of
         Some e \<Rightarrow> k (Some e, ?h)
       | None \<Rightarrow> pbind (writeUint32At S offTail (w_tail ?h)) (\<lambda>err. k (err, ?h)))) w g"
    by (rule rg_write32_writer [OF assms(1) word_offsets(3,6) _ _, where h' = ?h])
      (use tail writer_closes [where A = A, OF _ _ _ _ assms(3)] in \<open>simp_all add: layout_defs\<close>)
  moreover have "pbind (CloseWriter h) k = pbind (writeUint32At S offClosed 1) (\<lambda>err. case err of
         Some e \<Rightarrow> k (Some e, ?h)
       | None \<Rightarrow> pbind (writeUint32At S offTail (w_tail ?h)) (\<lambda>err. k (err, ?h)))"
    using False by (simp add: CloseWriter_def Let_def pbind_assoc assms(2))
      (rule arg_cong [where f = "pbind _"], auto simp: fun_eq_iff pbind_assoc assms(2) split: option.split)
  ultimately show ?thesis by simp
qed

end


section \<open>The Reader's operations\<close>

text \<open>The two pieces of the queue's first \<open>n\<close> bytes, where the ring wraps around.\<close>

lemma contents_pieces:
  assumes "n \<le> used d" "s0 = unat (ring_head d) mod cap"
  shows "cells cap d s0 n = take n (contents cap d)"
    and "f \<le> n \<Longrightarrow> cells cap d s0 f = take f (take n (contents cap d))"
    and "f \<le> n \<Longrightarrow> s0 + f = cap \<Longrightarrow> cells cap d 0 (n - f) = drop f (take n (contents cap d))"
proof -
  have con: "take m (contents cap d) = cells cap d s0 m" if "m \<le> used d" for m
    using that assms(2) by (simp add: contents_def take_cells) (rule cells_mod, simp)
  show *: "cells cap d s0 n = take n (contents cap d)" using con [OF assms(1)] by simp
  show "f \<le> n \<Longrightarrow> cells cap d s0 f = take f (take n (contents cap d))"
    by (simp add: take_cells flip: *)
  assume "f \<le> n" "s0 + f = cap"
  moreover have "cells cap d (s0 + f) (n - f) = cells cap d 0 (n - f)"
    by (rule cells_mod) (simp add: \<open>s0 + f = cap\<close>)
  ultimately show "cells cap d 0 (n - f) = drop f (take n (contents cap d))"
    by (simp add: drop_cells flip: *)
qed

context waking_storage
begin

lemma rg_read_chunk:
  assumes "reader_knows data live wk A cap r co xs w g"
    and "\<And>w g. reader_knows data live wk A cap r co xs w g \<Longrightarrow> cells cap (data w) i n = ys"
    and "i mod cap + n \<le> cap" "length p = n" "0 < n"
    and k: "\<And>w g. reader_knows data live wk A cap r co xs w g \<Longrightarrow>
      rg B (writer_step data live wk A cap) (reader_step data live wk A cap) Q (k (ys, int n, None)) w g"
  shows "rg B (writer_step data live wk A cap) (reader_step data live wk A cap) Q
    (pbind (query (ReadAt S p (int (headerSize + i mod cap)))) k) w g"
proof (rule rg_query_stable [OF reader_knows_stable assms(1) reflp_reader_step])
  fix w g assume kn: "reader_knows data live wk A cap r co xs w g"
  then have "live w" "ring_ok cap (data w)" by (auto simp: reader_knows_def spsc_inv_def)
  with read_cells [OF _ _ assms(3-5)] assms(2) [OF kn] k [OF kn]
  show "\<exists>a. ReadAt S p (int (headerSize + i mod cap)) w = Ok a \<and>
      rg B (writer_step data live wk A cap) (reader_step data live wk A cap) Q (k a) w g" by auto
qed

lemma rg_readRing:
  assumes kn: "reader_knows data live wk A cap r co xs w g" and S: "r_st r = S"
    and n: "0 < length xs" "length xs \<le> length p"
    and k: "\<And>w g. reader_knows data live wk A cap r co xs w g \<Longrightarrow>
      rg B (writer_step data live wk A cap) (reader_step data live wk A cap) Q
        (k (xs @ drop (length xs) p, None)) w g"
  shows "rg B (writer_step data live wk A cap) (reader_step data live wk A cap) Q
    (pbind (readRing r p (int (length xs))) k) w g"
proof -
  let ?n = "length xs"
  have pieces: "ring_head (data w) = r_head r \<and> take ?n (contents cap (data w)) = xs \<and> ?n \<le> used (data w) \<and>
      ring_ok cap (data w)"
    if "reader_knows data live wk A cap r co xs w g" for w g
  proof -
    have "take ?n (contents cap (data w)) = xs" using that by (simp add: reader_knows_def)
    then have "?n \<le> used (data w)" by (metis length_contents length_take min.cobounded1)
    then show ?thesis using that by (simp add: reader_knows_def reader_inv_def)
  qed
  have cap: "cap_ok cap" "0 < cap" and rc: "r_capacity r = int cap" "r_mask r = int cap - 1"
    using kn cap_ok_bounds by (auto simp: reader_knows_def reader_inv_def ring_ok_def)
  have n_cap: "?n \<le> cap" using pieces [OF kn] by (simp add: ring_ok_def)
  define s0 where "s0 = unat (r_head r) mod cap"
  have s0: "s0 < cap" "s0 mod cap = s0" using cap(2) by (simp_all add: s0_def)
  note eq = readRing_eq [OF cap(1) rc n_cap n(2), unfolded S, folded s0_def]
  have whole: "cells cap (data w) s0 ?n = xs"
    if "reader_knows data live wk A cap r co xs w g" for w g
    using contents_pieces(1) [of ?n "data w" s0 cap] pieces [OF that] by (simp add: s0_def)
  show ?thesis
  proof (cases "s0 + ?n \<le> cap")
    case True
    have "rg B (writer_step data live wk A cap) (reader_step data live wk A cap) Q
        (pbind (query (ReadAt S (take ?n p) (int (headerSize + s0 mod cap))))
          (\<lambda>(q, _, err). k (q @ drop ?n p, err))) w g"
      by (rule rg_read_chunk [OF kn whole]) (use True n s0 k in auto)
    with True s0(2) show ?thesis by (simp add: eq Let_def pbind_assoc case_prod_unfold)
  next
    case False
    define f where "f = cap - s0"
    have f: "0 < f" "f < ?n" "s0 + f = cap" using False s0 by (auto simp: f_def)
    have first: "cells cap (data w) s0 f = take f xs" and second: "cells cap (data w) 0 (?n - f) = drop f xs"
      if "reader_knows data live wk A cap r co xs w g" for w g
      using contents_pieces(2,3) [of ?n "data w" s0 cap f] pieces [OF that] f by (simp_all add: s0_def)
    have r2: "rg B (writer_step data live wk A cap) (reader_step data live wk A cap) Q
        (pbind (query (ReadAt S (drop f (take ?n p)) (int (headerSize + 0 mod cap))))
          (\<lambda>(q, _, err). k (take f xs @ q @ drop ?n p, err))) w g"
      if "reader_knows data live wk A cap r co xs w g" for w g
      by (rule rg_read_chunk [OF that second]) (use f n n_cap k in \<open>auto simp flip: append_assoc\<close>)
    have "rg B (writer_step data live wk A cap) (reader_step data live wk A cap) Q
        (pbind (query (ReadAt S (take f p) (int (headerSize + s0 mod cap)))) (\<lambda>(q, _, err).
           case err of Some e \<Rightarrow> k (q @ drop f p, Some e)
           | None \<Rightarrow> pbind (query (ReadAt S (drop f (take ?n (q @ drop f p))) (int headerSize)))
               (\<lambda>(q', _, err). k (take f (q @ drop f p) @ q' @ drop ?n (q @ drop f p), err)))) w g"
      by (rule rg_read_chunk [OF kn first]) (use f n s0 r2 in \<open>auto simp: drop_take min_def\<close>)
    moreover have "pbind (readRing r p (int ?n)) k =
        pbind (query (ReadAt S (take f p) (int (headerSize + s0)))) (\<lambda>(q, _, err).
           case err of Some e \<Rightarrow> k (q @ drop f p, Some e)
           | None \<Rightarrow> pbind (query (ReadAt S (drop f (take ?n (q @ drop f p))) (int headerSize)))
               (\<lambda>(q', _, err). k (take f (q @ drop f p) @ q' @ drop ?n (q @ drop f p), err)))"
      using False unfolding eq Let_def f_def [symmetric]
      by (simp add: pbind_assoc case_prod_unfold)
        (rule arg_cong [where f = "pbind _"], auto simp: fun_eq_iff pbind_assoc split: option.split)
    ultimately show ?thesis using s0(2) by simp
  qed
qed

lemma rg_advanceHead:
  assumes "reader_knows data live wk A cap r co xs w g" "r_st r = S"
    and "length xs \<le> unat (r_cachedTail r - r_head r)" "xs \<noteq> []"
    and k: "\<And>r' w g. reader_knows data live wk A cap r' (co @ xs) [] w g \<Longrightarrow> r_st r' = S \<Longrightarrow>
      r_opt r' = r_opt r \<Longrightarrow>
      rg B (writer_step data live wk A cap) (reader_step data live wk A cap) Q
        (k ((int (length xs), None), p, r')) w g"
  shows "rg B (writer_step data live wk A cap) (reader_step data live wk A cap) Q
    (pbind (advanceHead r p (int (length xs))) k) w g"
proof -
  let ?r = "r\<lparr>r_head := r_head r + of_nat (length xs)\<rparr>"
  let ?k = "\<lambda>u. k ((int (length xs), None), p, ?r)"
  have wake: "rg B (writer_step data live wk A cap) (reader_step data live wk A cap) Q
      (pbind (wakeWord S offHead) ?k) w g"
    if "reader_owes data live wk A cap ?r (co @ xs) w g" for w g
  proof (rule rg_wake [OF reader_owes_stable that word_offsets(1)])
    fix w g
    show "reader_owes data live wk A cap ?r (co @ xs) w g \<Longrightarrow> live w \<and> offHead + 4 \<le> length (data w)"
      by (rule reader_owes_live)
    show "\<exists>g'. reader_step data live wk A cap (w, g) (w', g') \<and> rg B (writer_step data live wk A cap)
        (reader_step data live wk A cap) Q (?k ()) w' g'"
      if "reader_owes data live wk A cap ?r (co @ xs) w g" "live w'" "data w' = data w" "woken wk offHead w w'" for w'
      using reader_pays [OF that] k [of ?r] assms(2) by fastforce
    show "rg B (writer_step data live wk A cap) (reader_step data live wk A cap) Q (?k ()) w g"
      if "reader_owes data live wk A cap ?r (co @ xs) w g" "wk = None"
      by (rule k [OF no_debt(2) [OF that]]) (simp_all add: assms(2))
  qed
  have "rg B (writer_step data live wk A cap) (reader_step data live wk A cap) Q
      (pbind (storeWord S offHead (r_head ?r)) (\<lambda>err. case err of
         Some e \<Rightarrow> k ((0, Some e), p, ?r)
       | None \<Rightarrow> pbind (wakeWord S offHead) ?k)) w g"
  proof (rule rg_store [OF reader_knows_stable assms(1)])
    fix w g w'
    assume kn: "reader_knows data live wk A cap r co xs w g" and "live w'"
      and d: "data w' = patch (data w) offHead (le32 (r_head ?r))" and wk: "same_wakes wk w w'"
    let ?g = "g\<lparr>consumed := consumed g @ xs, rdebt := wk \<noteq> None\<rparr>"
    have inv: "reader_inv cap (data w) r" and i: "spsc_inv data live A cap w g"
        and co: "consumed g = co" "take (length xs) (contents cap (data w)) = xs"
      using kn by (auto simp: reader_knows_def)
    have len: "headerSize \<le> length (data w)" using i by (simp add: spsc_inv_def ring_ok_def)
    have d': "data w' = patch (data w) offHead (le32 (r_head r + of_nat (length xs)))"
      using d by simp
    note adv = reader_inv_advance [OF inv assms(3), folded d']
    have "contents cap (data w) = xs @ contents cap (data w')"
      using co(2) adv(2) by (metis append_take_drop_id)
    moreover have "ring_ok cap (data w')" using adv(1) by (simp add: reader_inv_def)
    ultimately have i': "spsc_inv data live A cap w' ?g"
      using i \<open>live w'\<close> adv(4) by (auto simp: spsc_inv_def)
    moreover from this have "reader_owes data live wk A cap ?r (co @ xs) w' ?g"
      using adv(1) co by (simp add: reader_owes_def reader_knows_def)
    moreover have "drop headerSize (data w') = drop headerSize (data w)"
      using len by (simp add: d' drop_patch)
    then have "reader_step data live wk A cap (w, g) (w', ?g)"
      using i i' adv(3,4) used_le_drop [OF adv(2)] wk fixed_words(1) [of cap "data w"] assms(4)
      by (simp add: reader_step_def pays_later spends_later same_wakes_wake d' spsc_inv_def [of _ _ _ _ w])
    ultimately show "\<exists>g'. reader_step data live wk A cap (w, g) (w', g') \<and>
        rg B (writer_step data live wk A cap) (reader_step data live wk A cap) Q
          (case None of Some e \<Rightarrow> k ((0, Some e), p, ?r) | None \<Rightarrow> pbind (wakeWord S offHead) ?k) w' g'"
      using wake by auto
  qed (auto intro: reader_knows_live reader_knows_word)
  moreover have "pbind (advanceHead r p (int (length xs))) k =
      pbind (storeWord S offHead (r_head ?r)) (\<lambda>err. case err of
         Some e \<Rightarrow> k ((0, Some e), p, ?r)
       | None \<Rightarrow> pbind (wakeWord S offHead) ?k)"
    by (simp add: advanceHead_def writeUint32At_def Let_def pbind_assoc assms(2))
      (rule arg_cong [where f = "pbind _"], auto simp: fun_eq_iff pbind_assoc assms(2) split: option.split)
  ultimately show ?thesis by simp
qed

text \<open>
  What \<^verbatim>\<open>TryRead\<close> returns, and what it has consumed by then. \<^verbatim>\<open>io.EOF\<close> is returned only
  on a closed ring, and something is consumed if it is known that there is \<open>some\<close>.
\<close>

lemma rg_readAvailable:
  assumes "reader_knows data live wk A cap r co [] w g" "r_st r = S" "p \<noteq> []"
    and k: "\<And>n err q r' w g. n \<le> length q \<Longrightarrow> length q = length p \<Longrightarrow>
      reader_knows data live wk A cap r' (co @ take n q) [] w g \<Longrightarrow> r_st r' = S \<Longrightarrow> r_opt r' = r_opt r \<Longrightarrow>
      err = None \<or> err = Some EOF \<and> n = 0 \<and> ring_closed (data w) \<Longrightarrow>
      (n = 0 \<Longrightarrow> r' = r \<and> sees_empty r) \<Longrightarrow>
      rg B (writer_step data live wk A cap) (reader_step data live wk A cap) Q (k ((int n, err), q, r')) w g"
  shows "rg B (writer_step data live wk A cap) (reader_step data live wk A cap) Q (pbind (readAvailable r p) k) w g"
proof -
  define n where "n = min (length p) (unat (r_cachedTail r - r_head r))"
  note eq = readAvailable_eq [OF assms(3), of r, folded n_def]
  have k0: "rg B (writer_step data live wk A cap) (reader_step data live wk A cap) Q (k ((0, err), p, r)) w g"
    if "reader_knows data live wk A cap r co [] w g" "err = None \<or> err = Some EOF \<and> ring_closed (data w)" "sees_empty r" for err w g
    using k [of 0 p r w g err] that assms(2) by simp
  show ?thesis
  proof (cases "n = 0")
    case True
    moreover have "0 < length p" using assms(3) by simp
    ultimately have empty: "sees_empty r" unfolding n_def sees_empty_def by linarith
    have "rg B (writer_step data live wk A cap) (reader_step data live wk A cap) Q
        (pbind (readUint32At S offClosed) (\<lambda>c. case c of
            Inl e \<Rightarrow> k ((0, Some e), p, r)
          | Inr closed \<Rightarrow> if closed \<noteq> 0 then k ((0, Some EOF), p, r) else k ((0, None), p, r))) w g"
      by (rule rg_read32 [OF reader_knows_stable assms(1) reflp_reader_step])
        (auto intro!: k0 empty intro: reader_knows_live reader_knows_word simp: ring_closed_def)
    moreover have "pbind (readAvailable r p) k =
        pbind (readUint32At S offClosed) (\<lambda>c. case c of
            Inl e \<Rightarrow> k ((0, Some e), p, r)
          | Inr closed \<Rightarrow> if closed \<noteq> 0 then k ((0, Some EOF), p, r) else k ((0, None), p, r))"
      using True by (simp add: eq pbind_assoc assms(2))
        (rule arg_cong [where f = "pbind _"], auto simp: fun_eq_iff split: sum.split)
    ultimately show ?thesis by simp
  next
    case False
    define xs where "xs = take n (contents cap (data w))"
    have "n \<le> used (data w)" using assms(1) unfolding n_def reader_knows_def reader_inv_def by linarith
    then have xs: "length xs = n" "reader_knows data live wk A cap r co xs w g"
      using assms(1) by (simp_all add: xs_def reader_knows_def)
    have n: "0 < length xs" "length xs \<le> length p" "length xs \<le> unat (r_cachedTail r - r_head r)"
      using False xs(1) by (simp_all add: n_def)
    let ?q = "xs @ drop (length xs) p"
    have q: "length xs \<le> length ?q" "length ?q = length p" "take (length xs) ?q = xs"
      using n by simp_all
    have adv: "rg B (writer_step data live wk A cap) (reader_step data live wk A cap) Q
        (pbind (advanceHead r ?q (int (length xs))) k) w g"
      if "reader_knows data live wk A cap r co xs w g" for w g
    proof (rule rg_advanceHead [OF that assms(2) n(3)])
      show "xs \<noteq> []" using n(1) by simp
      fix r' w g
      assume "reader_knows data live wk A cap r' (co @ xs) [] w g" "r_st r' = S" "r_opt r' = r_opt r"
      with k [OF q(1,2), of r' w g None] q(3) n(1)
      show "rg B (writer_step data live wk A cap) (reader_step data live wk A cap) Q
          (k ((int (length xs), None), ?q, r')) w g" by simp
    qed
    have "rg B (writer_step data live wk A cap) (reader_step data live wk A cap) Q
        (pbind (readRing r p (int (length xs))) (\<lambda>(p, err). case err of
            Some e \<Rightarrow> k ((0, Some e), p, r)
          | None \<Rightarrow> pbind (advanceHead r p (int (length xs))) k)) w g"
      by (rule rg_readRing [OF xs(2) assms(2) n(1,2)]) (simp add: adv)
    moreover have "pbind (readAvailable r p) k =
        pbind (readRing r p (int (length xs))) (\<lambda>(p, err). case err of
            Some e \<Rightarrow> k ((0, Some e), p, r)
          | None \<Rightarrow> pbind (advanceHead r p (int (length xs))) k)"
      using False by (simp add: eq pbind_assoc xs(1))
        (rule arg_cong [where f = "pbind _"], auto simp: fun_eq_iff xs(1) split: option.split)
    ultimately show ?thesis by simp
  qed
qed

lemma reader_knows_refresh:
  "reader_knows data live wk A cap r co xs w g \<Longrightarrow>
    reader_knows data live wk A cap (r\<lparr>r_cachedTail := ring_tail (data w)\<rparr>) co xs w g"
  by (simp add: reader_knows_def reader_inv_refresh)

lemma rg_TryRead:
  assumes "reader_knows data live wk A cap r co [] w g" "r_st r = S" "some \<longrightarrow> 0 < used (data w)"
    and k: "\<And>n err q r' w g. n \<le> length q \<Longrightarrow> length q = length p \<Longrightarrow>
      reader_knows data live wk A cap r' (co @ take n q) [] w g \<Longrightarrow> r_st r' = S \<Longrightarrow> r_opt r' = r_opt r \<Longrightarrow>
      err = None \<or> err = Some EOF \<and> n = 0 \<and> ring_closed (data w) \<Longrightarrow>
      (n = 0 \<Longrightarrow> p \<noteq> [] \<Longrightarrow> sees_empty r' \<and> \<not> some) \<Longrightarrow>
      rg B (writer_step data live wk A cap) (reader_step data live wk A cap) Q (k ((int n, err), q, r')) w g"
  shows "rg B (writer_step data live wk A cap) (reader_step data live wk A cap) Q (pbind (TryRead r p) k) w g"
proof (cases "p = []")
  case True
  with k [of 0 p r w g None] assms(1,2) show ?thesis by (simp add: TryRead_def)
next
  case False
  have avail: "rg B (writer_step data live wk A cap) (reader_step data live wk A cap) Q
      (pbind (readAvailable r' p) k) w g"
    if "reader_knows data live wk A cap r' co [] w g" "r_st r' = S" "r_opt r' = r_opt r" "sees_empty r' \<longrightarrow> \<not> some" for r' w g
    by (rule rg_readAvailable [OF that(1,2) False]) (rule k, use that(4) in \<open>auto simp: that(3)\<close>)
  let ?I = "\<lambda>w g. reader_knows data live wk A cap r co [] w g \<and> (some \<longrightarrow> 0 < used (data w))"
  have I: "stable (writer_step data live wk A cap) ?I"
  proof (unfold stable_def, intro allI impI conjI)
    fix w g w' g' assume "?I w g" and s: "writer_step data live wk A cap (w, g) (w', g')"
    then show "reader_knows data live wk A cap r co [] w' g'"
      by (intro stableD [OF reader_knows_stable _ s]) simp
    have "used (data w) \<le> used (data w')"
      using s \<open>?I w g\<close> used_le_append by (auto simp: writer_step_def reader_knows_def)
    then show "0 < used (data w')" if some using that \<open>?I w g\<close> by simp
  qed
  have fresh: "sees_empty (r\<lparr>r_cachedTail := ring_tail (data w)\<rparr>) \<longrightarrow> \<not> some" if "?I w g" for w g
    using that by (auto simp: sees_empty_def reader_knows_def reader_inv_def used_def)
  have "rg B (writer_step data live wk A cap) (reader_step data live wk A cap) Q
      (pbind (readUint32At S offTail) (\<lambda>t. case t of
          Inl e \<Rightarrow> k ((0, Some e), p, r)
        | Inr tail \<Rightarrow> pbind (readAvailable (r\<lparr>r_cachedTail := tail\<rparr>) p) k)) w g"
    by (rule rg_read32 [where I = ?I, OF I _ reflp_reader_step])
      (use assms(1,3) fresh in \<open>auto intro!: avail intro: reader_knows_live reader_knows_word reader_knows_refresh
        simp: assms(2) simp flip: ring_tail_def\<close>)
  moreover have "pbind (TryRead r p) k =
      (if readerAvail r < int (length p) then
         pbind (readUint32At S offTail) (\<lambda>t. case t of
            Inl e \<Rightarrow> k ((0, Some e), p, r)
          | Inr tail \<Rightarrow> pbind (readAvailable (r\<lparr>r_cachedTail := tail\<rparr>) p) k)
       else pbind (readAvailable r p) k)"
    using False by (simp add: TryRead_def pbind_assoc assms(2))
      (auto intro!: arg_cong [where f = "pbind _"] simp: fun_eq_iff split: sum.split)
  moreover have "sees_empty r \<longrightarrow> readerAvail r < int (length p)"
    using False by (simp add: sees_empty_def readerAvail_eq)
  ultimately show ?thesis using avail [OF assms(1,2)] by auto
qed

end

end
