(* ===== verification/Threads.thy ===== *)
theory Threads
  imports Spsc "HOL-Library.Sublist"
begin

text \<open>
  The blocking calls under interference, and whole threads: what any schedule of a sending
  and a receiving thread can do. The loops of \<^verbatim>\<open>WriteContext\<close> and \<^verbatim>\<open>ReadContext\<close> carry
  fuel; the theorems hold for every fuel, and a call whose fuel runs out blocks for ever,
  which is the worst that a loop that has not ended yet can look like to the other thread.
\<close>

section \<open>The blocking calls\<close>

context waking_storage
begin

lemma rg_blockRound_writer:
  assumes "ctx_ok data live ctx" "writer_knows data live wk A cap h pr st w g" "sees_full cap h"
    and "\<And>b w g. writer_knows data live wk A cap h pr st w g \<Longrightarrow>
      rg (writer_waits data wk cap) (reader_step data live wk A cap) (writer_step data live wk A cap) Q (k b) w g"
  shows "rg (writer_waits data wk cap) (reader_step data live wk A cap) (writer_step data live wk A cap) Q
    (pbind (blockRound S offHead (w_cachedHead h) opts ctx wait) k) w g"
  by (rule rg_sleeps [OF writer_knows_stable sleeps_blockRound [OF assms(1) writer_knows_live [OF assms(2)]
        writer_knows_word [OF assms(2) word_offsets(4)] word_offsets(1)] assms(2)])
    (auto simp: writer_waits_def intro: writer_knows_live writer_knows_word writer_knows_same_data writer_falls_asleep assms(3,4))

lemma rg_blockRound_reader:
  assumes "ctx_ok data live ctx" "reader_knows data live wk A cap r co xs w g" "sees_empty r"
    and "\<And>b w g. reader_knows data live wk A cap r co xs w g \<Longrightarrow>
      rg (reader_waits data wk cap) (writer_step data live wk A cap) (reader_step data live wk A cap) Q (k b) w g"
  shows "rg (reader_waits data wk cap) (writer_step data live wk A cap) (reader_step data live wk A cap) Q
    (pbind (blockRound S offTail (r_cachedTail r) opts ctx wait) k) w g"
  by (rule rg_sleeps [OF reader_knows_stable sleeps_blockRound [OF assms(1) reader_knows_live [OF assms(2)]
        reader_knows_word [OF assms(2) word_offsets(5)] word_offsets(2)] assms(2)])
    (auto simp: reader_waits_def intro: reader_knows_live reader_knows_word reader_knows_same_data reader_falls_asleep assms(3,4))

text \<open>
  \<^verbatim>\<open>WriteContext\<close>: what has been published is a prefix of the argument, of exactly the
  length it returns, all of it if it returns no error.
\<close>

lemma rg_writeLoop:
  assumes ctx: "ctx_ok data live ctx" and A: "\<And>n. A False (pr @ take n p)"
    and "writer_knows data live wk A cap h (pr @ take m p) [] w g" "w_st h = S" "m \<le> length p"
    and k: "\<And>res n h' w g. n \<le> length p \<Longrightarrow> writer_knows data live wk A cap h' (pr @ take n p) [] w g \<Longrightarrow>
      w_st h' = S \<Longrightarrow> res = None \<or> (\<exists>err. res = Some (int n, err) \<and> (err = None \<longrightarrow> n = length p)) \<Longrightarrow>
      rg (writer_waits data wk cap) (reader_step data live wk A cap) (writer_step data live wk A cap) Q (k (res, h')) w g"
  shows "rg (writer_waits data wk cap) (reader_step data live wk A cap) (writer_step data live wk A cap) Q
    (pbind (writeLoop fuel ctx h p (int m) wait) k) w g"
  using assms(3-5)
proof (induction fuel arbitrary: h m wait w g)
  case 0
  then show ?case using k [of m h w g None] by simp
next
  case (Suc fuel)
  show ?case
  proof (cases "m < length p")
    case False
    then show ?thesis using k [of m h w g "Some (int m, None)"] Suc.prems by simp
  next
    case True
    have tk: "(pr @ take m p) @ take n (drop m p) = pr @ take (m + n) p" for n
      by (simp add: take_add)
    have stop: "rg (writer_waits data wk cap) (reader_step data live wk A cap) (writer_step data live wk A cap) Q
        (k (Some (int n, Some e), h')) w g"
      if "n \<le> length p" "writer_knows data live wk A cap h' (pr @ take n p) [] w g" "w_st h' = S" for n e h' w g
      using k [OF that(1,2,3), of "Some (int n, Some e)"] by simp
    have blocked: "rg (writer_waits data wk cap) (reader_step data live wk A cap) (writer_step data live wk A cap) Q
        (pbind (blockRound S offHead (w_cachedHead h') opts ctx wait) (\<lambda>r. case r of
            Inl e \<Rightarrow> k (Some (int m, Some e), h')
          | Inr wait \<Rightarrow> pbind (writeLoop fuel ctx h' p (int m) wait) k)) w g"
      if "writer_knows data live wk A cap h' (pr @ take m p) [] w g" "w_st h' = S" "sees_full cap h'" for h' opts w g
      by (rule rg_blockRound_writer [OF ctx that(1,3)])
        (use that(2) True in \<open>auto intro: Suc.IH stop split: sum.split\<close>)
    have step: "pbind (writeLoop (Suc fuel) ctx h p (int m) wait) k =
        pbind (TryWrite h (drop m p)) (\<lambda>((n, err), h'). case err of
            Some e \<Rightarrow> k (Some (int m + n, Some e), h')
          | None \<Rightarrow>
              if n > 0 then pbind (writeLoop fuel ctx h' p (int m + n) (minPoll (w_opt h'))) k
              else pbind (blockRound (w_st h') offHead (w_cachedHead h') (w_opt h') ctx wait) (\<lambda>r. case r of
                  Inl e \<Rightarrow> k (Some (int m + n, Some e), h')
                | Inr wait \<Rightarrow> pbind (writeLoop fuel ctx h' p (int m + n) wait) k))"
      using True by (simp add: pbind_assoc Let_def)
        (auto intro!: arg_cong [where f = "pbind _"] simp: fun_eq_iff pbind_assoc split: option.split sum.split)
    show ?thesis
      unfolding step
    proof (rule rg_TryWrite [where room = False, OF Suc.prems(1,2)], goal_cases)
      case (3 n err h' w g)
      then have kn: "writer_knows data live wk A cap h' (pr @ take (m + n) p) [] w g" "m + n \<le> length p"
        using True by (simp_all only: tk length_drop)
      consider e where "err = Some e" | "err = None" "0 < n" | "err = None" "n = 0"
        by (cases err) auto
      then show ?case
        using stop [OF kn(2,1)] Suc.IH [OF kn(1) _ kn(2)] blocked [of h' w g] kn 3 True by cases auto
    qed (simp_all only: tk A simp_thms)
  qed
qed

text \<open>\<^verbatim>\<open>ReadContext\<close>: it has consumed exactly the bytes it returns; without an error, at least one.\<close>

lemma rg_readLoop:
  assumes ctx: "ctx_ok data live ctx"
    and "reader_knows data live wk A cap r co [] w g" "r_st r = S" "p \<noteq> []"
    and k: "\<And>res n q r' w g. n \<le> length q \<Longrightarrow> reader_knows data live wk A cap r' (co @ take n q) [] w g \<Longrightarrow>
      r_st r' = S \<Longrightarrow> res = None \<or> (\<exists>err. res = Some (int n, err) \<and> (err = None \<longrightarrow> 0 < n)) \<Longrightarrow>
      rg (reader_waits data wk cap) (writer_step data live wk A cap) (reader_step data live wk A cap) Q (k (res, q, r')) w g"
  shows "rg (reader_waits data wk cap) (writer_step data live wk A cap) (reader_step data live wk A cap) Q
    (pbind (readLoop fuel ctx r p wait) k) w g"
  using assms(2-4)
proof (induction fuel arbitrary: r p wait w g)
  case 0
  then show ?case using k [of 0 p r w g None] by simp
next
  case (Suc fuel)
  have stop: "rg (reader_waits data wk cap) (writer_step data live wk A cap) (reader_step data live wk A cap) Q
      (k (Some (0, Some e), q, r')) w g"
    if "reader_knows data live wk A cap r' co [] w g" "r_st r' = S" for e q r' w g
    using k [of 0 q r' w g "Some (0, Some e)"] that by simp
  have blocked: "rg (reader_waits data wk cap) (writer_step data live wk A cap) (reader_step data live wk A cap) Q
      (pbind (blockRound S offTail (r_cachedTail r') opts ctx wait) (\<lambda>b. case b of
          Inl e \<Rightarrow> k (Some (0, Some e), q, r')
        | Inr wait \<Rightarrow> pbind (readLoop fuel ctx r' q wait) k)) w g"
    if "reader_knows data live wk A cap r' co [] w g" "r_st r' = S" "sees_empty r'" "q \<noteq> []" for r' q opts w g
    by (rule rg_blockRound_reader [OF ctx that(1,3)])
      (use that(2,4) in \<open>auto intro: Suc.IH stop split: sum.split\<close>)
  have step: "pbind (readLoop (Suc fuel) ctx r p wait) k =
      pbind (TryRead r p) (\<lambda>((n, err), q, r').
        if n > 0 \<or> err \<noteq> None then k (Some (n, err), q, r')
        else pbind (blockRound (r_st r') offTail (r_cachedTail r') (r_opt r') ctx wait) (\<lambda>b. case b of
            Inl e \<Rightarrow> k (Some (0, Some e), q, r')
          | Inr wait \<Rightarrow> pbind (readLoop fuel ctx r' q wait) k))"
    by (simp add: pbind_assoc)
      (auto intro!: arg_cong [where f = "pbind _"] simp: fun_eq_iff pbind_assoc split: sum.split)
  show ?case
    unfolding step
  proof (rule rg_TryRead [where some = False, OF Suc.prems(1,2)], goal_cases)
    case (2 n err q r' w g)
    show ?case
    proof (cases "0 < n \<or> err \<noteq> None")
      case True
      then show ?thesis using k [OF 2(1,3,4), of "Some (int n, err)"] by auto
    next
      case False
      moreover have "q \<noteq> []" using 2(2) Suc.prems(3) by fastforce
      ultimately show ?thesis using blocked [of r' w g q] 2(3-5,7) Suc.prems(3) by auto
    qed
  qed simp
qed

end


section \<open>A sending and a receiving thread\<close>

text \<open>
  A sender that writes its chunks one after the other, stops at the first error, and closes
  the ring after the last; a receiver that reads into one buffer after the other until the
  first error. They return the bytes the calls report and the error that ended them.
\<close>

fun send :: "nat \<Rightarrow> 'w ctx \<Rightarrow> byte list list \<Rightarrow> 'w writer \<Rightarrow> ('w, byte list \<times> gerror option \<times> 'w writer) prog" where
  "send fuel ctx [] w = pbind (CloseWriter w) (\<lambda>(err, w). Return ([], err, w))"
| "send fuel ctx (p # ps) w = pbind (WriteContext fuel ctx w p) (\<lambda>(res, w). case res of
     None \<Rightarrow> Await (\<lambda>_. False) (Return ([], None, w))
   | Some (n, Some e) \<Rightarrow> Return (take (nat n) p, Some e, w)
   | Some (n, None) \<Rightarrow> pbind (send fuel ctx ps w) (\<lambda>(sent, z). Return (take (nat n) p @ sent, z)))"

fun receive :: "nat \<Rightarrow> 'w ctx \<Rightarrow> byte list list \<Rightarrow> 'w reader \<Rightarrow> ('w, byte list \<times> gerror option \<times> 'w reader) prog" where
  "receive fuel ctx [] r = Return ([], None, r)"
| "receive fuel ctx (p # ps) r = pbind (ReadContext fuel ctx r p) (\<lambda>(res, q, r). case res of
     None \<Rightarrow> Await (\<lambda>_. False) (Return ([], None, r))
   | Some (n, Some e) \<Rightarrow> Return (take (nat n) q, Some e, r)
   | Some (n, None) \<Rightarrow> pbind (receive fuel ctx ps r) (\<lambda>(got, z). Return (take (nat n) q @ got, z)))"

context waking_storage
begin

lemma rg_send:
  assumes ctx: "ctx_ok data live ctx" and A: "\<And>c x. prefix x (concat ps) \<Longrightarrow> A c (pr @ x)"
    and "writer_knows data live wk A cap h pr [] w g" "w_st h = S"
    and k: "\<And>sent e h' w g. prefix sent (concat ps) \<Longrightarrow> writer_knows data live wk A cap h' (pr @ sent) [] w g \<Longrightarrow>
      rg (writer_waits data wk cap) (reader_step data live wk A cap) (writer_step data live wk A cap) Q (k (sent, e, h')) w g"
  shows "rg (writer_waits data wk cap) (reader_step data live wk A cap) (writer_step data live wk A cap) Q (pbind (send fuel ctx ps h) k) w g"
  using assms(2-)
proof (induction ps arbitrary: pr h w g k)
  case Nil
  have "rg (writer_waits data wk cap) (reader_step data live wk A cap) (writer_step data live wk A cap) Q
      (pbind (CloseWriter h) (\<lambda>(err, h'). k ([], err, h'))) w g"
    by (rule rg_CloseWriter [OF Nil(2,3)]) (use Nil(1) [of "[]"] in \<open>simp_all add: Nil(4)\<close>)
  then show ?case by (simp add: pbind_assoc case_prod_unfold)
next
  case (Cons p ps)
  have Ap: "A False (pr @ take n p)" for n
    by (rule Cons.prems(1)) (simp add: take_is_prefix prefix_prefix)
  have "rg (writer_waits data wk cap) (reader_step data live wk A cap) (writer_step data live wk A cap) Q
      (pbind (writeLoop fuel ctx h p (int 0) (minPoll (w_opt h))) (\<lambda>(res, h'). case res of
         None \<Rightarrow> Await (\<lambda>_. False) (k ([], None, h'))
       | Some (n, Some e) \<Rightarrow> k (take (nat n) p, Some e, h')
       | Some (n, None) \<Rightarrow> pbind (send fuel ctx ps h') (\<lambda>(sent, z). k (take (nat n) p @ sent, z)))) w g"
  proof (rule rg_writeLoop [where A = A and pr = pr, OF ctx], goal_cases)
    case (5 res n h' w g)
    have rest: "rg (writer_waits data wk cap) (reader_step data live wk A cap) (writer_step data live wk A cap) Q
        (pbind (send fuel ctx ps h') (\<lambda>(sent, z). k (p @ sent, z))) w g"
      if "writer_knows data live wk A cap h' (pr @ p) [] w g"
    proof (rule Cons.IH [OF _ that 5(3)])
      show "A c ((pr @ p) @ x)" if "prefix x (concat ps)" for c x
        using Cons.prems(1) [of "p @ x"] that by simp
      show "rg (writer_waits data wk cap) (reader_step data live wk A cap) (writer_step data live wk A cap) Q
          (case (sent, e, h'') of (sent, z) \<Rightarrow> k (p @ sent, z)) w g"
        if "prefix sent (concat ps)" "writer_knows data live wk A cap h'' ((pr @ p) @ sent) [] w g"
        for sent e h'' w g
        using Cons.prems(4) [of "p @ sent" h'' w g e] that by simp
    qed
    consider "res = None" | "res = Some (int n, None)" "n = length p" | e where "res = Some (int n, Some e)"
      using 5(4) by (metis option.exhaust)
    then show ?case
    proof cases
      case 3
      then show ?thesis using Cons.prems(4) [of "take n p" h' w g "Some e"] 5(2)
        by (simp add: take_is_prefix prefix_prefix)
    qed (use rest 5(2) in \<open>simp_all add: rg_Await\<close>)
  qed (use Ap Cons.prems(2,3) in simp_all)
  then show ?case
    by (simp add: pbind_assoc WriteContext_def case_prod_unfold)
      (erule back_subst [where P = "\<lambda>m. rg _ _ _ _ m _ _"], auto intro!: arg_cong [where f = "pbind _"]
         simp: fun_eq_iff pbind_assoc case_prod_unfold split: option.split)
qed

lemma rg_receive:
  assumes ctx: "ctx_ok data live ctx"
    and "reader_knows data live wk A cap r co [] w g" "r_st r = S"
    and k: "\<And>got e r' w g. reader_knows data live wk A cap r' (co @ got) [] w g \<Longrightarrow>
      rg (reader_waits data wk cap) (writer_step data live wk A cap) (reader_step data live wk A cap) Q (k (got, e, r')) w g"
  shows "rg (reader_waits data wk cap) (writer_step data live wk A cap) (reader_step data live wk A cap) Q (pbind (receive fuel ctx ps r) k) w g"
  using assms(2-)
proof (induction ps arbitrary: co r w g k)
  case Nil
  then show ?case using Nil(3) [of r "[]"] by simp
next
  case (Cons p ps)
  let ?k = "\<lambda>(res, q, r'). case res of
         None \<Rightarrow> Await (\<lambda>_. False) (k ([], None, r'))
       | Some (n, Some e) \<Rightarrow> k (take (nat n) q, Some e, r')
       | Some (n, None) \<Rightarrow> pbind (receive fuel ctx ps r') (\<lambda>(got, z). k (take (nat n) q @ got, z))"
  have after: "rg (reader_waits data wk cap) (writer_step data live wk A cap) (reader_step data live wk A cap) Q (?k (res, q, r')) w g"
    if n: "n \<le> length q" "reader_knows data live wk A cap r' (co @ take n q) [] w g" "r_st r' = S"
      and res: "res = None \<or> (\<exists>err. res = Some (int n, err))" for res n q r' w g
  proof -
    have rest: "rg (reader_waits data wk cap) (writer_step data live wk A cap) (reader_step data live wk A cap) Q
        (pbind (receive fuel ctx ps r') (\<lambda>(got, z). k (take n q @ got, z))) w g"
      by (rule Cons.IH [OF n(2,3)]) (use Cons.prems(3) in simp)
    consider "res = None" | "res = Some (int n, None)" | e where "res = Some (int n, Some e)"
      using res by (metis option.exhaust)
    then show ?thesis
      using rest Cons.prems(3) [OF n(2)] by cases (simp_all add: rg_Await)
  qed
  have "rg (reader_waits data wk cap) (writer_step data live wk A cap) (reader_step data live wk A cap) Q
      (pbind (ReadContext fuel ctx r p) ?k) w g"
  proof (cases "p = []")
    case True
    then show ?thesis using after [of 0 p r w g "Some (0, None)"] Cons.prems(1,2)
      by (simp add: ReadContext_def)
  next
    case False
    have "rg (reader_waits data wk cap) (writer_step data live wk A cap) (reader_step data live wk A cap) Q
        (pbind (readLoop fuel ctx r p (minPoll (r_opt r))) ?k) w g"
      by (rule rg_readLoop [OF ctx Cons.prems(1,2) False]) (rule after, auto)
    with False show ?thesis by (simp add: ReadContext_def)
  qed
  moreover have "pbind (receive fuel ctx (p # ps) r) k = pbind (ReadContext fuel ctx r p) ?k"
    by (simp add: pbind_assoc)
      (auto intro!: arg_cong [where f = "pbind _"]
         simp: fun_eq_iff pbind_assoc case_prod_unfold split: option.split)
  ultimately show ?case by simp
qed

end

lemma spsc_inv_stable:
  "stable (reader_step data live wk A cap) (spsc_inv data live A cap)"
  "stable (writer_step data live wk A cap) (spsc_inv data live A cap)"
  by (auto simp: stable_def step_defs)

text \<open>What the schedule has led to, in terms of the history it has made.\<close>

definition out_of_fuel :: "('w, 'a) prog \<Rightarrow> bool" where
  "out_of_fuel p \<longleftrightarrow> (\<exists>b q. p = Await b q \<and> hopeless b)"

lemma spsc_run:
  fixes SW SR :: "'w storage"
  assumes S: "waking_storage SW data live wk" "waking_storage SR data live wk" and ctx: "ctx_ok data live c1" "ctx_ok data live c2"
    and init: "live s" "w_st w = SW" "r_st r = SR" "pair_inv cap (data s) w r"
    and run: "par_run ss (send f1 c1 ps w, receive f2 c2 bs r, s) = (p', q', s')"
  defines "c0 \<equiv> contents cap (data s)"
  defines "A \<equiv> \<lambda>_ x. prefix x (c0 @ concat ps)"
  shows "\<exists>g. spsc_inv data live A cap s' g \<and> p' \<noteq> Crash c \<and> q' \<noteq> Crash c' \<and>
    (\<forall>sent e w'. p' = Return (sent, e, w') \<longrightarrow> produced g = c0 @ sent \<and> prefix sent (concat ps)) \<and>
    (\<forall>got e r'. q' = Return (got, e, r') \<longrightarrow> consumed g = got) \<and>
    (tstep p' s' = None \<longrightarrow> (\<exists>a. p' = Return a) \<and> \<not> wdebt g \<or> writer_asleep data wk cap s' g \<or> out_of_fuel p') \<and>
    (tstep q' s' = None \<longrightarrow> (\<exists>a. q' = Return a) \<and> \<not> rdebt g \<or> reader_asleep data wk cap s' g \<or> out_of_fuel q')"
proof -
  let ?g = "\<lparr>produced = c0, consumed = [], wdebt = False, rdebt = False\<rparr>"
  let ?QW = "\<lambda>(sent :: byte list, e :: gerror option, w' :: 'w writer) (w :: 'w) g.
      produced g = c0 @ sent \<and> prefix sent (concat ps) \<and> \<not> wdebt g"
  let ?QR = "\<lambda>(got :: byte list, e :: gerror option, r' :: 'w reader) (w :: 'w) g. consumed g = got \<and> \<not> rdebt g"
  have ok: "ring_ok cap (data s)" and inv: "writer_inv cap (data s) w" "reader_inv cap (data s) r"
    using init(4) by (auto simp: pair_inv_def writer_inv_def)
  have i: "spsc_inv data live A cap s ?g"
    using init(1) ok by (simp add: spsc_inv_def A_def c0_def)
  have kw: "writer_knows data live wk A cap w c0 [] s ?g" and kr: "reader_knows data live wk A cap r [] [] s ?g"
    using i inv by (simp_all add: writer_knows_def reader_knows_def)
  have "rg (writer_waits data wk cap) (reader_step data live wk A cap) (writer_step data live wk A cap) ?QW (pbind (send f1 c1 ps w) Return) s ?g"
  proof (rule waking_storage.rg_send [OF S(1) ctx(1) _ kw init(2)])
    show "A c (c0 @ x)" if "prefix x (concat ps)" for c x using that by (simp add: A_def)
    show "rg (writer_waits data wk cap) (reader_step data live wk A cap) (writer_step data live wk A cap) ?QW (Return (sent, e, h')) w g"
      if "prefix sent (concat ps)" "writer_knows data live wk A cap h' (c0 @ sent) [] w g" for sent e h' w g
      using that by (intro rg_Return_stable [OF writer_knows_stable that(2)]) (simp add: writer_knows_def)
  qed
  then have rw: "rg (writer_waits data wk cap) (reader_step data live wk A cap) (writer_step data live wk A cap) ?QW (send f1 c1 ps w) s ?g"
    by (simp add: pbind_Return)
  have "rg (reader_waits data wk cap) (writer_step data live wk A cap) (reader_step data live wk A cap) ?QR (pbind (receive f2 c2 bs r) Return) s ?g"
  proof (rule waking_storage.rg_receive [OF S(2) ctx(2) kr init(3)])
    show "rg (reader_waits data wk cap) (writer_step data live wk A cap) (reader_step data live wk A cap) ?QR (Return (got, e, r')) w g"
      if "reader_knows data live wk A cap r' ([] @ got) [] w g" for got e r' w g
      by (rule rg_Return_stable [OF reader_knows_stable that]) (simp add: reader_knows_def)
  qed
  then have rr: "rg (reader_waits data wk cap) (writer_step data live wk A cap) (reader_step data live wk A cap) ?QR (receive f2 c2 bs r) s ?g"
    by (simp add: pbind_Return)
  obtain g where g: "spsc_inv data live A cap s' g"
      "rg (writer_waits data wk cap) (reader_step data live wk A cap) (writer_step data live wk A cap) ?QW p' s' g"
      "rg (reader_waits data wk cap) (writer_step data live wk A cap) (reader_step data live wk A cap) ?QR q' s' g"
    using spsc.par_run_sound [OF rw rr run spsc_inv_stable i] by blast
  moreover have "p' \<noteq> Crash c" "q' \<noteq> Crash c'" using g(2,3) by (auto simp: rg_Crash)
  moreover have "tstep p' s' = None \<longrightarrow> (\<exists>a. p' = Return a) \<and> \<not> wdebt g \<or> writer_asleep data wk cap s' g \<or> out_of_fuel p'"
    using spsc.blocked_left [OF g(2)] by (fastforce simp: out_of_fuel_def writer_waits_def)
  moreover have "tstep q' s' = None \<longrightarrow> (\<exists>a. q' = Return a) \<and> \<not> rdebt g \<or> reader_asleep data wk cap s' g \<or> out_of_fuel q'"
    using spsc.blocked_right [OF g(3)] by (fastforce simp: out_of_fuel_def reader_waits_def)
  moreover have "?QW a s' g" if "p' = Return a" for a
    by (rule spsc.returned_left) (use g(2) that in blast)
  moreover have "?QR b s' g" if "q' = Return b" for b
    by (rule spsc.returned_right) (use g(3) that in blast)
  ultimately show ?thesis by (intro exI [of _ g]) auto
qed


section \<open>Properties\<close>

text \<open>
  C3: no schedule of a sending and a receiving thread makes either of them panic or breaks
  the ring: at every moment the region holds a valid ring of the capacity, with at most
  that many bytes queued.
\<close>

theorem spsc_safe:
  assumes "ring_storage SW data live" "ring_storage SR data live"
    and "ctx_ok data live c1" "ctx_ok data live c2"
    and "live s" "w_st w = SW" "r_st r = SR" "pair_inv cap (data s) w r"
    and "par_run ss (send f1 c1 ps w, receive f2 c2 bs r, s) = (p', q', s')"
  shows "p' \<noteq> Crash c \<and> q' \<noteq> Crash c' \<and> live s' \<and> ring_ok cap (data s') \<and>
    length (contents cap (data s')) \<le> cap"
  using spsc_run [OF assms(1,2) [THEN ring_storage.waking_None] assms(3-), of c c'] by (auto simp: spsc_inv_def ring_ok_def)

theorem spsc_safe_witness:
  "case par_run [WriterSide, ReaderSide, WriterSide] (send 2 Background [[1, 2]] (fresh_writer mem_storage 4),
      receive 2 Background [[0, 0, 0]] (fresh_reader mem_storage 4), mem4) of
     (p', q', s') \<Rightarrow> p' \<noteq> Crash SliceBounds \<and> length (contents 4 (buf s')) \<le> 4"
  using spsc_safe [OF mem_ring_storage mem_ring_storage Background_ok Background_ok mem4_live mem4_writer mem4_reader
      pair_inv_mem4, of "[WriterSide, ReaderSide, WriterSide]" 2 "[[1, 2]]" 2 "[[0, 0, 0]]"]
  by (simp del: par_run.simps send.simps receive.simps length_contents split: prod.split)

text \<open>
  C1: the stream property, under every interleaving of the two threads' storage accesses,
  for any chunk and buffer sizes, contexts and fuel: whenever the receiver has returned,
  what it got is a prefix of what was in the ring before followed by what the sender was
  given to send. So no byte is ever read before it has been written, and none is lost,
  duplicated or reordered in between.
\<close>

theorem spsc_stream_prefix:
  assumes "ring_storage SW data live" "ring_storage SR data live"
    and "ctx_ok data live c1" "ctx_ok data live c2"
    and "live s" "w_st w = SW" "r_st r = SR" "pair_inv cap (data s) w r"
    and "par_run ss (send f1 c1 ps w, receive f2 c2 bs r, s) = (p', Return (got, e, r'), s')"
  shows "prefix got (contents cap (data s) @ concat ps)"
proof -
  have "prefix (got @ contents cap (data s')) (contents cap (data s) @ concat ps)"
    using spsc_run [OF assms(1,2) [THEN ring_storage.waking_None] assms(3-), of undefined undefined] by (auto simp: spsc_inv_def)
  then show ?thesis by (rule append_prefixD)
qed

theorem spsc_stream_prefix_witness:
  "\<exists>got. fst (snd (par_run (replicate 5 WriterSide @ replicate 6 ReaderSide)
      (send 2 Background [[1, 2]] (fresh_writer mem_storage 4),
       receive 2 Background [[0, 0, 0]] (fresh_reader mem_storage 4), mem4))) = got \<and>
    (case got of Return (xs, e, r) \<Rightarrow> xs = [1, 2] \<and> prefix xs [1, 2] | _ \<Rightarrow> False)"
proof -
  let ?c = "par_run (replicate 5 WriterSide @ replicate 6 ReaderSide)
      (send 2 Background [[1, 2]] (fresh_writer mem_storage 4),
       receive 2 Background [[0, 0, 0]] (fresh_reader mem_storage 4), mem4)"
  have *: "case fst (snd ?c) of Return (xs, e, r) \<Rightarrow> xs = [1, 2] | _ \<Rightarrow> False" by code_simp
  obtain p' q' s' where c: "?c = (p', q', s')" by (metis prod.exhaust)
  with * obtain e r where q': "q' = Return ([1, 2], e, r)"
    by (cases q') (auto simp del: par_run.simps)
  have "prefix [1, 2] (contents 4 (buf mem4) @ concat [[1, 2]])"
    by (rule spsc_stream_prefix [OF mem_ring_storage mem_ring_storage Background_ok Background_ok mem4_live mem4_writer
        mem4_reader pair_inv_mem4 c [unfolded q']])
  with c q' show ?thesis by (simp add: fresh_region del: par_run.simps)
qed

text \<open>
  C2: accounting. When both threads have returned, the bytes the sender reported as sent
  are a prefix of what it was given, and, after what was in the ring before, they are
  exactly the bytes the receiver got followed by those left in the ring: nothing is lost
  between the two counts, also when a call ended with an error or a cancelled context.
\<close>

theorem spsc_accounting:
  assumes "ring_storage SW data live" "ring_storage SR data live"
    and "ctx_ok data live c1" "ctx_ok data live c2"
    and "live s" "w_st w = SW" "r_st r = SR" "pair_inv cap (data s) w r"
    and "par_run ss (send f1 c1 ps w, receive f2 c2 bs r, s) =
      (Return (sent, e1, w'), Return (got, e2, r'), s')"
  shows "contents cap (data s) @ sent = got @ contents cap (data s') \<and> prefix sent (concat ps)"
  using spsc_run [OF assms(1,2) [THEN ring_storage.waking_None] assms(3-), of undefined undefined] by (auto simp: spsc_inv_def)

theorem spsc_accounting_witness:
  "case par_run (replicate 7 WriterSide @ replicate 6 ReaderSide)
      (send 2 Background [[1, 2, 3]] (fresh_writer mem_storage 4),
       receive 2 Background [[0, 0]] (fresh_reader mem_storage 4), mem4) of
     (Return (sent, e1, w), Return (got, e2, r), s) \<Rightarrow> sent = [1, 2, 3] \<and> got = [1, 2] \<and> contents 4 (buf s) = [3]
   | _ \<Rightarrow> False"
proof -
  let ?c = "par_run (replicate 7 WriterSide @ replicate 6 ReaderSide)
      (send 2 Background [[1, 2, 3]] (fresh_writer mem_storage 4),
       receive 2 Background [[0, 0]] (fresh_reader mem_storage 4), mem4)"
  have *: "case ?c of (Return (sent, e1, w), Return (got, e2, r), s) \<Rightarrow> sent = [1, 2, 3] \<and> got = [1, 2]
      | _ \<Rightarrow> False" by code_simp
  obtain p' q' s' where c: "?c = (p', q', s')" by (metis prod.exhaust)
  with * obtain e1 w e2 r where pq: "p' = Return ([1, 2, 3], e1, w)" "q' = Return ([1, 2], e2, r)"
    by (cases p'; cases q') (auto simp del: par_run.simps)
  have "contents 4 (buf mem4) @ [1, 2, 3] = [1, 2] @ contents 4 (buf s') \<and> prefix [1, 2, 3 :: byte] (concat [[1, 2, 3]])"
    by (rule spsc_accounting [OF mem_ring_storage mem_ring_storage Background_ok Background_ok mem4_live mem4_writer
        mem4_reader pair_inv_mem4 c [unfolded pq]])
  then have "contents 4 (buf s') = [3]" by (simp add: fresh_region)
  then show ?thesis unfolding c pq by simp
qed



end
