(* ===== verification/ShmNative.thy ===== *)
theory ShmNative
  imports ShmLinux ShmPort Threads
begin

text \<open>
  \<^verbatim>\<open>shm_native.go\<close>: \<^verbatim>\<open>CreateShm\<close> and \<^verbatim>\<open>OpenShm\<close> of the root package. The build tags select
  one \<^verbatim>\<open>backend.CreateShm\<close>; it is an argument here, so that one definition covers Linux
  (\<open>linux_create\<close>, \<open>linux_open\<close>) and the other platforms (\<open>port_create\<close>, \<open>port_open\<close>).
\<close>

section \<open>Operations\<close>

type_synonym 'w backend_fun = "string \<Rightarrow> int64 \<Rightarrow> ('w, gerror + 'w storage) prog"

definition CreateShm ::
  "'w backend_fun \<Rightarrow> string \<Rightarrow> int64 \<Rightarrow> (options \<Rightarrow> options) list \<Rightarrow> ('w, gerror + 'w writer) prog" where
  "CreateShm create name capacity opts =
     (case validateCapacity capacity of
        Some err \<Rightarrow> Return (Inl err)
      | None \<Rightarrow> pbind (create name (add64 (int headerSize) capacity)) (\<lambda>r. case r of
            Inl err \<Rightarrow> Return (Inl err)
          | Inr st \<Rightarrow> pbind (NewWriter st capacity opts) (\<lambda>r. case r of
                Inl err \<Rightarrow> pbind (call (CloseOp st)) (\<lambda>_. Return (Inl err))
              | Inr w \<Rightarrow> Return (Inr w))))"

definition OpenShm ::
  "'w backend_fun \<Rightarrow> string \<Rightarrow> int64 \<Rightarrow> (options \<Rightarrow> options) list \<Rightarrow> ('w, gerror + 'w reader) prog" where
  "OpenShm open name capacity opts =
     (case validateCapacity capacity of
        Some err \<Rightarrow> Return (Inl err)
      | None \<Rightarrow> pbind (open name (add64 (int headerSize) capacity)) (\<lambda>r. case r of
            Inl err \<Rightarrow> Return (Inl err)
          | Inr st \<Rightarrow> pbind (NewReader st capacity opts) (\<lambda>r. case r of
                Inl err \<Rightarrow> pbind (call (CloseOp st)) (\<lambda>_. Return (Inl err))
              | Inr r \<Rightarrow> Return (Inr r))))"

definition linux_create :: "'w os \<Rightarrow> 'w backend_fun" where
  "linux_create OS name sz = pbind (backend_CreateShm OS name sz) (\<lambda>r. Return (map_sum id (shm_storage OS) r))"

definition linux_open :: "'w os \<Rightarrow> 'w backend_fun" where
  "linux_open OS name sz = pbind (backend_OpenShm OS name sz) (\<lambda>r. Return (map_sum id (shm_storage OS) r))"

definition port_create :: "'w hshm \<Rightarrow> 'w backend_fun" where
  "port_create H name sz = pbind (port_CreateShm H name sz) (\<lambda>r. Return (map_sum id (port_storage H) r))"

definition port_open :: "'w hshm \<Rightarrow> 'w backend_fun" where
  "port_open H name sz = pbind (port_OpenShm H name sz) (\<lambda>r. Return (map_sum id (port_storage H) r))"


section \<open>A ring in a named segment\<close>

text \<open>
  After \<^verbatim>\<open>CreateShm\<close> and \<^verbatim>\<open>OpenShm\<close> of one name the two handles have mappings of their own
  of one inode, both backed; from then on the theorems of \<^verbatim>\<open>Session\<close> and \<^verbatim>\<open>Threads\<close> apply.
\<close>

lemma segment_size:
  assumes "k \<le> 30"
  shows "validateCapacity (2 ^ k) = None" "add64 (int headerSize) (2 ^ k) = 64 + 2 ^ k"
    "validateShmSize (64 + 2 ^ k) = None" "nat (64 + 2 ^ k) = 64 + 2 ^ k" "(64 + 2 ^ k :: nat) < 2 ^ 62"
proof -
  have le: "(2::int) ^ k \<le> 2 ^ 30" using assms by (intro power_increasing) auto
  have pos: "(0::int) < 2 ^ k" by simp
  show "add64 (int headerSize) (2 ^ k) = 64 + 2 ^ k"
    using le pos by (subst add64_id) (simp_all add: is_int64_def headerSize_def del: zero_less_power)
  show "validateShmSize (64 + 2 ^ k) = None"
    using le pos by (simp add: valid_size del: zero_less_power)
  show "validateCapacity (2 ^ k) = None" using assms by (auto simp: validateCapacity_iff)
  show "nat (64 + 2 ^ k) = 64 + 2 ^ k" by (simp add: nat_add_distrib nat_power_eq)
  have "(2::nat) ^ k \<le> 2 ^ 30" using assms by (intro power_increasing) auto
  then show "(64 + 2 ^ k :: nat) < 2 ^ 62" by simp
qed

lemma map_sum_Inr: "map_sum f g x = Inr y \<longleftrightarrow> (\<exists>h. x = Inr h \<and> y = g h)"
  by (cases x) auto

context posix
begin

lemma linux_create_ok:
  assumes "run (CreateShm (linux_create OS) name c opts) w0 = (Done (Inr W), w1)"
  obtains k path m ino where "c = 2 ^ k" "k \<le> 30" "shmPath name = Inr path"
    "w_st W = shm_storage OS (shm_of m (64 + 2 ^ k) True path)" "dir w1 path = Some ino"
    "maps w1 m = Some (ino, 64 + 2 ^ k)" "length (bytes w1 ino) = 64 + 2 ^ k"
    "writer_inv (2 ^ k) (bytes w1 ino) W" "\<exists>d. bytes w1 ino = patch d 0 (header_bytes (2 ^ k)) \<and> length d = 64 + 2 ^ k"
    "\<And>i. dir w0 path = Some i \<Longrightarrow> ino = i" "maps w0 m = None" "maps w1 = (maps w0)(m \<mapsto> (ino, 64 + 2 ^ k))"
proof -
  have c: "validateCapacity c = None" using assms by (auto simp: CreateShm_def split: option.splits)
  then obtain k where k: "c = 2 ^ k" "k \<le> 31" by (auto simp: validateCapacity_iff)
  have le: "(2::int) ^ k \<le> 2 ^ 31" using k(2) by (intro power_increasing) auto
  then have add: "add64 (int headerSize) c = 64 + 2 ^ k"
    using zero_less_power [of "2::int" k]
    by (subst add64_id) (simp_all add: k(1) is_int64_def headerSize_def del: zero_less_power)
  obtain h wa where create: "run (backend_CreateShm OS name (64 + 2 ^ k)) w0 = (Done (Inr h), wa)"
    and new: "run (NewWriter (shm_storage OS h) c opts) wa = (Done (Inr W), w1)"
    using assms unfolding CreateShm_def linux_create_def add
    by (auto simp: run_basic c map_sum_Inr split: prod.splits outcome.splits sum.splits)
  obtain path m ino where h: "validateShmSize (64 + 2 ^ k) = None" "shmPath name = Inr path"
      "h = shm_of m (64 + 2 ^ k) True path" "dir wa path = Some ino" "length (bytes wa ino) = nat (64 + 2 ^ k)"
      "maps wa = (maps w0)(m \<mapsto> (ino, nat (64 + 2 ^ k)))" "\<And>i. dir w0 path = Some i \<Longrightarrow> ino = i" "maps w0 m = None"
    using create_ok [OF create] by metis
  have k30: "k \<le> 30"
    using h(1) k(2) by (cases "k = 31") (simp_all add: valid_size)
  note sz = segment_size [OF k30]
  have S: "ring_storage (shm_storage OS h) (\<lambda>w. bytes w ino) (backed dir bytes fds maps {m} ino (64 + 2 ^ k) wa)"
    unfolding h(3) by (rule shm_live) (use sz(4) in simp_all)
  have live: "backed dir bytes fds maps {m} ino (64 + 2 ^ k) wa wa"
    using h(5,6) sz(4,5) by (simp add: backed_def)
  have "int headerSize + 2 ^ k \<le> int (length (bytes wa ino))" by (simp add: h(5) sz(4) headerSize_def)
  from ring_storage.run_NewWriter(3) [OF S live sz(1) this, of opts] new k(1)
  have "backed dir bytes fds maps {m} ino (64 + 2 ^ k) wa w1" "bytes w1 ino = patch (bytes wa ino) 0 (header_bytes (2 ^ k))"
      "w_st W = shm_storage OS h" "writer_inv (2 ^ k) (bytes w1 ino) W"
    by (auto simp: nat_power_eq)
  with h k(1) k30 sz(4) show ?thesis
    by (intro that [of k path m ino]) (auto simp: backed_def)
qed

lemma shm_setup:
  assumes "run (CreateShm (linux_create OS) name c opts) w0 = (Done (Inr W), w1)"
    and "run (OpenShm (linux_open OS) name c opts') w1 = (Done (Inr R), w2)"
  obtains k path m1 m2 ino where "c = 2 ^ k" "k \<le> 30" "shmPath name = Inr path" "dir w2 path = Some ino"
    "w_st W = shm_storage OS (shm_of m1 (64 + 2 ^ k) True path)"
    "r_st R = shm_storage OS (shm_of m2 (64 + 2 ^ k) False path)"
    "backed dir bytes fds maps {m1, m2} ino (64 + 2 ^ k) w2 w2" "pair_inv (2 ^ k) (bytes w2 ino) W R"
    "fifo_of (2 ^ k) (bytes w2 ino) = \<lparr>queue = [], finished = False\<rparr>"
proof -
  obtain k path m1 ino d where W: "c = 2 ^ k" "k \<le> 30" "shmPath name = Inr path"
      "w_st W = shm_storage OS (shm_of m1 (64 + 2 ^ k) True path)" "dir w1 path = Some ino"
      "maps w1 m1 = Some (ino, 64 + 2 ^ k)" "length (bytes w1 ino) = 64 + 2 ^ k" "writer_inv (2 ^ k) (bytes w1 ino) W"
    and d: "bytes w1 ino = patch d 0 (header_bytes (2 ^ k))" "length d = 64 + 2 ^ k"
    using linux_create_ok [OF assms(1)] by metis
  note sz = segment_size [OF W(2)]
  have cap: "cap_ok (2 ^ k)" "int (2 ^ k) = 2 ^ k" using W(2) by (auto simp: cap_ok_def)
  have "headerSize + 2 ^ k \<le> length d" by (simp add: d(2) headerSize_def)
  note fresh = fresh_ring [OF cap(1) this, unfolded cap(2), folded d(1)]
  obtain h wb where opened: "run (backend_OpenShm OS name (64 + 2 ^ k)) w1 = (Done (Inr h), wb)"
    and new: "run (NewReader (shm_storage OS h) (2 ^ k) opts') wb = (Done (Inr R), w2)"
    using assms(2) unfolding OpenShm_def linux_open_def W(1) sz(2)
    by (auto simp: run_basic sz(1) map_sum_Inr split: prod.splits outcome.splits sum.splits)
  obtain m2 where h: "h = shm_of m2 (64 + 2 ^ k) False path" "dir wb = dir w1" "bytes wb = bytes w1"
      "maps wb = (maps w1)(m2 \<mapsto> (ino, 64 + 2 ^ k))"
    using open_ok [OF opened] W(3,5) sz(4) by (metis option.inject sum.inject(2))
  have S: "ring_storage (shm_storage OS h) (\<lambda>w. bytes w ino) (backed dir bytes fds maps {m1, m2} ino (64 + 2 ^ k) wb)"
    unfolding h(1) by (rule shm_live) (use sz(4) in simp_all)
  have live: "backed dir bytes fds maps {m1, m2} ino (64 + 2 ^ k) wb wb"
    using h(3,4) W(6,7) sz(5) by (simp add: backed_def)
  have R: "R = \<lparr>r_st = shm_storage OS h, r_capacity = 2 ^ k, r_mask = 2 ^ k - 1, r_opt = applyOptions opts',
      r_head = 0, r_cachedTail = 0\<rparr>" and w2: "w2 = wb"
    using new by (auto simp: run_NewReader [OF S live] split: if_splits)
  have "pair_inv (2 ^ k) (bytes wb ino) W R"
    using W(8) fresh h(3) by (simp add: R pair_inv_def reader_inv_def nat_power_eq)
  with W live fresh(2,3) h(1-3) w2 show ?thesis
    by (intro that [of k path ino m1 m2]) (auto simp: R fifo_of_def)
qed

end


section \<open>Properties\<close>

lemma kernel_pair:
  obtains w k1 r k2 where "run (CreateShm (linux_create kernel_os) ''x'' 4 []) kernel0 = (Done (Inr w), k1)"
    "run (OpenShm (linux_open kernel_os) ''x'' 4 []) k1 = (Done (Inr r), k2)"
proof -
  have "case run (CreateShm (linux_create kernel_os) ''x'' 4 []) kernel0 of
      (Done (Inr w), k1) \<Rightarrow> (case run (OpenShm (linux_open kernel_os) ''x'' 4 []) k1 of
        (Done (Inr r), k2) \<Rightarrow> True | _ \<Rightarrow> False)
    | _ \<Rightarrow> False"
    by code_simp
  then show ?thesis by (auto intro: that split: prod.splits outcome.splits sum.splits)
qed

text \<open>
  C7: end to end on Linux, over every operating system that keeps the laws: if \<^verbatim>\<open>CreateShm\<close> and
  then \<^verbatim>\<open>OpenShm\<close> of one name and capacity succeed, in any state of the system, then under every
  schedule of the two processes, whatever they send and receive, neither panics or faults, and
  what the receiver got is a prefix of what the sender was given.
\<close>

theorem shm_stream:
  assumes "posix OS dir bytes fds maps page"
    and "run (CreateShm (linux_create OS) name c opts) w0 = (Done (Inr w), w1)"
    and "run (OpenShm (linux_open OS) name c opts') w1 = (Done (Inr r), w2)"
    and "par_run ss (send f1 Background ps w, receive f2 Background bs r, w2) = (p', q', w3)"
  shows "p' \<noteq> Crash e1 \<and> q' \<noteq> Crash e2 \<and> (\<forall>got e r'. q' = Return (got, e, r') \<longrightarrow> prefix got (concat ps))"
proof -
  obtain k path m1 m2 ino where k: "k \<le> 30"
    and st: "w_st w = shm_storage OS (shm_of m1 (64 + 2 ^ k) True path)"
      "r_st r = shm_storage OS (shm_of m2 (64 + 2 ^ k) False path)"
    and live: "backed dir bytes fds maps {m1, m2} ino (64 + 2 ^ k) w2 w2" and inv: "pair_inv (2 ^ k) (bytes w2 ino) w r"
    and empty: "contents (2 ^ k) (bytes w2 ino) = []"
    using posix.shm_setup [OF assms(1-3)] by (metis fifo.select_convs(1) fifo_of_def)
  have S: "ring_storage (shm_storage OS (shm_of m1 (64 + 2 ^ k) True path)) (\<lambda>w. bytes w ino)
      (backed dir bytes fds maps {m1, m2} ino (64 + 2 ^ k) w2)"
    "ring_storage (shm_storage OS (shm_of m2 (64 + 2 ^ k) False path)) (\<lambda>w. bytes w ino)
      (backed dir bytes fds maps {m1, m2} ino (64 + 2 ^ k) w2)"
    by (rule posix.shm_live [OF assms(1)]; use segment_size(4) [OF k] in simp)+
  show ?thesis
    using spsc_run [OF S [THEN ring_storage.waking_None] Background_ok Background_ok live st inv assms(4), of e1 e2] empty
    by (auto simp: spsc_inv_def dest: append_prefixD)
qed

theorem shm_stream_witness:
  "\<exists>w k1 r k2. run (CreateShm (linux_create kernel_os) ''x'' 4 []) kernel0 = (Done (Inr w), k1) \<and>
    run (OpenShm (linux_open kernel_os) ''x'' 4 []) k1 = (Done (Inr r), k2) \<and>
    (\<forall>ss. fst (snd (par_run ss (send 3 Background [[1, 2]] w, receive 3 Background [[0], [0]] r, k2))) \<noteq> Crash MemoryFault)"
proof -
  obtain w k1 r k2 where run: "run (CreateShm (linux_create kernel_os) ''x'' 4 []) kernel0 = (Done (Inr w), k1)"
    "run (OpenShm (linux_open kernel_os) ''x'' 4 []) k1 = (Done (Inr r), k2)"
    by (rule kernel_pair)
  have "fst (snd (par_run ss (send 3 Background [[1, 2]] w, receive 3 Background [[0], [0]] r, k2))) \<noteq> Crash MemoryFault" for ss
    using shm_stream [OF kernel.posix_axioms run, of ss 3 "[[1, 2]]" 3 "[[0], [0]]"] by (metis prod.collapse)
  with run show ?thesis by blast
qed

text \<open>
  C29: the capacities of the two layers differ: \<open>2 ^ 31\<close> is a valid capacity, but header and
  data together exceed the 31-bit segment size, so on Linux \<^verbatim>\<open>CreateShm\<close> and \<^verbatim>\<open>OpenShm\<close> refuse
  it, before they call the operating system; \<open>2 ^ 30\<close> is the largest capacity of a segment.
\<close>

theorem shm_capacity_limit:
  assumes "k \<le> 31"
  shows "validateCapacity (2 ^ k) = None \<and>
    (k = 31 \<longleftrightarrow> validateShmSize (add64 (int headerSize) (2 ^ k)) \<noteq> None) \<and>
    (k = 31 \<longrightarrow> run (CreateShm (linux_create OS) name (2 ^ k) opts) w = (Done (Inl (Errorf ''backend: size '')), w) \<and>
      run (OpenShm (linux_open OS) name (2 ^ k) opts) w = (Done (Inl (Errorf ''backend: size '')), w))"
proof -
  have big: "validateShmSize (add64 (int headerSize) (2 ^ 31)) = Some (Errorf ''backend: size '')"
    by (subst add64_id) (simp_all add: is_int64_def headerSize_def validateShmSize_def maxInt32_def)
  have ok: "validateCapacity (2 ^ k) = None" using assms by (auto simp: validateCapacity_iff)
  have small: "validateShmSize (add64 (int headerSize) (2 ^ k)) = None" if "k \<noteq> 31"
    using segment_size(2,3) [of k] that assms by simp
  have "run (CreateShm (linux_create OS) name (2 ^ 31) opts) w = (Done (Inl (Errorf ''backend: size '')), w)"
      "run (OpenShm (linux_open OS) name (2 ^ 31) opts) w = (Done (Inl (Errorf ''backend: size '')), w)"
    if "validateCapacity (2 ^ 31) = None"
    using big that by (simp_all add: CreateShm_def OpenShm_def linux_create_def linux_open_def
        backend_CreateShm_def backend_OpenShm_def)
  with ok small big show ?thesis by (cases "k = 31") auto
qed

theorem shm_capacity_limit_witness:
  "run (CreateShm (linux_create kernel_os) ''x'' (2 ^ 31) []) kernel0 = (Done (Inl (Errorf ''backend: size '')), kernel0)"
  using shm_capacity_limit [of 31 kernel_os "''x''" "[]" kernel0] by simp

text \<open>
  C28: releasing. A \<^verbatim>\<open>CloseStorage\<close> of the creating side that returns without an error has
  marked the ring closed, with its queue intact for whoever still has it mapped, unmapped its
  own mapping and removed the name; later writes get \<^verbatim>\<open>ErrClosed\<close> and never touch the unmapped
  memory.
\<close>

theorem CloseStorage_releases:
  assumes "posix OS dir bytes fds maps page" "w_st w = shm_storage OS (shm_of m sz True path)"
    and "0 \<le> sz" "sz < 2 ^ 31" "maps s m = Some (ino, nat sz)" "length (bytes s ino) = nat sz"
    and "writer_inv cap (bytes s ino) w" "run (CloseStorage w) s = (Done (None, w'), s')"
  shows "dir s' path = None \<and> maps s' m = None \<and> ring_closed (bytes s' ino) \<and>
    contents cap (bytes s' ino) = contents cap (bytes s ino) \<and>
    run (TryWrite w' p) s' = (Done ((0, Some ErrClosed), w'), s')"
proof -
  have S: "ring_storage (shm_storage OS (shm_of m sz True path)) (\<lambda>w. bytes w ino) (backed dir bytes fds maps {m} ino (nat sz) s)"
    by (rule posix.shm_live [OF assms(1)]) (use assms(3) in simp_all)
  have live: "backed dir bytes fds maps {m} ino (nat sz) s s"
    using assms(3-6) by (simp add: backed_def)
  obtain s1 where s1: "run (CloseWriter w) s = (Done (None, w\<lparr>w_closed := True\<rparr>), s1)"
      "ring_closed (bytes s1 ino)" "contents cap (bytes s1 ino) = contents cap (bytes s ino)"
    using ring_storage.run_CloseWriter [OF S live assms(2,7)] by blast
  obtain s2 r where calls: "Munmap OS m s1 = (None, s2)" "RemoveFile OS path s2 = (r, s')" "r = None \<or> r = Some ENOENT"
    and w': "w' = w\<lparr>w_closed := True\<rparr>"
    using assms(8) s1(1) assms(2)
    by (auto simp: CloseStorage_def run_basic shm_Close_def os_IsNotExist_def split: prod.splits option.splits if_splits)
  from posix.munmap [OF assms(1) calls(1)] posix.remove [OF assms(1) calls(2)] calls(3) s1(2,3)
  show ?thesis by (auto simp: w' TryWrite_def)
qed

definition segment4 :: kernel where
  "segment4 = kernel0\<lparr>k_dir := [''/dev/shm/x'' \<mapsto> 0], k_file := (\<lambda>_. fresh_region 4), k_map := [1 \<mapsto> (0, 68)]\<rparr>"

definition segment_storage :: "bool \<Rightarrow> kernel storage" where
  "segment_storage own = shm_storage kernel_os (shm_of 1 68 own ''/dev/shm/x'')"

theorem CloseStorage_releases_witness:
  "\<exists>w k. run (CloseStorage (fresh_writer (segment_storage True) 4)) segment4 = (Done (None, w), k) \<and>
    k_dir k ''/dev/shm/x'' = None \<and> k_map k 1 = None \<and> ring_closed (k_file k 0)"
proof -
  have "case run (CloseStorage (fresh_writer (segment_storage True) 4)) segment4 of
      (Done (None, w), k) \<Rightarrow> True | _ \<Rightarrow> False"
    by code_simp
  then obtain w k where run: "run (CloseStorage (fresh_writer (segment_storage True) 4)) segment4 = (Done (None, w), k)"
    by (auto split: prod.splits outcome.splits option.splits)
  have "k_dir k ''/dev/shm/x'' = None \<and> k_map k 1 = None \<and> ring_closed (k_file k 0) \<and>
      contents 4 (k_file k 0) = contents 4 (k_file segment4 0) \<and>
      run (TryWrite w [1]) k = (Done ((0, Some ErrClosed), w), k)"
    by (rule CloseStorage_releases [OF kernel.posix_axioms _ _ _ _ _ _ run, where sz = 68 and m = 1])
      (simp_all add: segment_storage_def segment4_def fresh_region headerSize_def fresh_writer_inv)
  with run show ?thesis by blast
qed

text \<open>
  The Reader has no such guard: a \<^verbatim>\<open>TryRead\<close> that has to look at the header after a
  successful \<^verbatim>\<open>Reader.Close\<close> touches the unmapped memory and the fault kills the process.
\<close>

theorem read_after_close_faults:
  assumes "posix OS dir bytes fds maps page" "r_st r = shm_storage OS (shm_of m sz False path)" "64 \<le> sz" "sz < 2 ^ 31"
    and "readerAvail r < int (length p)" "p \<noteq> []" "run (CloseReader r) s = (Done None, s')"
  shows "run (TryRead r p) s' = (Panicked MemoryFault, s')"
proof -
  have "Munmap OS m s = (None, s')"
    using assms(2,7) by (auto simp: CloseReader_def run_basic shm_Close_def split: prod.splits option.splits)
  then have "Load OS m 24 4 s' = None"
    using posix.munmap [OF assms(1)] posix.load_unmapped [OF assms(1), of s' m 4 24] by simp
  moreover have "add64 24 4 = 28" by (subst add64_id) (simp_all add: is_int64_def)
  ultimately have "shm_ReadAt OS (shm_of m sz False path) (replicate 4 0) (int offTail) s' = Panic MemoryFault"
    using assms(3) by (simp add: shm_ReadAt_def copyOut_def offTail_def)
  then show ?thesis
    using assms(2,5,6) by (simp add: TryRead_def readUint32At_def run_basic)
qed

theorem read_after_close_faults_witness:
  "\<exists>k. run (CloseReader (fresh_reader (segment_storage False) 4)) segment4 = (Done None, k) \<and>
    run (TryRead (fresh_reader (segment_storage False) 4) [0]) k = (Panicked MemoryFault, k)"
proof -
  have "case run (CloseReader (fresh_reader (segment_storage False) 4)) segment4 of (Done None, k) \<Rightarrow> True | _ \<Rightarrow> False"
    by code_simp
  then obtain k where run: "run (CloseReader (fresh_reader (segment_storage False) 4)) segment4 = (Done None, k)"
    by (auto split: prod.splits outcome.splits option.splits)
  have "run (TryRead (fresh_reader (segment_storage False) 4) [0]) k = (Panicked MemoryFault, k)"
    by (rule read_after_close_faults [OF kernel.posix_axioms _ _ _ _ _ run, where sz = 68 and m = 1])
      (simp_all add: fresh_reader_def segment_storage_def readerAvail_def)
  with run show ?thesis by blast
qed

definition close_race :: "side list" where
  "close_race = replicate 4 ReaderSide @ replicate 4 WriterSide @ [ReaderSide]"

definition blocked :: "('w, 'a) prog \<Rightarrow> 'w \<Rightarrow> bool" where
  "blocked p w = (case p of Await b _ \<Rightarrow> \<not> b w | _ \<Rightarrow> False)"

lemma close_race_result:
  "case par_run close_race (CloseWriter (fresh_writer (segment_storage True) 4),
       Read 5 (fresh_reader (segment_storage False) 4) [0, 0], segment4) of
     (p, q, k) \<Rightarrow> (case p of Return (err, w) \<Rightarrow> err = None | _ \<Rightarrow> False) \<and> blocked q k \<and>
       Uint32 (take 4 (drop offClosed (k_file k 0))) = 1"
  by code_simp

lemma par_run_ended:
  assumes "tstep p w = None" "tstep q w = None"
  shows "par_run ss (p, q, w) = (p, q, w)"
proof (induction ss)
  case (Cons s ss)
  with assms show ?case by (cases s) simp_all
qed simp

text \<open>
  C32: a wake-up can be lost. \<^verbatim>\<open>Close\<close> wakes the Reader by storing the tail again
  (\<^verbatim>\<open>writer.go:194\<close>), but its value does not change; a Reader that has seen the ring open and
  empty and goes to sleep on the tail only after that wake-up (\<^verbatim>\<open>reader.go:135\<close>) finds the
  value it expects and sleeps. With \<^verbatim>\<open>Read\<close>, which waits without a timeout, nothing ends
  this: here the Writer has closed the ring and returned, and no schedule makes the \<^verbatim>\<open>Read\<close>
  return \<^verbatim>\<open>io.EOF\<close>, or anything else.
\<close>

theorem close_wakeup_lost:
  "case par_run close_race (CloseWriter (fresh_writer (segment_storage True) 4),
       Read 5 (fresh_reader (segment_storage False) 4) [0, 0], segment4) of
     (p, q, k) \<Rightarrow> (\<exists>w. p = Return (None, w)) \<and> ring_closed (k_file k 0) \<and> (\<forall>a. q \<noteq> Return a) \<and>
       (\<forall>ss. par_run ss (p, q, k) = (p, q, k))"
proof -
  obtain p q k where run: "par_run close_race (CloseWriter (fresh_writer (segment_storage True) 4),
      Read 5 (fresh_reader (segment_storage False) 4) [0, 0], segment4) = (p, q, k)"
    by (metis prod.exhaust)
  then have *: "(case p of Return (err, w) \<Rightarrow> err = None | _ \<Rightarrow> False)" "blocked q k"
      "Uint32 (take 4 (drop offClosed (k_file k 0))) = 1"
    using close_race_result by simp_all
  then obtain w b q' where "p = Return (None, w)" "q = Await b q'" "\<not> b k"
    by (auto simp: blocked_def split: prog.splits)
  with * run show ?thesis
    by (simp add: par_run_ended ring_closed_def u32_at_def slice_def)
qed

end
