(* ===== verification/Android.thy ===== *)
theory Android
  imports Mapped Session ShmNative
begin

text \<open>
  \<^verbatim>\<open>backend/android.go\<close>, \<^verbatim>\<open>shm_android.go\<close> and \<^verbatim>\<open>mobile/mobile.go\<close>: shared memory by file
  descriptor. The functions of package \<^verbatim>\<open>backend\<close> carry the prefix \<open>backend_\<close>; \<^verbatim>\<open>int\<close> is
  64 bits wide.
\<close>

section \<open>The storage\<close>

record android_handle =
  a_fd :: int
  a_mem :: mem_slice
  a_size :: int64

definition newAndroidSharedMemoryStorage :: "'w os \<Rightarrow> int \<Rightarrow> int64 \<Rightarrow> ('w, gerror + android_handle) prog" where
  "newAndroidSharedMemoryStorage OS fd sz =
     pbind (sys (Mmap OS fd sz)) (\<lambda>r. case r of
         Inl err \<Rightarrow> Return (Inl (ErrorfW ''backend: mmap fd '' err))
       | Inr mem \<Rightarrow> Return (Inr \<lparr>a_fd = fd, a_mem = \<lparr>handle = mem, slen = nat sz\<rparr>, a_size = sz\<rparr>))"

definition backend_CreateAndroid :: "'w os \<Rightarrow> string \<Rightarrow> int64 \<Rightarrow> ('w, gerror + android_handle) prog" where
  "backend_CreateAndroid OS debugName sz =
     (if sz \<le> 0 then Return (Inl (Errorf ''backend: size must be positive, got ''))
      else pbind (sys (SharedMemCreate OS debugName sz)) (\<lambda>fd.
        if fd < 0 then Return (Inl (Errorf ''backend: ASharedMemory_create failed''))
        else newAndroidSharedMemoryStorage OS fd sz))"

definition backend_OpenAndroid :: "'w os \<Rightarrow> int \<Rightarrow> int64 \<Rightarrow> ('w, gerror + android_handle) prog" where
  "backend_OpenAndroid OS fd sz =
     (if sz \<le> 0 then Return (Inl (Errorf ''backend: size must be positive, got ''))
      else pbind (sys (Dup OS fd)) (\<lambda>r. case r of
          Inl err \<Rightarrow> Return (Inl (ErrorfW ''backend: dup fd '' err))
        | Inr dupFd \<Rightarrow> newAndroidSharedMemoryStorage OS dupFd sz))"

definition android_Fd :: "android_handle \<Rightarrow> int" where
  "android_Fd s = a_fd s"

definition android_ReadAt ::
  "'w os \<Rightarrow> android_handle \<Rightarrow> byte list \<Rightarrow> int64 \<Rightarrow> 'w \<Rightarrow> (byte list \<times> int64 \<times> gerror option) go" where
  "android_ReadAt OS s p off w =
     (if off < 0 \<or> add64 off (int (length p)) > a_size s then Ok (p, 0, Some (Errorf ''backend: ReadAt out of range: off=''))
      else case copyOut OS (a_mem s) p off w of Ok (p', n) \<Rightarrow> Ok (p', n, None) | Panic c \<Rightarrow> Panic c)"

definition android_WriteAt ::
  "'w os \<Rightarrow> android_handle \<Rightarrow> byte list \<Rightarrow> int64 \<Rightarrow> 'w \<Rightarrow> (int64 \<times> gerror option) go \<times> 'w" where
  "android_WriteAt OS s p off w =
     (if off < 0 \<or> add64 off (int (length p)) > a_size s then (Ok (0, Some (Errorf ''backend: WriteAt out of range: off='')), w)
      else case copyIn OS (a_mem s) p off w of (Ok n, w') \<Rightarrow> (Ok (n, None), w') | (Panic c, w') \<Rightarrow> (Panic c, w'))"

definition android_Size :: "android_handle \<Rightarrow> 'w \<Rightarrow> int64" where
  "android_Size s w = a_size s"

definition android_Wait :: "'w os \<Rightarrow> android_handle \<Rightarrow> int64 \<Rightarrow> u32 \<Rightarrow> duration \<Rightarrow> ('w, unit) prog" where
  "android_Wait OS s off old timeout =
     pbind (query (\<lambda>_. wordAt (a_mem s) off)) (\<lambda>word. futexWaitWord OS (a_mem s) word old timeout)"

definition android_Wake :: "'w os \<Rightarrow> android_handle \<Rightarrow> int64 \<Rightarrow> 'w \<Rightarrow> unit go \<times> 'w" where
  "android_Wake OS s off w =
     (case wordAt (a_mem s) off of Ok word \<Rightarrow> (Ok (), futexWakeWord OS (a_mem s) word w) | Panic c \<Rightarrow> (Panic c, w))"

definition android_Close :: "'w os \<Rightarrow> android_handle \<Rightarrow> 'w \<Rightarrow> gerror option go \<times> 'w" where
  "android_Close OS s w =
     (case Munmap OS (handle (a_mem s)) w of
        (Some err, w) \<Rightarrow> (Ok (Some (ErrorfW ''backend: munmap: '' err)), w)
      | (None, w) \<Rightarrow> (case CloseFd OS (a_fd s) w of (err, w) \<Rightarrow> (Ok err, w)))"

definition android_storage :: "'w os \<Rightarrow> android_handle \<Rightarrow> 'w storage" where
  "android_storage OS s =
     \<lparr>ReadAt = android_ReadAt OS s, WriteAt = android_WriteAt OS s, Size = android_Size s,
      CloseOp = android_Close OS s, AtomicStorage = None,
      WaiterStorage = Some \<lparr>Wait = android_Wait OS s, Wake = android_Wake OS s\<rparr>\<rparr>"

lemma android_storage_simps [simp]:
  "ReadAt (android_storage OS s) = android_ReadAt OS s" "WriteAt (android_storage OS s) = android_WriteAt OS s"
  "Size (android_storage OS s) = android_Size s" "CloseOp (android_storage OS s) = android_Close OS s"
  "AtomicStorage (android_storage OS s) = None"
  "WaiterStorage (android_storage OS s) = Some \<lparr>Wait = android_Wait OS s, Wake = android_Wake OS s\<rparr>"
  by (simp_all add: android_storage_def)

locale android_mapping = mapped_memory +
  fixes s :: android_handle
  assumes mem_s: "a_mem s = \<lparr>handle = m, slen = len\<rparr>"
    and size_s: "a_size s = int len"

sublocale android_mapping \<subseteq> ring_storage "android_storage OS s" data live
proof (unfold_locales, unfold android_storage_simps, goal_cases)
  case (1 w)
  then show ?case by (simp add: android_Size_def size_s length_data)
next
  case (2 w)
  then show ?case using len_bound [OF 2] by (simp add: length_data)
next
  case (3 w p i)
  then have "add64 (int i) (int (length p)) = int (i + length p)" "i + length p \<le> len"
    using len_bound [OF 3(1)] by (simp_all add: length_data add64_nat)
  with 3 copyOut_ok [OF 3(1,2), of i] show ?case
    by (simp add: android_ReadAt_def mem_s size_s)
next
  case (4 w p i)
  then have "add64 (int i) (int (length p)) = int (i + length p)" "i + length p \<le> len"
    using len_bound [OF 4(1)] by (simp_all add: length_data add64_nat)
  with 4 copyIn_ok [OF 4(1,2), of i] show ?case
    by (auto simp: android_WriteAt_def mem_s size_s)
next
  case (7 u w i)
  then show ?case using wordAt_ok [of i] futexWake_ok [OF 7(2), of i]
    by (auto simp: android_Wake_def mem_s length_data)
next
  case (8 u w i v d)
  then show ?case using quiet_futexWait [of i v d] by (auto simp: android_Wait_def mem_s length_data)
qed auto

context android_mapping
begin

lemma lawful: "ring_storage (android_storage OS s) data live"
  by (rule ring_storage_axioms)

end

sublocale android_mapping \<subseteq> checked_storage "android_storage OS s" data live
proof (unfold_locales, unfold android_storage_simps, goal_cases)
  case (1 w p i)
  then have "add64 (int i) (int (length p)) = int (i + length p)" by (intro add64_nat) simp
  with 1 show ?case by (simp add: android_ReadAt_def size_s length_data)
qed

interpretation kernel_android: android_mapping kernel_os m len "\<lambda>k. k_file k ino"
    "backed k_dir k_file k_fd k_map (insert m ms) ino len k0"
    "\<lparr>a_fd = fd, a_mem = \<lparr>handle = m, slen = len\<rparr>, a_size = int len\<rparr>"
  for m ms ino len k0 fd
  by unfold_locales simp_all


section \<open>The root package and the mobile facade\<close>

definition CreateAndroidSharedMemory ::
  "'w os \<Rightarrow> string \<Rightarrow> int64 \<Rightarrow> (options \<Rightarrow> options) list \<Rightarrow> ('w, gerror + 'w writer \<times> int) prog" where
  "CreateAndroidSharedMemory OS debugName capacity opts =
     (case validateCapacity capacity of
        Some err \<Rightarrow> Return (Inl err)
      | None \<Rightarrow> pbind (backend_CreateAndroid OS debugName (add64 (int headerSize) capacity)) (\<lambda>r. case r of
            Inl err \<Rightarrow> Return (Inl err)
          | Inr st \<Rightarrow> pbind (NewWriter (android_storage OS st) capacity opts) (\<lambda>r. case r of
                Inl err \<Rightarrow> pbind (call (CloseOp (android_storage OS st))) (\<lambda>_. Return (Inl err))
              | Inr w \<Rightarrow> Return (Inr (w, android_Fd st)))))"

definition OpenAndroidSharedMemory ::
  "'w os \<Rightarrow> int \<Rightarrow> int64 \<Rightarrow> (options \<Rightarrow> options) list \<Rightarrow> ('w, gerror + 'w reader) prog" where
  "OpenAndroidSharedMemory OS fd capacity opts =
     (case validateCapacity capacity of
        Some err \<Rightarrow> Return (Inl err)
      | None \<Rightarrow> pbind (backend_OpenAndroid OS fd (add64 (int headerSize) capacity)) (\<lambda>r. case r of
            Inl err \<Rightarrow> Return (Inl err)
          | Inr st \<Rightarrow> NewReader (android_storage OS st) capacity opts))"

record 'w mobile_writer = mw :: "'w writer"
record 'w mobile_reader = mr :: "'w reader"

record 'w create_result =
  cr_Writer :: "'w mobile_writer"
  cr_Fd :: int

definition CreateSharedMemory :: "'w os \<Rightarrow> string \<Rightarrow> int64 \<Rightarrow> ('w, gerror + 'w create_result) prog" where
  "CreateSharedMemory OS debugName capacity =
     pbind (CreateAndroidSharedMemory OS debugName capacity []) (\<lambda>r. case r of
         Inl err \<Rightarrow> Return (Inl err)
       | Inr (w, fd) \<Rightarrow> Return (Inr \<lparr>cr_Writer = \<lparr>mw = w\<rparr>, cr_Fd = fd\<rparr>))"

definition OpenSharedMemory :: "'w os \<Rightarrow> int \<Rightarrow> int64 \<Rightarrow> ('w, gerror + 'w mobile_reader) prog" where
  "OpenSharedMemory OS fd capacity =
     pbind (OpenAndroidSharedMemory OS fd capacity []) (\<lambda>r. case r of
         Inl err \<Rightarrow> Return (Inl err)
       | Inr r \<Rightarrow> Return (Inr \<lparr>mr = r\<rparr>))"

definition mobile_TryWrite :: "'w mobile_writer \<Rightarrow> byte list \<Rightarrow> ('w, (int64 \<times> gerror option) \<times> 'w mobile_writer) prog" where
  "mobile_TryWrite w p = pbind (TryWrite (mw w) p) (\<lambda>(res, w'). Return (res, w\<lparr>mw := w'\<rparr>))"

definition mobile_Write ::
  "nat \<Rightarrow> 'w mobile_writer \<Rightarrow> byte list \<Rightarrow> ('w, (int64 \<times> gerror option) option \<times> 'w mobile_writer) prog" where
  "mobile_Write fuel w p = pbind (Write fuel (mw w) p) (\<lambda>(res, w'). Return (res, w\<lparr>mw := w'\<rparr>))"

definition mobile_CloseWriter :: "'w mobile_writer \<Rightarrow> ('w, gerror option \<times> 'w mobile_writer) prog" where
  "mobile_CloseWriter w = pbind (CloseWriter (mw w)) (\<lambda>(err, w'). Return (err, w\<lparr>mw := w'\<rparr>))"

definition mobile_CloseStorage :: "'w mobile_writer \<Rightarrow> ('w, gerror option \<times> 'w mobile_writer) prog" where
  "mobile_CloseStorage w = pbind (CloseStorage (mw w)) (\<lambda>(err, w'). Return (err, w\<lparr>mw := w'\<rparr>))"

definition mobile_TryRead ::
  "'w mobile_reader \<Rightarrow> byte list \<Rightarrow> ('w, (int64 \<times> gerror option) \<times> byte list \<times> 'w mobile_reader) prog" where
  "mobile_TryRead r p = pbind (TryRead (mr r) p) (\<lambda>(res, q, r'). Return (res, q, r\<lparr>mr := r'\<rparr>))"

definition mobile_Read ::
  "nat \<Rightarrow> 'w mobile_reader \<Rightarrow> byte list \<Rightarrow> ('w, (int64 \<times> gerror option) option \<times> byte list \<times> 'w mobile_reader) prog" where
  "mobile_Read fuel r p = pbind (Read fuel (mr r) p) (\<lambda>(res, q, r'). Return (res, q, r\<lparr>mr := r'\<rparr>))"

definition mobile_CloseReader :: "'w mobile_reader \<Rightarrow> ('w, gerror option) prog" where
  "mobile_CloseReader r = CloseReader (mr r)"


section \<open>Creating and opening\<close>

lemma android_size:
  assumes "j \<le> 31"
  shows "validateCapacity (2 ^ j) = None" "add64 (int headerSize) (2 ^ j) = 64 + 2 ^ j"
    "nat (64 + 2 ^ j) = 64 + 2 ^ j" "(64 + 2 ^ j :: nat) < 2 ^ 62" "\<not> 64 + 2 ^ j \<le> (0::int)"
proof -
  have le: "(2::int) ^ j \<le> 2 ^ 31" "(2::nat) ^ j \<le> 2 ^ 31" using assms by (intro power_increasing; simp)+
  have pos: "(0::int) < 2 ^ j" by simp
  show "add64 (int headerSize) (2 ^ j) = 64 + 2 ^ j"
    using le pos by (subst add64_id) (simp_all add: is_int64_def headerSize_def del: zero_less_power)
  show "validateCapacity (2 ^ j) = None" using assms by (auto simp: validateCapacity_iff)
  show "nat (64 + 2 ^ j) = 64 + 2 ^ j" by (simp add: nat_add_distrib nat_power_eq)
  show "(64 + 2 ^ j :: nat) < 2 ^ 62" using le(2) by simp
  show "\<not> 64 + 2 ^ j \<le> (0::int)" using pos by (simp add: not_le del: zero_less_power)
qed

abbreviation android_of :: "int \<Rightarrow> nat \<Rightarrow> int64 \<Rightarrow> android_handle" where
  "android_of fd m sz \<equiv> \<lparr>a_fd = fd, a_mem = \<lparr>handle = m, slen = nat sz\<rparr>, a_size = sz\<rparr>"

context posix
begin

lemma android_live:
  assumes "m \<in> ms" "nat sz = len" "0 \<le> sz"
  shows "ring_storage (android_storage OS (android_of fd m sz)) (\<lambda>w. bytes w ino) (backed dir bytes fds maps ms ino len w0)"
proof -
  have "android_mapping OS m len (\<lambda>w. bytes w ino) (backed dir bytes fds maps ms ino len w0) (android_of fd m sz)"
    using mapped [OF assms(1)] assms(2,3) by (intro android_mapping.intro android_mapping_axioms.intro) auto
  then show ?thesis by (rule android_mapping.lawful)
qed

lemma create_android_ok:
  assumes "run (backend_CreateAndroid OS name sz) w = (Done (Inr s), w')"
  obtains fd m ino where "0 < sz" "s = android_of fd m sz" "fds w' fd = Some ino" "length (bytes w' ino) = nat sz"
    "maps w' m = Some (ino, nat sz)"
proof -
  obtain fd w1 m where calls: "0 < sz" "SharedMemCreate OS name sz w = (fd, w1)" "0 \<le> fd" "Mmap OS fd sz w1 = (Inr m, w')"
      "s = android_of fd m sz"
    using assms
    by (auto simp: backend_CreateAndroid_def newAndroidSharedMemoryStorage_def run_sys run_pbind prod_eq_iff not_le not_less
        split: if_splits sum.splits)
  then show ?thesis using shared_mem_create [OF calls(2,3,1)] mmap [OF calls(4)] that by fastforce
qed

lemma open_android_ok:
  assumes "run (backend_OpenAndroid OS fd sz) w = (Done (Inr s), w')" "fds w fd = Some ino"
  obtains fd2 m where "0 < sz" "s = android_of fd2 m sz" "bytes w' = bytes w" "maps w' = (maps w)(m \<mapsto> (ino, nat sz))"
    "fds w' = (fds w)(fd2 \<mapsto> ino)"
proof -
  obtain fd2 w1 m where calls: "0 < sz" "Dup OS fd w = (Inr fd2, w1)" "Mmap OS fd2 sz w1 = (Inr m, w')"
      "s = android_of fd2 m sz"
    using assms(1)
    by (auto simp: backend_OpenAndroid_def newAndroidSharedMemoryStorage_def run_sys run_pbind prod_eq_iff not_le
        split: if_splits sum.splits)
  then show ?thesis using dup [OF calls(2) assms(2)] mmap [OF calls(3)] that by fastforce
qed

lemma android_create_ok:
  assumes "run (CreateAndroidSharedMemory OS name c opts) w0 = (Done (Inr (W, fd)), w1)"
  obtains j m ino where "c = 2 ^ j" "j \<le> 31" "w_st W = android_storage OS (android_of fd m (64 + 2 ^ j))"
    "fds w1 fd = Some ino" "maps w1 m = Some (ino, 64 + 2 ^ j)" "length (bytes w1 ino) = 64 + 2 ^ j"
    "writer_inv (2 ^ j) (bytes w1 ino) W" "\<exists>d. bytes w1 ino = patch d 0 (header_bytes (2 ^ j)) \<and> length d = 64 + 2 ^ j"
proof -
  have c: "validateCapacity c = None" using assms by (auto simp: CreateAndroidSharedMemory_def split: option.splits)
  then obtain j where j: "c = 2 ^ j" "j \<le> 31" by (auto simp: validateCapacity_iff)
  note sz = android_size [OF j(2)]
  obtain h wa where create: "run (backend_CreateAndroid OS name (64 + 2 ^ j)) w0 = (Done (Inr h), wa)"
    and new: "run (NewWriter (android_storage OS h) (2 ^ j) opts) wa = (Done (Inr W), w1)" "fd = a_fd h"
    using assms unfolding CreateAndroidSharedMemory_def j(1) sz(2)
    by (auto simp: run_basic sz(1) android_Fd_def split: prod.splits outcome.splits sum.splits)
  obtain m ino where h: "h = android_of fd m (64 + 2 ^ j)" "fds wa fd = Some ino"
      "length (bytes wa ino) = 64 + 2 ^ j" "maps wa m = Some (ino, 64 + 2 ^ j)"
    using create_android_ok [OF create] new(2) unfolding sz(3) by (metis android_handle.select_convs(1))
  have S: "ring_storage (android_storage OS h) (\<lambda>w. bytes w ino) (backed dir bytes fds maps {m} ino (64 + 2 ^ j) wa)"
    unfolding h(1) by (rule android_live) (use sz(3) in simp_all)
  have live: "backed dir bytes fds maps {m} ino (64 + 2 ^ j) wa wa"
    using h(3,4) sz(4) by (simp add: backed_def)
  have "int headerSize + 2 ^ j \<le> int (length (bytes wa ino))" by (simp add: h(3) headerSize_def)
  from ring_storage.run_NewWriter(3) [OF S live sz(1) this, of opts] new(1)
  have "backed dir bytes fds maps {m} ino (64 + 2 ^ j) wa w1" "bytes w1 ino = patch (bytes wa ino) 0 (header_bytes (2 ^ j))"
      "w_st W = android_storage OS h" "writer_inv (2 ^ j) (bytes w1 ino) W"
    by (auto simp: nat_power_eq)
  with h j show ?thesis by (intro that [of j m ino]) (auto simp: backed_def)
qed

lemma android_setup:
  assumes "run (CreateAndroidSharedMemory OS name c opts) w0 = (Done (Inr (W, fd)), w1)"
    and "run (OpenAndroidSharedMemory OS fd c opts') w1 = (Done (Inr R), w2)"
  obtains j m1 m2 fd2 ino where "c = 2 ^ j" "j \<le> 31"
    "w_st W = android_storage OS (android_of fd m1 (64 + 2 ^ j))"
    "r_st R = android_storage OS (android_of fd2 m2 (64 + 2 ^ j))"
    "backed dir bytes fds maps {m1, m2} ino (64 + 2 ^ j) w2 w2" "pair_inv (2 ^ j) (bytes w2 ino) W R"
    "fifo_of (2 ^ j) (bytes w2 ino) = \<lparr>queue = [], finished = False\<rparr>"
proof -
  obtain j m1 ino d where W: "c = 2 ^ j" "j \<le> 31" "w_st W = android_storage OS (android_of fd m1 (64 + 2 ^ j))"
      "fds w1 fd = Some ino" "maps w1 m1 = Some (ino, 64 + 2 ^ j)" "length (bytes w1 ino) = 64 + 2 ^ j"
      "writer_inv (2 ^ j) (bytes w1 ino) W"
    and d: "bytes w1 ino = patch d 0 (header_bytes (2 ^ j))" "length d = 64 + 2 ^ j"
    using android_create_ok [OF assms(1)] by metis
  note sz = android_size [OF W(2)]
  have cap: "cap_ok (2 ^ j)" "int (2 ^ j) = 2 ^ j" using W(2) by (auto simp: cap_ok_def)
  have "headerSize + 2 ^ j \<le> length d" by (simp add: d(2) headerSize_def)
  note fresh = fresh_ring [OF cap(1) this, unfolded cap(2), folded d(1)]
  obtain h wb where opened: "run (backend_OpenAndroid OS fd (64 + 2 ^ j)) w1 = (Done (Inr h), wb)"
    and new: "run (NewReader (android_storage OS h) (2 ^ j) opts') wb = (Done (Inr R), w2)"
    using assms(2) unfolding OpenAndroidSharedMemory_def W(1) sz(2)
    by (auto simp: run_basic sz(1) split: prod.splits outcome.splits sum.splits)
  obtain fd2 m2 where h: "h = android_of fd2 m2 (64 + 2 ^ j)" "bytes wb = bytes w1"
      "maps wb = (maps w1)(m2 \<mapsto> (ino, 64 + 2 ^ j))"
    using open_android_ok [OF opened W(4)] unfolding sz(3) by metis
  have S: "ring_storage (android_storage OS h) (\<lambda>w. bytes w ino) (backed dir bytes fds maps {m1, m2} ino (64 + 2 ^ j) wb)"
    unfolding h(1) by (rule android_live) (use sz(3) in simp_all)
  have live: "backed dir bytes fds maps {m1, m2} ino (64 + 2 ^ j) wb wb"
    using h(2,3) W(5,6) sz(4) by (simp add: backed_def)
  have R: "R = \<lparr>r_st = android_storage OS h, r_capacity = 2 ^ j, r_mask = 2 ^ j - 1, r_opt = applyOptions opts',
      r_head = 0, r_cachedTail = 0\<rparr>" and w2: "w2 = wb"
    using new by (auto simp: run_NewReader [OF S live] split: if_splits)
  have "pair_inv (2 ^ j) (bytes wb ino) W R"
    using W(7) fresh h(2) by (simp add: R pair_inv_def reader_inv_def nat_power_eq)
  with W live fresh(2,3) h(1,2) w2 show ?thesis
    by (intro that [of j m1 fd2 m2 ino]) (auto simp: R fifo_of_def)
qed

end


section \<open>Properties\<close>

lemma kernel_android_pair:
  obtains w fd k1 r k2 where "run (CreateAndroidSharedMemory kernel_os ''ring'' 4 []) kernel0 = (Done (Inr (w, fd)), k1)"
    "run (OpenAndroidSharedMemory kernel_os fd 4 []) k1 = (Done (Inr r), k2)"
proof -
  have *: "case run (CreateAndroidSharedMemory kernel_os ''ring'' 4 []) kernel0 of
      (Done (Inr (w, fd)), k1) \<Rightarrow> (case run (OpenAndroidSharedMemory kernel_os fd 4 []) k1 of
        (Done (Inr r), k2) \<Rightarrow> True | _ \<Rightarrow> False)
    | _ \<Rightarrow> False"
    by code_simp
  obtain o1 k1 where o1: "run (CreateAndroidSharedMemory kernel_os ''ring'' 4 []) kernel0 = (o1, k1)" by fastforce
  with * obtain w fd where w: "o1 = Done (Inr (w, fd))" by (cases o1) (auto split: sum.split_asm)
  obtain o2 k2 where o2: "run (OpenAndroidSharedMemory kernel_os fd 4 []) k1 = (o2, k2)" by fastforce
  with * o1 w obtain r where "o2 = Done (Inr r)" by (cases o2) (auto split: sum.split_asm)
  with o1 o2 w show ?thesis by (auto intro: that)
qed

text \<open>
  C30: on Android's API, over every operating system that keeps the laws: if creating a ring
  and opening the descriptor it returns succeed, they give a Writer and a Reader of one ring,
  and every sequence of their calls returns what the bounded queue, started empty, returns.
\<close>

theorem android_ring:
  assumes "posix OS dir bytes fds maps page"
    and "run (CreateAndroidSharedMemory OS name c opts) w0 = (Done (Inr (w, fd)), w1)"
    and "run (OpenAndroidSharedMemory OS fd c opts') w1 = (Done (Inr r), w2)"
  shows "\<exists>w' r' w3. run (session ops w r) w2 =
    (Done (fst (fifo_session (nat c) ops \<lparr>queue = [], finished = False\<rparr>), w', r'), w3)"
proof -
  obtain j m1 m2 fd2 ino where j: "c = 2 ^ j" "j \<le> 31"
    and st: "w_st w = android_storage OS (android_of fd m1 (64 + 2 ^ j))"
      "r_st r = android_storage OS (android_of fd2 m2 (64 + 2 ^ j))"
    and live: "backed dir bytes fds maps {m1, m2} ino (64 + 2 ^ j) w2 w2" and inv: "pair_inv (2 ^ j) (bytes w2 ino) w r"
    and empty: "fifo_of (2 ^ j) (bytes w2 ino) = \<lparr>queue = [], finished = False\<rparr>"
    using posix.android_setup [OF assms] by metis
  have S: "ring_storage (android_storage OS (android_of fd m1 (64 + 2 ^ j))) (\<lambda>w. bytes w ino)
      (backed dir bytes fds maps {m1, m2} ino (64 + 2 ^ j) w2)"
    "ring_storage (android_storage OS (android_of fd2 m2 (64 + 2 ^ j))) (\<lambda>w. bytes w ino)
      (backed dir bytes fds maps {m1, m2} ino (64 + 2 ^ j) w2)"
    by (rule posix.android_live [OF assms(1)]; use android_size(3) [OF j(2)] in simp)+
  show ?thesis
    using run_session [OF S live st inv, of ops, unfolded empty] j(1) by (auto simp: nat_power_eq)
qed

theorem android_ring_witness:
  "\<exists>w fd k1 r k2 w' r' k3. run (CreateAndroidSharedMemory kernel_os ''ring'' 4 []) kernel0 = (Done (Inr (w, fd)), k1) \<and>
    run (OpenAndroidSharedMemory kernel_os fd 4 []) k1 = (Done (Inr r), k2) \<and>
    run (session [OpWrite [1, 2], OpRead [0, 0, 0]] w r) k2 = (Done ([Wrote (2, None), Got (2, None) [1, 2, 0]], w', r'), k3)"
proof -
  obtain w fd k1 r k2 where run: "run (CreateAndroidSharedMemory kernel_os ''ring'' 4 []) kernel0 = (Done (Inr (w, fd)), k1)"
    "run (OpenAndroidSharedMemory kernel_os fd 4 []) k1 = (Done (Inr r), k2)"
    by (rule kernel_android_pair)
  have spec: "fst (fifo_session (nat 4) [OpWrite [1, 2], OpRead [0, 0, 0]] \<lparr>queue = [], finished = False\<rparr>) =
      [Wrote (2, None), Got (2, None) [1, 2, 0]]"
    by code_simp
  from run android_ring [OF kernel.posix_axioms run, of "[OpWrite [1, 2], OpRead [0, 0, 0]]", unfolded spec]
  show ?thesis by blast
qed

text \<open>
  C35: a failed open leaks on Android. Where \<^verbatim>\<open>OpenShm\<close> closes its storage when \<^verbatim>\<open>NewReader\<close>
  rejects the header, \<^verbatim>\<open>OpenAndroidSharedMemory\<close> returns \<^verbatim>\<open>ErrHeaderMismatch\<close> and leaves the
  duplicated descriptor open and the region mapped, out of the caller's reach.
\<close>

theorem android_open_leaks:
  assumes "posix OS dir bytes fds maps page" "fds w fd = Some ino"
    and "Dup OS fd w = (Inr fd2, w1)" "Mmap OS fd2 (64 + 2 ^ j) w1 = (Inr m, w2)"
    and "j \<le> 31" "length (bytes w ino) = 64 + 2 ^ j" "\<not> header_ok (2 ^ j) (bytes w ino)"
  shows "run (OpenAndroidSharedMemory OS fd (2 ^ j) opts) w = (Done (Inl ErrHeaderMismatch), w2) \<and>
    fds w2 fd2 = Some ino \<and> maps w2 m = Some (ino, 64 + 2 ^ j)"
proof -
  note sz = android_size [OF assms(5)]
  have pos: "0 < (64 + 2 ^ j :: int)" using sz(5) by linarith
  have w1: "fds w1 = (fds w)(fd2 \<mapsto> ino)" "bytes w1 = bytes w"
    using posix.dup [OF assms(1,3,2)] by simp_all
  have w2: "maps w2 = (maps w1)(m \<mapsto> (ino, 64 + 2 ^ j))" "bytes w2 = bytes w" "fds w2 = fds w1"
    using posix.mmap [OF assms(1,4) _ pos, of ino] w1 unfolding sz(3) by simp_all
  have S: "ring_storage (android_storage OS (android_of fd2 m (64 + 2 ^ j)))
      (\<lambda>w. bytes w ino) (backed dir bytes fds maps {m} ino (64 + 2 ^ j) w2)"
    by (rule posix.android_live [OF assms(1)]) (use sz(3) in simp_all)
  have "backed dir bytes fds maps {m} ino (64 + 2 ^ j) w2 w2"
    using w2 assms(6) sz(4) by (simp add: backed_def)
  from run_NewReader [OF S this, of "2 ^ j" opts]
  have "run (NewReader (android_storage OS (android_of fd2 m (64 + 2 ^ j))) (2 ^ j) opts) w2 =
      (Done (Inl ErrHeaderMismatch), w2)"
    using assms(6,7) w2(2) sz(1) by (simp add: headerSize_def)
  then show ?thesis
    using w1 w2 sz(5) by (simp add: OpenAndroidSharedMemory_def sz(1,2) run_pbind run_sys backend_OpenAndroid_def
        newAndroidSharedMemoryStorage_def assms(3,4))
qed

theorem android_open_leaks_witness:
  "\<exists>k. run (OpenAndroidSharedMemory kernel_os 3 4 []) (kernel0\<lparr>k_fd := [3 \<mapsto> 1], k_file := (\<lambda>_. replicate 68 0), k_next := 7\<rparr>) =
      (Done (Inl ErrHeaderMismatch), k) \<and> k_fd k 7 = Some 1 \<and> k_map k 8 = Some (1, 68)"
proof -
  let ?k = "kernel0\<lparr>k_fd := [3 \<mapsto> 1], k_file := (\<lambda>_. replicate 68 0), k_next := 7\<rparr>"
  have bad: "\<not> header_ok 4 (replicate 68 0)"
    by (simp add: header_ok_def u32_at_def Uint32_def slice_def magic_def offMagic_def)
  obtain k1 where k1: "Dup kernel_os 3 ?k = (Inr 7, k1)" "k_next k1 = 8" "k_map k1 = (\<lambda>_. None)" "k_fd k1 7 = Some 1"
    by (simp add: k_Dup_def kernel0_def)
  obtain k2 where k2: "Mmap kernel_os 7 (64 + 2 ^ 2) k1 = (Inr 8, k2)"
    using k1(2-4) by (simp add: k_Mmap_def)
  have "run (OpenAndroidSharedMemory kernel_os 3 (2 ^ 2) []) ?k = (Done (Inl ErrHeaderMismatch), k2) \<and>
      k_fd k2 7 = Some 1 \<and> k_map k2 8 = Some (1, 64 + 2 ^ 2)"
    by (rule android_open_leaks [OF kernel.posix_axioms _ k1(1) k2]) (use bad in \<open>simp_all add: kernel0_def\<close>)
  then show ?thesis by auto
qed

end
