(* ===== verification/Examples.thy ===== *)
theory Examples
  imports ShmNative
begin

text \<open>
  \<^verbatim>\<open>examples/consumer/main.go\<close>: \<^verbatim>\<open>openWithRetry\<close>, the loop with which a consumer waits for its
  producer. The clock, in nanoseconds, and \<^verbatim>\<open>time.Sleep\<close> are arguments: \<open>now\<close> reads the clock
  of the world and \<open>sleep\<close> moves it on. The loop has fuel, one unit for each test of its
  condition; \<open>None\<close> is "has not returned within the fuel". A \<^verbatim>\<open>nil\<close> reader is \<open>None\<close> too.
\<close>

definition retryPause :: duration where "retryPause = 100 * 1000000"

fun retryLoop ::
  "nat \<Rightarrow> ('w \<Rightarrow> int) \<Rightarrow> (duration \<Rightarrow> ('w, unit) prog) \<Rightarrow> 'w backend_fun \<Rightarrow> string \<Rightarrow> int64 \<Rightarrow> int \<Rightarrow>
    gerror option \<Rightarrow> ('w, ('w reader option \<times> gerror option) option) prog" where
  "retryLoop 0 now sleep open name capacity deadline lastErr = Return None"
| "retryLoop (Suc fuel) now sleep open name capacity deadline lastErr =
     pbind (query (\<lambda>w. Ok (now w))) (\<lambda>t.
       if \<not> t < deadline then Return (Some (None, lastErr))
       else pbind (OpenShm open name capacity []) (\<lambda>r. case r of
           Inr r \<Rightarrow> Return (Some (Some r, None))
         | Inl err \<Rightarrow> pbind (sleep retryPause) (\<lambda>_.
             retryLoop fuel now sleep open name capacity deadline (Some err))))"

definition openWithRetry ::
  "nat \<Rightarrow> ('w \<Rightarrow> int) \<Rightarrow> (duration \<Rightarrow> ('w, unit) prog) \<Rightarrow> 'w backend_fun \<Rightarrow> string \<Rightarrow> int64 \<Rightarrow> duration \<Rightarrow>
    ('w, ('w reader option \<times> gerror option) option) prog" where
  "openWithRetry fuel now sleep open name capacity timeout =
     pbind (query (\<lambda>w. Ok (now w))) (\<lambda>t. retryLoop fuel now sleep open name capacity (t + timeout) None)"

text \<open>
  What the loop needs of the world: sleeping takes at least the time asked for, and an
  attempt to open returns and does not turn the clock back.
\<close>

definition clock_ok :: "('w \<Rightarrow> int) \<Rightarrow> (duration \<Rightarrow> ('w, unit) prog) \<Rightarrow> 'w backend_fun \<Rightarrow> string \<Rightarrow> int64 \<Rightarrow> bool" where
  "clock_ok now sleep open name capacity \<longleftrightarrow>
     (\<forall>w d. \<exists>w'. run (sleep d) w = (Done (), w') \<and> now w + d \<le> now w') \<and>
     (\<forall>w. \<exists>r w'. run (OpenShm open name capacity []) w = (Done r, w') \<and> now w \<le> now w')"

lemma retryLoop_returns:
  assumes "clock_ok now sleep open name capacity" "deadline - now w \<le> int fuel * retryPause"
  shows "\<exists>r err w'. run (retryLoop (Suc fuel) now sleep open name capacity deadline lastErr) w = (Done (Some (r, err)), w') \<and>
    (r \<noteq> None \<longrightarrow> err = None) \<and> (r = None \<longrightarrow> deadline \<le> now w') \<and>
    (r = None \<and> err = None \<longrightarrow> lastErr = None \<and> deadline \<le> now w)"
  using assms(2)
proof (induction fuel arbitrary: w lastErr)
  case 0
  then show ?case by (simp add: run_basic)
next
  case (Suc fuel)
  show ?case
  proof (cases "now w < deadline")
    case False
    then show ?thesis by (simp add: run_basic)
  next
    case True
    obtain r w1 where r: "run (OpenShm open name capacity []) w = (Done r, w1)" "now w \<le> now w1"
      using assms(1) unfolding clock_ok_def by blast
    show ?thesis
    proof (cases r)
      case (Inr x)
      with True r(1) show ?thesis by (simp add: run_basic)
    next
      case (Inl e)
      obtain w2 where w2: "run (sleep retryPause) w1 = (Done (), w2)" "now w1 + retryPause \<le> now w2"
        using assms(1) unfolding clock_ok_def by blast
      have "deadline - now w2 \<le> int fuel * retryPause"
        using Suc.prems r(2) w2(2) by (simp add: algebra_simps)
      from Suc.IH [OF this, of "Some e"] True Inl r(1) w2(1) show ?thesis
        by (auto simp: run_basic simp del: retryLoop.simps(2) simp: retryLoop.simps(2) [of "Suc fuel"])
    qed
  qed
qed

text \<open>
  \<^verbatim>\<open>openWithRetry\<close> ends: with one round for each pause that fits into the timeout it has
  returned. It has opened a Reader and reports no error, or the deadline has passed and it
  reports the last error; it returns \<^verbatim>\<open>(nil, nil)\<close> only for a timeout that is not positive.
\<close>

theorem openWithRetry_returns:
  assumes "clock_ok now sleep open name capacity" "timeout \<le> int fuel * retryPause"
  shows "\<exists>r err w'. run (openWithRetry (Suc fuel) now sleep open name capacity timeout) w = (Done (Some (r, err)), w') \<and>
    (r \<noteq> None \<longrightarrow> err = None) \<and> (r = None \<longrightarrow> now w + timeout \<le> now w') \<and>
    (r = None \<and> err = None \<longrightarrow> timeout \<le> 0)"
  using retryLoop_returns [OF assms(1), of "now w + timeout" w fuel None] assms(2)
  by (fastforce simp: openWithRetry_def run_basic simp del: retryLoop.simps)

text \<open>A world that is only a clock and in which the segment never appears.\<close>

definition absent :: "int backend_fun" where
  "absent name sz = call (\<lambda>t. (Ok (Inl (Errno 2)), t + 1000))"

definition sleep_clock :: "duration \<Rightarrow> (int, unit) prog" where
  "sleep_clock d = call (\<lambda>t. (Ok (), t + d))"

lemma absent_clock_ok: "clock_ok (\<lambda>t. t) sleep_clock absent ''x'' 4"
  using segment_size(1,2) [of 2]
  by (simp add: clock_ok_def sleep_clock_def absent_def OpenShm_def run_basic)

theorem openWithRetry_returns_witness:
  "\<exists>r err t. run (openWithRetry (Suc 5) (\<lambda>t. t) sleep_clock absent ''x'' 4 500000000) 0 = (Done (Some (r, err)), t) \<and>
     (r = None \<longrightarrow> 500000000 \<le> t \<and> err \<noteq> None)"
  using openWithRetry_returns [OF absent_clock_ok, of 500000000 5 0] by (auto simp: retryPause_def)

end
