(* ===== verification/Robust.thy ===== *)
theory Robust
  imports Session
begin

text \<open>
  What \<^verbatim>\<open>TryWrite\<close> and \<^verbatim>\<open>TryRead\<close> do when the world is not kind: accesses of the storage may
  fail, and the region may hold anything, for instance because the other process has
  corrupted its counters. The Writer's and the Reader's own fields are all that is assumed.
\<close>

section \<open>Bounded effects\<close>

text \<open>\<open>confined A d d'\<close>: the region has changed at positions in \<open>A\<close> at most.\<close>

definition confined :: "nat set \<Rightarrow> byte list \<Rightarrow> byte list \<Rightarrow> bool" where
  "confined A d d' \<longleftrightarrow> length d' = length d \<and> (\<forall>j < length d. j \<notin> A \<longrightarrow> d' ! j = d ! j)"

lemma confined_refl [simp]: "confined A d d"
  by (simp add: confined_def)

lemma confined_trans: "confined A d d' \<Longrightarrow> confined A d' d'' \<Longrightarrow> confined A d d''"
  by (simp add: confined_def)

lemma confined_patch:
  assumes "i + length xs \<le> length d" "{i..<i + length xs} \<subseteq> A"
  shows "confined A d (patch d i xs)"
  using assms by (auto simp: confined_def nth_patch patch_simps)

definition writer_wf :: "nat \<Rightarrow> byte list \<Rightarrow> 'w writer \<Rightarrow> bool" where
  "writer_wf cap d w \<longleftrightarrow> cap_ok cap \<and> w_capacity w = int cap \<and> w_mask w = int cap - 1 \<and>
     headerSize + cap \<le> length d"

definition reader_wf :: "nat \<Rightarrow> byte list \<Rightarrow> 'w reader \<Rightarrow> bool" where
  "reader_wf cap d r \<longleftrightarrow> cap_ok cap \<and> r_capacity r = int cap \<and> r_mask r = int cap - 1 \<and>
     headerSize + cap \<le> length d"

text \<open>The bytes a Writer and a Reader of a ring may change.\<close>

definition writer_area :: "nat \<Rightarrow> nat set" where
  "writer_area cap = {offTail..<offTail + 4} \<union> {headerSize..<headerSize + cap}"

definition reader_area :: "nat set" where
  "reader_area = {offHead..<offHead + 4}"

lemma confined_length: "confined A d d' \<Longrightarrow> length d' = length d"
  by (simp add: confined_def)


section \<open>Accesses under the weak contract\<close>

context weak_storage
begin

lemma weak_read32:
  assumes "live s" "i + 4 \<le> length (data s)" "i + 4 < 2 ^ 62" "4 dvd i"
  obtains r where "run (readUint32At S i) s = (Done r, s)"
proof (cases "AtomicStorage S")
  case None
  obtain q n err where "ReadAt S (replicate 4 0) (int i) s = Ok (q, n, err)"
    using read_any [OF assms(1), of "replicate 4 0" i] assms(3) by auto
  with None show ?thesis by (cases err) (auto intro: that simp: readUint32At_def run_basic)
next
  case (Some a)
  obtain r where "LoadUint32 a (int i) s = Ok r" using load_any [OF Some assms(1,2,4)] by blast
  with Some show ?thesis by (intro that) (simp add: readUint32At_def run_basic)
qed

lemma weak_write32:
  assumes "live s" "i + 4 \<le> length (data s)" "4 dvd i" "{i..<i + 4} \<subseteq> A"
  obtains err s' where "run (writeUint32At S i v) s = (Done err, s')" "live s'" "confined A (data s) (data s')"
proof -
  have ne: "le32 v \<noteq> []" using length_le32 [of v] by force
  obtain err s1 xs where s1: "run (storeWord S i v) s = (Done err, s1)" "live s1" "length xs = 4"
      "data s1 = patch (data s) i xs"
  proof (cases "AtomicStorage S")
    case None
    with write_any [OF assms(1) ne, of i] assms(2) that show ?thesis
      by (fastforce simp: storeWord_def run_basic)
  next
    case (Some a)
    with store_any [OF Some assms(1-3), of v] that show ?thesis
      by (fastforce simp: storeWord_def run_basic)
  qed
  have c: "confined A (data s) (data s1)"
    using confined_patch [of i xs "data s" A] assms(2,4) s1(3,4) by simp
  show ?thesis
  proof (cases "WaiterStorage S = None \<or> err \<noteq> None")
    case True
    with s1(1,2) c that show ?thesis
      by (cases err) (auto simp: writeUint32At_def wakeWord_def run_basic)
  next
    case False
    then obtain u where u: "WaiterStorage S = Some u" by auto
    have "i + 4 \<le> length (data s1)" using assms(2) confined_length [OF c] by simp
    from wake_any [OF u s1(2) this assms(3)] obtain s2 where
      "Wake u (int i) s1 = (Ok (), s2)" "live s2" "data s2 = data s1" by blast
    with s1 c u False that show ?thesis by (auto simp: writeUint32At_def wakeWord_def run_basic)
  qed
qed

lemma weak_chunk:
  assumes "live s" "xs \<noteq> []" "t + length xs \<le> cap" "headerSize + cap \<le> length (data s)"
  obtains n err s' where "WriteAt S xs (int (headerSize + t)) s = (Ok (n, err), s')" "live s'"
    "confined (writer_area cap) (data s) (data s')"
proof -
  have len: "headerSize + t + length xs \<le> length (data s)" using assms(3,4) by simp
  obtain n err s' ys where w: "WriteAt S xs (int (headerSize + t)) s = (Ok (n, err), s')" "live s'"
      "length ys = length xs" "data s' = patch (data s) (headerSize + t) ys"
    using write_any [OF assms(1,2) len] by blast
  moreover have "confined (writer_area cap) (data s) (data s')"
    unfolding w(4) using len w(3) assms(3) by (intro confined_patch) (auto simp: writer_area_def)
  ultimately show ?thesis using that by blast
qed

lemma weak_writeRing:
  assumes "live s" "w_st w = S" "writer_wf cap (data s) w" "0 < n" "n \<le> cap" "n \<le> length p"
  obtains err s' where "run (writeRing w p (int n)) s = (Done err, s')" "live s'"
    "confined (writer_area cap) (data s) (data s')"
proof -
  have cap: "cap_ok cap" "0 < cap" and wc: "w_capacity w = int cap" "w_mask w = int cap - 1"
    and len: "headerSize + cap \<le> length (data s)"
    using assms(3) cap_ok_bounds by (auto simp: writer_wf_def)
  define t where "t = unat (w_tail w) mod cap"
  have t: "t < cap" using cap(2) by (simp add: t_def)
  note eq = writeRing_eq [OF cap(1) wc assms(5,6), unfolded assms(2), folded t_def]
  show ?thesis
  proof (cases "t + n \<le> cap")
    case True
    have "take n p \<noteq> []" "length (take n p) = n" using assms(4,6) by auto
    with True obtain m err s' where "WriteAt S (take n p) (int (headerSize + t)) s = (Ok (m, err), s')" "live s'"
        "confined (writer_area cap) (data s) (data s')"
      using weak_chunk [OF assms(1), of "take n p" t cap] len by auto
    with True that show ?thesis by (simp add: eq Let_def run_basic)
  next
    case False
    have f: "take (cap - t) p \<noteq> []" "t + length (take (cap - t) p) \<le> cap"
      using False assms(4,6) t by auto
    obtain m1 err1 s1 where s1: "WriteAt S (take (cap - t) p) (int (headerSize + t)) s = (Ok (m1, err1), s1)" "live s1"
        "confined (writer_area cap) (data s) (data s1)"
      using weak_chunk [OF assms(1) f len] by blast
    have g: "drop (cap - t) (take n p) \<noteq> []" "0 + length (drop (cap - t) (take n p)) \<le> cap"
      using False assms(5,6) t by auto
    have len1: "headerSize + cap \<le> length (data s1)" using len confined_length [OF s1(3)] by simp
    obtain m2 err2 s2 where s2: "WriteAt S (drop (cap - t) (take n p)) (int headerSize) s1 = (Ok (m2, err2), s2)" "live s2"
        "confined (writer_area cap) (data s1) (data s2)"
      using weak_chunk [OF s1(2) g len1] by auto
    from False s1 s2 confined_trans [OF s1(3) s2(3)] that show ?thesis
      by (cases err1) (simp_all add: eq Let_def run_basic)
  qed
qed

lemma writerFree_le:
  assumes "w_capacity w = int cap" "cap_ok cap"
  shows "writerFree w \<le> int cap"
proof -
  define k where "k = unat (w_tail w - w_cachedHead w)"
  have k: "uint (w_tail w - w_cachedHead w) = int k" by (simp add: k_def)
  then have "k < 2 ^ 32" using uint_lt2p [of "w_tail w - w_cachedHead w"] by simp
  then have "is_int64 (int cap - int k)" using cap_ok_bounds [OF assms(2)] by (simp add: is_int64_def)
  then show ?thesis using assms(1) by (simp add: writerFree_def k sub64_id)
qed

lemma weak_writeFreeSpace:
  assumes "live s" "w_st w = S" "writer_wf cap (data s) w" "p \<noteq> []"
  shows "\<exists>n err w' s'. run (writeFreeSpace w p) s = (Done ((n, err), w'), s') \<and> live s' \<and>
    confined (writer_area cap) (data s) (data s') \<and> 0 \<le> n \<and> n \<le> int (length p) \<and> (err \<noteq> None \<longrightarrow> n = 0) \<and>
    w_st w' = S \<and> writer_wf cap (data s') w'"
proof (cases "writerFree w \<le> 0")
  case True
  then show ?thesis using assms by (simp add: writeFreeSpace_def Let_def)
next
  case False
  define n where "n = min (length p) (nat (writerFree w))"
  have wf: "cap_ok cap" "w_capacity w = int cap" "offTail + 4 \<le> length (data s)" "headerSize + cap \<le> length (data s)"
    using assms(3) by (auto simp: writer_wf_def layout_defs)
  have n: "0 < n" "n \<le> cap" "n \<le> length p"
    and eq: "(if int (length p) > writerFree w then writerFree w else int (length p)) = int n"
    using False assms(4) writerFree_le [OF wf(2,1)] by (auto simp: n_def min_def)
  obtain err1 s1 where s1: "run (writeRing w p (int n)) s = (Done err1, s1)" "live s1"
      "confined (writer_area cap) (data s) (data s1)"
    using weak_writeRing [OF assms(1-3) n] by blast
  show ?thesis
  proof (cases err1)
    case (Some e)
    with False s1 assms show ?thesis
      by (simp add: writeFreeSpace_def Let_def eq run_basic writer_wf_def confined_length [OF s1(3)])
  next
    case None
    let ?w = "w\<lparr>w_tail := w_tail w + word_of_int (int n)\<rparr>"
    have "offTail + 4 \<le> length (data s1)" "4 dvd offTail" "{offTail..<offTail + 4} \<subseteq> writer_area cap"
      using wf(3) confined_length [OF s1(3)] by (auto simp: writer_area_def layout_defs)
    then obtain err2 s2 where s2: "run (writeUint32At S offTail (w_tail ?w)) s1 = (Done err2, s2)" "live s2"
        "confined (writer_area cap) (data s1) (data s2)"
      using weak_write32 [OF s1(2)] by blast
    have c: "confined (writer_area cap) (data s) (data s2)" by (rule confined_trans [OF s1(3) s2(3)])
    have "run (writeFreeSpace w p) s =
        (Done ((if err2 = None then int n else 0, err2), ?w), s2)"
      using False s1(1) s2(1) assms(2) None
      by (cases err2) (simp_all add: writeFreeSpace_def publishTail_def Let_def eq run_basic)
    with s2(2) c n assms(2,3) show ?thesis
      by (auto simp: writer_wf_def confined_length [OF c])
  qed
qed

lemma weak_TryWrite:
  assumes "live s" "w_st w = S" "writer_wf cap (data s) w"
  shows "\<exists>n err w' s'. run (TryWrite w p) s = (Done ((n, err), w'), s') \<and> live s' \<and>
    confined (writer_area cap) (data s) (data s') \<and> 0 \<le> n \<and> n \<le> int (length p) \<and> (err \<noteq> None \<longrightarrow> n = 0) \<and>
    w_st w' = S \<and> writer_wf cap (data s') w'"
proof -
  have len: "offHead + 4 \<le> length (data s)" "offHead + 4 < 2 ^ 62" "4 dvd offHead"
    using assms(3) by (auto simp: writer_wf_def layout_defs)
  obtain r where r: "run (readUint32At S offHead) s = (Done r, s)"
    using weak_read32 [OF assms(1) len] by blast
  consider "w_closed w \<or> p = []" | "\<not> w_closed w" "p \<noteq> []" "\<not> writerFree w < int (length p)"
    | e where "\<not> w_closed w" "p \<noteq> []" "writerFree w < int (length p)" "r = Inl e"
    | h where "\<not> w_closed w" "p \<noteq> []" "writerFree w < int (length p)" "r = Inr h"
    by (cases r) blast+
  then show ?thesis
  proof cases
    case 1
    then show ?thesis using assms by (auto simp: TryWrite_def)
  next
    case 2
    then show ?thesis using weak_writeFreeSpace [OF assms] by (simp add: TryWrite_def)
  next
    case 3
    then show ?thesis using assms r by (simp add: TryWrite_def run_basic)
  next
    case 4
    have "writer_wf cap (data s) (w\<lparr>w_cachedHead := h\<rparr>)" using assms(3) by (simp add: writer_wf_def)
    from weak_writeFreeSpace [OF assms(1) _ this 4(2)] 4 assms(2) r show ?thesis
      by (simp add: TryWrite_def run_basic)
  qed
qed

end


section \<open>The Reader\<close>

text \<open>
  With a tail out of range \<open>n\<close> may exceed the capacity; the offsets are as before.
\<close>

lemma readRing_wide:
  assumes "cap_ok cap" "r_capacity r = int cap" "r_mask r = int cap - 1" "n < 2 ^ 32" "n \<le> length p"
  shows "readRing r p (int n) =
     (let s = unat (r_head r) mod cap in
      if s + n \<le> cap then
        pbind (query (ReadAt (r_st r) (take n p) (int (headerSize + s)))) (\<lambda>(q, _, err).
          Return (q @ drop n p, err))
      else
        pbind (query (ReadAt (r_st r) (take (cap - s) p) (int (headerSize + s)))) (\<lambda>(q, _, err).
          let p = q @ drop (cap - s) p in
          case err of Some e \<Rightarrow> Return (p, Some e)
          | None \<Rightarrow> pbind (query (ReadAt (r_st r) (drop (cap - s) (take n p)) (int headerSize)))
              (\<lambda>(q, _, err). Return (take (cap - s) p @ q @ drop n p, err))))"
proof -
  let ?s = "unat (r_head r) mod cap"
  have s: "?s < cap" "cap \<le> 2 ^ 31" using mod_cap_less cap_ok_bounds assms(1) by auto
  have "add64 (int ?s) (int n) = int (?s + n)" "add64 (int headerSize) (int ?s) = int (headerSize + ?s)"
    "sub64 (int cap) (int ?s) = int (cap - ?s)"
    using s assms(4) by (intro add64_nat sub64_nat; simp add: headerSize_def)+
  note eqs = this
  show ?thesis
    by (simp only: readRing_def counter_and_mask [OF assms(1)] assms(2,3) Let_def eqs nat_int of_nat_le_iff)
qed

context weak_storage
begin

lemma weak_readRing:
  assumes "live s" "r_st r = S" "reader_wf cap (data s) r" "0 < n" "n < 2 ^ 32" "n \<le> length p"
  obtains q err where "run (readRing r p (int n)) s = (Done (q, err), s)" "length q = length p"
proof -
  have cap: "cap_ok cap" "0 < cap" "cap \<le> 2 ^ 31" and rc: "r_capacity r = int cap" "r_mask r = int cap - 1"
    using assms(3) cap_ok_bounds by (auto simp: reader_wf_def)
  define t where "t = unat (r_head r) mod cap"
  have t: "t < cap" using cap(2) by (simp add: t_def)
  note eq = readRing_wide [OF cap(1) rc assms(5,6), unfolded assms(2), folded t_def]
  show ?thesis
  proof (cases "t + n \<le> cap")
    case True
    have "take n p \<noteq> []" "headerSize + t + length (take n p) < 2 ^ 62"
      using assms(4-6) t cap(3) by (auto simp: headerSize_def)
    from read_any [OF assms(1) this] obtain q m err where
      "ReadAt S (take n p) (int (headerSize + t)) s = Ok (q, m, err)" "length q = n"
      using assms(6) by auto
    with True assms(6) that show ?thesis by (simp add: eq Let_def run_basic)
  next
    case False
    have f: "take (cap - t) p \<noteq> []" "headerSize + t + length (take (cap - t) p) < 2 ^ 62"
      using False assms(4-6) t cap(3) by (auto simp: headerSize_def)
    from read_any [OF assms(1) f] obtain q1 m1 err1 where q1:
      "ReadAt S (take (cap - t) p) (int (headerSize + t)) s = Ok (q1, m1, err1)" "length q1 = cap - t"
      using False assms(6) by auto
    let ?p = "q1 @ drop (cap - t) p"
    have len: "length ?p = length p" using q1(2) False assms(6) by simp
    have "drop (cap - t) (take n ?p) \<noteq> []" "headerSize + length (drop (cap - t) (take n ?p)) < 2 ^ 62"
      using False assms(5,6) t q1(2) by (auto simp: headerSize_def)
    from read_any [OF assms(1) this(1), of headerSize] this(2) obtain q2 m2 err2 where
      "ReadAt S (drop (cap - t) (take n ?p)) (int headerSize) s = Ok (q2, m2, err2)" "length q2 = n - (cap - t)"
      using assms(6) False q1(2) by auto
    with False q1 len assms(6) that show ?thesis by (cases err1) (simp_all add: eq Let_def run_basic)
  qed
qed

lemma weak_readAvailable:
  assumes "live s" "r_st r = S" "reader_wf cap (data s) r" "p \<noteq> []"
  shows "\<exists>n err q r' s'. run (readAvailable r p) s = (Done ((n, err), q, r'), s') \<and> live s' \<and>
    confined reader_area (data s) (data s') \<and> 0 \<le> n \<and> n \<le> int (length p) \<and> (err \<noteq> None \<longrightarrow> n = 0) \<and>
    length q = length p \<and> r_st r' = S \<and> reader_wf cap (data s') r'"
proof -
  define a where "a = unat (r_cachedTail r - r_head r)"
  define n where "n = min (length p) a"
  have len: "offClosed + 4 \<le> length (data s)" "offHead + 4 \<le> length (data s)"
    using assms(3) by (auto simp: reader_wf_def layout_defs)
  note eq = readAvailable_eq [OF assms(4), of r, folded a_def, folded n_def, unfolded assms(2)]
  show ?thesis
  proof (cases "n = 0")
    case True
    have "offClosed + 4 < 2 ^ 62" "4 dvd offClosed" by (auto simp: layout_defs)
    then obtain c where "run (readUint32At S offClosed) s = (Done c, s)"
      using weak_read32 [OF assms(1) len(1)] by blast
    with True assms show ?thesis by (cases c) (simp_all add: eq run_basic)
  next
    case False
    have "int a < 2 ^ 32" using uint_lt2p [of "r_cachedTail r - r_head r"] by (simp add: a_def)
    then have n: "0 < n" "n < 2 ^ 32" "n \<le> length p" using False by (auto simp: n_def)
    obtain q err1 where q: "run (readRing r p (int n)) s = (Done (q, err1), s)" "length q = length p"
      using weak_readRing [OF assms(1-3) n] by blast
    have "4 dvd offHead" "{offHead..<offHead + 4} \<subseteq> reader_area" by (auto simp: layout_defs reader_area_def)
    then obtain err2 s2 where s2: "run (writeUint32At S offHead (r_head r + word_of_int (int n))) s = (Done err2, s2)"
        "live s2" "confined reader_area (data s) (data s2)"
      using weak_write32 [OF assms(1) len(2)] by blast
    show ?thesis
    proof (cases err1)
      case (Some e)
      with False q assms show ?thesis by (simp add: eq run_basic)
    next
      case None
      have "run (readAvailable r p) s =
          (Done ((if err2 = None then int n else 0, err2), q, r\<lparr>r_head := r_head r + word_of_int (int n)\<rparr>), s2)"
        using False q(1) s2(1) assms(2) None by (cases err2) (simp_all add: eq advanceHead_def Let_def run_basic)
      with s2(2,3) n q(2) assms(2,3) show ?thesis
        by (auto simp: reader_wf_def confined_length [OF s2(3)])
    qed
  qed
qed

lemma weak_TryRead:
  assumes "live s" "r_st r = S" "reader_wf cap (data s) r"
  shows "\<exists>n err q r' s'. run (TryRead r p) s = (Done ((n, err), q, r'), s') \<and> live s' \<and>
    confined reader_area (data s) (data s') \<and> 0 \<le> n \<and> n \<le> int (length p) \<and> (err \<noteq> None \<longrightarrow> n = 0) \<and>
    length q = length p \<and> r_st r' = S \<and> reader_wf cap (data s') r'"
proof -
  have len: "offTail + 4 \<le> length (data s)" "offTail + 4 < 2 ^ 62" "4 dvd offTail"
    using assms(3) by (auto simp: reader_wf_def layout_defs)
  obtain t where t: "run (readUint32At S offTail) s = (Done t, s)"
    using weak_read32 [OF assms(1) len] by blast
  consider "p = []" | "p \<noteq> []" "\<not> readerAvail r < int (length p)"
    | e where "p \<noteq> []" "readerAvail r < int (length p)" "t = Inl e"
    | x where "p \<noteq> []" "readerAvail r < int (length p)" "t = Inr x"
    by (cases t) blast+
  then show ?thesis
  proof cases
    case 1
    then show ?thesis using assms by (auto simp: TryRead_def)
  next
    case 2
    then show ?thesis using weak_readAvailable [OF assms] by (simp add: TryRead_def)
  next
    case 3
    then show ?thesis using assms t by (simp add: TryRead_def run_basic)
  next
    case 4
    have "reader_wf cap (data s) (r\<lparr>r_cachedTail := x\<rparr>)" using assms(3) by (simp add: reader_wf_def)
    from weak_readAvailable [OF assms(1) _ this 4(1)] 4 assms(2) t show ?thesis
      by (simp add: TryRead_def run_basic)
  qed
qed

end


section \<open>Properties\<close>

text \<open>A storage over \<open>S\<close> some of whose writes fail, as a script says, without any effect.\<close>

definition flaky :: "'w storage \<Rightarrow> ('w \<times> bool list) storage" where
  "flaky S =
     \<lparr>ReadAt = (\<lambda>p off (w, fails). ReadAt S p off w),
      WriteAt = (\<lambda>p off (w, fails). case fails of
          True # fails \<Rightarrow> (Ok (0, Some ErrShortWrite), (w, fails))
        | _ \<Rightarrow> (case WriteAt S p off w of (r, w) \<Rightarrow> (r, (w, tl fails)))),
      Size = (\<lambda>(w, fails). Size S w),
      CloseOp = (\<lambda>(w, fails). case CloseOp S w of (r, w) \<Rightarrow> (r, (w, fails))),
      AtomicStorage = None, WaiterStorage = None\<rparr>"

context weak_storage
begin

lemma flaky_weak: "weak_storage (flaky S) (\<lambda>(w, fails). data w) (\<lambda>(w, fails). live w)"
proof (unfold_locales, goal_cases)
  case (1 w p i)
  then show ?case using read_any [of "fst w" p i] by (auto simp: flaky_def split: prod.splits)
next
  case (2 w p i)
  obtain w0 fails where w: "w = (w0, fails)" by (cases w)
  then obtain n err w' xs where ok: "WriteAt S p (int i) w0 = (Ok (n, err), w')" "live w'" "length xs = length p"
      "data w' = patch (data w0) i xs"
    using write_any [of w0 p i] 2 by auto
  show ?case
  proof (cases "\<exists>fs. fails = True # fs")
    case True
    have "patch (data w0) i (slice (data w0) i (length p)) = data w0"
      using 2(3) by (intro nth_equalityI) (auto simp: w patch_simps nth_patch)
    with True 2(1,3) w show ?thesis
      by (auto simp: flaky_def patch_simps intro!: exI [of _ "slice (data w0) i (length p)"])
  next
    case False
    with ok w show ?thesis by (auto simp: flaky_def split: list.split bool.split)
  qed
qed (simp_all add: flaky_def)

end

interpretation flaky_mem: weak_storage "flaky mem_storage" "\<lambda>(m, fails). buf m"
    "\<lambda>(m, fails). length (buf m) < 2 ^ 62"
  by (rule mem_checked.flaky_weak)

text \<open>
  C18: \<^verbatim>\<open>TryWrite\<close> is well behaved in any world: whatever the region holds (the other side may
  have corrupted both counters) and whichever accesses of the storage fail, it does not
  panic, it returns a count from 0 to \<^verbatim>\<open>len(p)\<close>, with an error only if the count is 0, it keeps
  the Writer well formed, and of the region it changes at most the data bytes and the tail
  word.
\<close>

theorem TryWrite_confined:
  assumes "weak_storage S data live" "live s" "w_st w = S" "writer_wf cap (data s) w"
  shows "\<exists>n err w' s'. run (TryWrite w p) s = (Done ((n, err), w'), s') \<and> live s' \<and>
    confined (writer_area cap) (data s) (data s') \<and> 0 \<le> n \<and> n \<le> int (length p) \<and> (err \<noteq> None \<longrightarrow> n = 0) \<and>
    w_st w' = S \<and> writer_wf cap (data s') w'"
  by (rule weak_storage.weak_TryWrite [OF assms])

theorem TryWrite_confined_witness:
  "\<exists>n err w' m fails. run (TryWrite (fresh_writer (flaky mem_storage) 4) [1, 2, 3, 4, 5]) (\<lparr>buf = replicate 68 255\<rparr>, [False, True]) =
      (Done ((n, err), w'), (m, fails)) \<and> n \<le> 5 \<and> take 24 (buf m) = replicate 24 255"
proof -
  let ?s = "(\<lparr>buf = replicate 68 255\<rparr>, [False, True])" and ?w = "fresh_writer (flaky mem_storage) 4"
  have wf: "writer_wf 4 (replicate 68 255) ?w"
    by (auto simp: writer_wf_def fresh_writer_def cap_ok_def headerSize_def intro: exI [of _ 2])
  obtain n err w' s' where r: "run (TryWrite ?w [1, 2, 3, 4, 5]) ?s = (Done ((n, err), w'), s')" "n \<le> 5"
      "confined (writer_area 4) (replicate 68 255) (buf (fst s'))"
    using TryWrite_confined [OF flaky_mem.weak_storage_axioms, of ?s ?w 4 "[1, 2, 3, 4, 5]"] wf by (auto simp: case_prod_beta)
  have "take 24 (buf (fst s')) = replicate 24 255"
    using r(3) by (intro nth_equalityI) (auto simp: confined_def writer_area_def layout_defs)
  with r show ?thesis by (metis prod.collapse)
qed

text \<open>
  C19: so is \<^verbatim>\<open>TryRead\<close>: it does not panic, returns a count within the caller's buffer, whose
  length it keeps, and of the region it changes at most the head word. With corrupted counters
  its data may be stale, and a read may fail, but nothing else happens.
\<close>

theorem TryRead_confined:
  assumes "weak_storage S data live" "live s" "r_st r = S" "reader_wf cap (data s) r"
  shows "\<exists>n err q r' s'. run (TryRead r p) s = (Done ((n, err), q, r'), s') \<and> live s' \<and>
    confined reader_area (data s) (data s') \<and> 0 \<le> n \<and> n \<le> int (length p) \<and> (err \<noteq> None \<longrightarrow> n = 0) \<and>
    length q = length p \<and> r_st r' = S \<and> reader_wf cap (data s') r'"
  by (rule weak_storage.weak_TryRead [OF assms])

theorem TryRead_confined_witness:
  "\<exists>n err q r' m fails. run (TryRead (fresh_reader (flaky mem_storage) 4) (replicate 100 0)) (\<lparr>buf = replicate 68 255\<rparr>, [True]) =
      (Done ((n, err), q, r'), (m, fails)) \<and> n \<le> 100 \<and> length q = 100 \<and> drop 20 (buf m) = replicate 48 255"
proof -
  let ?s = "(\<lparr>buf = replicate 68 255\<rparr>, [True])" and ?r = "fresh_reader (flaky mem_storage) 4"
  have wf: "reader_wf 4 (replicate 68 255) ?r"
    by (auto simp: reader_wf_def fresh_reader_def cap_ok_def headerSize_def intro: exI [of _ 2])
  obtain n err q r' s' where r: "run (TryRead ?r (replicate 100 0)) ?s = (Done ((n, err), q, r'), s')" "n \<le> 100"
      "length q = 100" "confined reader_area (replicate 68 255) (buf (fst s'))"
    using TryRead_confined [OF flaky_mem.weak_storage_axioms, of ?s ?r 4 "replicate 100 0"] wf by (auto simp: case_prod_beta)
  have "drop 20 (buf (fst s')) = replicate 48 255"
    using r(4) by (intro nth_equalityI) (auto simp: confined_def reader_area_def layout_defs)
  with r show ?thesis by (metis prod.collapse)
qed

end
