(* ===== verification/Faults.thy ===== *)
theory Faults
  imports Robust
begin

text \<open>
  A valid ring over a storage whose accesses may fail: what a failed \<^verbatim>\<open>TryWrite\<close> and a failed
  \<^verbatim>\<open>TryRead\<close> leave behind. A failure of an access to the data region, or of the load of the
  other side's counter, is harmless; a failure of the store that publishes the own counter
  leaves the handle ahead of the region.
\<close>

section \<open>The contract\<close>

text \<open>
  An access that reports success has done what it says; a word that could not be stored is as
  it was. (A failed write of data may have left anything in the range it was to write.)
\<close>

locale faulty_storage = weak_storage +
  assumes read_good: "live w \<Longrightarrow> p \<noteq> [] \<Longrightarrow> i + length p \<le> length (data w) \<Longrightarrow>
      ReadAt S p (int i) w = Ok (q, n, None) \<Longrightarrow> q = slice (data w) i (length p)"
    and write_good: "live w \<Longrightarrow> p \<noteq> [] \<Longrightarrow> i + length p \<le> length (data w) \<Longrightarrow>
      WriteAt S p (int i) w = (Ok (n, None), w') \<Longrightarrow> data w' = patch (data w) i p"
    and write_failed: "live w \<Longrightarrow> length p = 4 \<Longrightarrow> i + 4 \<le> length (data w) \<Longrightarrow>
      WriteAt S p (int i) w = (Ok (n, Some e), w') \<Longrightarrow> data w' = data w"
    and load_good: "AtomicStorage S = Some a \<Longrightarrow> live w \<Longrightarrow> i + 4 \<le> length (data w) \<Longrightarrow> 4 dvd i \<Longrightarrow>
      LoadUint32 a (int i) w = Ok (Inr v) \<Longrightarrow> v = u32_at (data w) i"
    and store_good: "AtomicStorage S = Some a \<Longrightarrow> live w \<Longrightarrow> i + 4 \<le> length (data w) \<Longrightarrow> 4 dvd i \<Longrightarrow>
      StoreUint32 a (int i) v w = (Ok err, w') \<Longrightarrow>
      data w' = (if err = None then patch (data w) i (le32 v) else data w)"

sublocale checked_storage \<subseteq> faulty_storage S data live
proof (unfold_locales, goal_cases)
  case (1 w p i q n)
  with read_ok [OF 1(1-3)] show ?case by simp
next
  case (2 w p i n w')
  with write_ok [OF 2(1-3)] show ?case by auto
next
  case (3 w p i n e w')
  then have "p \<noteq> []" by auto
  with 3 write_ok [of w p i] show ?case by auto
next
  case (4 a w i v)
  with load_ok [OF 4(1-4)] show ?case by simp
next
  case (5 a w i v err w')
  with store_ok [OF 5(1-4), of v] show ?case by auto
qed

interpretation flaky_faulty: faulty_storage "flaky mem_storage" "\<lambda>(m, fails). buf m"
    "\<lambda>(m, fails). length (buf m) < 2 ^ 62"
proof (unfold_locales, goal_cases)
  case (1 w p i q n)
  then show ?case using mem.read_ok [of "fst w" p i] by (auto simp: flaky_def split: prod.splits)
next
  case (2 w p i n w')
  then show ?case using mem.write_ok [of "fst w" p i]
    by (auto simp: flaky_def split: prod.splits list.splits bool.splits)
next
  case (3 w p i n e w')
  then have "p \<noteq> []" by auto
  with 3 show ?case using mem.write_ok [of "fst w" p i]
    by (auto simp: flaky_def split: prod.splits list.splits bool.splits)
qed (simp_all add: flaky_def)


section \<open>The Writer\<close>

text \<open>A Writer whose local tail is ahead of the region by \<open>m\<close> staged, unpublished bytes.\<close>

definition ahead :: "nat \<Rightarrow> byte list \<Rightarrow> 'w writer \<Rightarrow> byte list \<Rightarrow> bool" where
  "ahead cap d w xs \<longleftrightarrow> xs \<noteq> [] \<and> w_tail w = ring_tail d + of_nat (length xs) \<and> staged cap d (length xs) = xs"

context faulty_storage
begin

lemma faulty_read32:
  assumes "live s" "i + 4 \<le> length (data s)" "i + 4 < 2 ^ 62" "4 dvd i"
  shows "run (readUint32At S i) s = (Done (Inr (u32_at (data s) i)), s) \<or> (\<exists>e. run (readUint32At S i) s = (Done (Inl e), s))"
proof (cases "AtomicStorage S")
  case None
  obtain q n err where q: "ReadAt S (replicate 4 0) (int i) s = Ok (q, n, err)"
    using read_any [OF assms(1), of "replicate 4 0" i] assms(3) by auto
  show ?thesis
  proof (cases err)
    case None
    with q read_good [OF assms(1), of "replicate 4 0" i] assms(2) have "q = slice (data s) i 4" by simp
    with q None \<open>AtomicStorage S = None\<close> show ?thesis by (simp add: readUint32At_def run_basic u32_at_def)
  qed (use q None in \<open>simp add: readUint32At_def run_basic\<close>)
next
  case (Some a)
  obtain r where r: "LoadUint32 a (int i) s = Ok r" using load_any [OF Some assms(1,2,4)] by blast
  then show ?thesis using load_good [OF Some assms(1,2,4)] Some
    by (cases r) (auto simp: readUint32At_def run_basic)
qed

lemma faulty_write32:
  assumes "live s" "i + 4 \<le> length (data s)" "4 dvd i"
  obtains err s' where "run (writeUint32At S i v) s = (Done err, s')" "live s'"
    "data s' = (if err = None then patch (data s) i (le32 v) else data s)"
proof -
  have ne: "le32 v \<noteq> []" using length_le32 [of v] by force
  obtain err s1 where s1: "run (storeWord S i v) s = (Done err, s1)" "live s1"
      "data s1 = (if err = None then patch (data s) i (le32 v) else data s)"
  proof (cases "AtomicStorage S")
    case None
    obtain n err s' where w: "WriteAt S (le32 v) (int i) s = (Ok (n, err), s')" "live s'"
      using write_any [OF assms(1) ne, of i] assms(2) by auto
    then have "data s' = (if err = None then patch (data s) i (le32 v) else data s)"
      using write_good [OF assms(1) ne, of i n s'] write_failed [OF assms(1), of "le32 v" i n _ s'] assms(2)
      by (cases err) auto
    with w None show ?thesis by (intro that [of err s']) (simp_all add: storeWord_def run_basic)
  next
    case (Some a)
    with store_any [OF Some assms, of v] store_good [OF Some assms, of v] that show ?thesis
      by (fastforce simp: storeWord_def run_basic)
  qed
  show ?thesis
  proof (cases "WaiterStorage S = None \<or> err \<noteq> None")
    case True
    with s1 that show ?thesis
      by (cases err) (auto simp: writeUint32At_def wakeWord_def run_basic)
  next
    case False
    then obtain u where u: "WaiterStorage S = Some u" by auto
    have "i + 4 \<le> length (data s1)" using assms(2) s1(3) by (auto simp: patch_simps)
    from wake_any [OF u s1(2) this assms(3)] obtain s2 where
      "Wake u (int i) s1 = (Ok (), s2)" "live s2" "data s2 = data s1" by blast
    with s1 u False that [of None s2] show ?thesis by (simp add: writeUint32At_def wakeWord_def run_basic)
  qed
qed

lemma faulty_chunk:
  assumes "live s" "ring_ok cap (data s)" "used (data s) + k + length xs \<le> cap" "xs \<noteq> []"
    and "t mod cap = (unat (ring_tail (data s)) + k) mod cap" "t mod cap + length xs \<le> cap"
  obtains n err s' where "WriteAt S xs (int (headerSize + t mod cap)) s = (Ok (n, err), s')" "live s'"
    "same_words (data s) (data s')" "contents cap (data s') = contents cap (data s)"
    "err = None \<Longrightarrow> staged cap (data s') (k + length xs) = staged cap (data s) k @ xs"
proof -
  have len: "headerSize + t mod cap + length xs \<le> length (data s)"
    using assms(2,6) by (simp add: ring_ok_def)
  obtain n err s' ys where w: "WriteAt S xs (int (headerSize + t mod cap)) s = (Ok (n, err), s')" "live s'"
      "length ys = length xs" "data s' = patch (data s) (headerSize + t mod cap) ys"
    using write_any [OF assms(1,4) len] by blast
  have fit: "used (data s) + k + length ys \<le> cap" "t mod cap + length ys \<le> cap" using assms(3,6) w(3) by simp_all
  note staged_ys = stage_chunk [OF assms(2) fit(1) assms(5) fit(2), folded w(4)]
  have "staged cap (data s') (k + length xs) = staged cap (data s) k @ xs" if "err = None"
  proof -
    have "data s' = patch (data s) (headerSize + t mod cap) xs"
      using write_good [OF assms(1,4) len, of n s'] w(1) that by simp
    then show ?thesis using stage_chunk(3) [OF assms(2,3,5,6)] by simp
  qed
  then show ?thesis using that [OF w(1,2) staged_ys(1,2)] by blast
qed

lemma faulty_writeRing:
  assumes "live s" "w_st w = S" "writer_inv cap (data s) w"
    and n: "0 < n" "n \<le> length p" "used (data s) + n \<le> cap"
  obtains err s' where "run (writeRing w p (int n)) s = (Done err, s')" "live s'"
    "same_words (data s) (data s')" "contents cap (data s') = contents cap (data s)"
    "err = None \<Longrightarrow> staged cap (data s') n = take n p"
proof -
  have ok: "ring_ok cap (data s)" and cap: "cap_ok cap" "0 < cap" and t: "w_tail w = ring_tail (data s)"
      and wc: "w_capacity w = int cap" "w_mask w = int cap - 1"
    using assms(3) cap_ok_bounds by (auto simp: writer_inv_def ring_ok_def)
  define s0 where "s0 = unat (w_tail w) mod cap"
  have s0: "s0 < cap" "s0 mod cap = s0" using cap(2) by (simp_all add: s0_def)
  have n_cap: "n \<le> cap" using n(3) by simp
  note eq = writeRing_eq [OF cap(1) wc n_cap n(2), unfolded assms(2), folded s0_def]
  show ?thesis
  proof (cases "s0 + n \<le> cap")
    case True
    have "take n p \<noteq> []" "length (take n p) = n" using n by auto
    with faulty_chunk [OF assms(1) ok, of 0 "take n p" s0] n True s0
    obtain m err s' where "WriteAt S (take n p) (int (headerSize + s0)) s = (Ok (m, err), s')" "live s'"
        "same_words (data s) (data s')" "contents cap (data s') = contents cap (data s)"
        "err = None \<Longrightarrow> staged cap (data s') n = take n p"
      by (auto simp: s0_def t)
    with True show ?thesis by (intro that [of err s']) (simp_all add: eq Let_def run_basic)
  next
    case False
    define f where "f = cap - s0"
    have f: "0 < f" "f < n" "s0 + f = cap" using False s0 by (auto simp: f_def)
    have "take f p \<noteq> []" "length (take f p) = f" using n f by auto
    with faulty_chunk [OF assms(1) ok, of 0 "take f p" s0] n f s0
    obtain m1 err1 s1 where s1: "WriteAt S (take f p) (int (headerSize + s0)) s = (Ok (m1, err1), s1)"
        "live s1" "same_words (data s) (data s1)" "contents cap (data s1) = contents cap (data s)"
        "err1 = None \<Longrightarrow> staged cap (data s1) f = take f p"
      by (auto simp: s0_def t)
    show ?thesis
    proof (cases err1)
      case (Some e)
      with False f(3) s1 show ?thesis
        by (intro that [of "Some e" s1]) (simp_all add: eq Let_def run_basic flip: f_def)
    next
      case None
      have tail1: "ring_tail (data s1) = w_tail w" using s1(3) t by (simp add: same_words_def)
      have wrap: "(unat (w_tail w) + f) mod cap = 0"
        using f(3) by (metis mod_add_left_eq mod_self s0_def)
      have g: "drop f (take n p) \<noteq> []" "length (drop f (take n p)) = n - f" "n - f \<le> cap"
        using n f n_cap by auto
      have used1: "used (data s1) + f + length (drop f (take n p)) \<le> cap"
        using n f g(2) same_words_used [OF s1(3)] by simp
      have ok1: "ring_ok cap (data s1)" using ok same_words_ring_ok [OF s1(3)] by simp
      obtain m2 err2 s2 where s2: "WriteAt S (drop f (take n p)) (int (headerSize + cap mod cap)) s1 = (Ok (m2, err2), s2)"
          "live s2" "same_words (data s1) (data s2)" "contents cap (data s2) = contents cap (data s1)"
          "err2 = None \<Longrightarrow> staged cap (data s2) (f + length (drop f (take n p))) = staged cap (data s1) f @ drop f (take n p)"
        using faulty_chunk [OF s1(2) ok1 used1 g(1), of cap] wrap g(2,3) by (auto simp: tail1)
      have "take f p @ drop f (take n p) = take n p"
        using f(2) by (metis append_take_drop_id min.absorb3 take_take)
      moreover have "f + length (drop f (take n p)) = n" using f g(2) by simp
      moreover have "run (writeRing w p (int n)) s = (Done err2, s2)"
        using False f(3) s1(1) s2(1) None by (simp add: eq Let_def run_basic flip: f_def)
      ultimately show ?thesis
        using s1 s2 None by (intro that [of err2 s2]) (auto intro: same_words_trans)
    qed
  qed
qed

end

text \<open>How a write of (up to) \<open>k\<close> bytes of \<open>p\<close> can end.\<close>

definition write_outcome ::
  "'w storage \<Rightarrow> ('w \<Rightarrow> byte list) \<Rightarrow> ('w \<Rightarrow> bool) \<Rightarrow> nat \<Rightarrow> byte list \<Rightarrow> nat \<Rightarrow> 'w \<Rightarrow>
    int64 \<Rightarrow> gerror option \<Rightarrow> 'w writer \<Rightarrow> 'w \<Rightarrow> bool" where
  "write_outcome S data live cap p k s n err w' s' \<longleftrightarrow>
     (if err = None then n = int k \<and> wrote S data live cap p k s w' s'
      else n = 0 \<and> live s' \<and> contents cap (data s') = contents cap (data s) \<and>
        ring_closed (data s') = ring_closed (data s) \<and>
        (writer_inv cap (data s') w' \<or> (\<exists>m \<le> length p. ahead cap (data s') w' (take m p))))"

context faulty_storage
begin

lemma faulty_writeFreeSpace:
  assumes "live s" "w_st w = S" "writer_inv cap (data s) w" "p \<noteq> []"
  defines "k \<equiv> min (length p) (cap - unat (w_tail w - w_cachedHead w))"
  shows "\<exists>n err w' s'. run (writeFreeSpace w p) s = (Done ((n, err), w'), s') \<and>
    write_outcome S data live cap p k s n err w' s'"
proof (cases "k = 0")
  case True
  with assms(1-3) show ?thesis
    by (simp add: writeFreeSpace_eq [OF assms(3,4), folded k_def] wrote_def write_outcome_def)
next
  case False
  let ?u = "unat (w_tail w - w_cachedHead w)" and ?w = "w\<lparr>w_tail := w_tail w + of_nat k\<rparr>"
  have k: "0 < k" "k \<le> length p" "used (data s) + k \<le> cap" "k \<le> cap - ?u"
    using False assms(3) by (auto simp: k_def writer_inv_def)
  note eq = writeFreeSpace_eq [OF assms(3,4), folded k_def]
  obtain err1 s1 where s1: "run (writeRing w p (int k)) s = (Done err1, s1)" "live s1"
      "same_words (data s) (data s1)" "contents cap (data s1) = contents cap (data s)"
      "err1 = None \<Longrightarrow> staged cap (data s1) k = take k p"
    using faulty_writeRing [OF assms(1-3) k(1-3)] by blast
  have inv1: "writer_inv cap (data s1) w"
    using writer_inv_mono [OF assms(3), of "data s1"] s1(3) assms(3)
    by (auto simp: same_words_used same_words_ring_ok writer_inv_def) (simp_all add: same_words_def)
  have words: "ring_closed (data s1) = ring_closed (data s)" "ring_head (data s1) = ring_head (data s)"
    using s1(3) by (simp_all add: same_words_def)
  show ?thesis
  proof (cases err1)
    case (Some e)
    then have "run (writeFreeSpace w p) s = (Done ((0, Some e), w), s1)"
      using False s1(1) by (simp add: eq run_basic)
    with s1(2,4) inv1 words show ?thesis by (auto simp: write_outcome_def)
  next
    case None
    have "offTail + 4 \<le> length (data s1)" "4 dvd offTail"
      using inv1 by (auto simp: writer_inv_def ring_ok_def layout_defs)
    then obtain err2 s2 where s2: "run (writeUint32At S offTail (w_tail w + of_nat k)) s1 = (Done err2, s2)" "live s2"
        "data s2 = (if err2 = None then patch (data s1) offTail (le32 (w_tail w + of_nat k)) else data s1)"
      using faulty_write32 [OF s1(2), of offTail "w_tail w + of_nat k"] by blast
    have run: "run (writeFreeSpace w p) s = (Done ((if err2 = None then int k else 0, err2), ?w), s2)"
      using False None s1(1) s2(1) assms(2) by (cases err2) (simp_all add: eq publishTail_def Let_def run_basic)
    show ?thesis
    proof (cases err2)
      case None
      with writer_inv_publish [OF inv1 k(4)] s1(4,5) s2(2,3) words run assms(2) \<open>err1 = None\<close>
      show ?thesis by (simp add: write_outcome_def wrote_def)
    next
      case (Some e)
      have "take k p \<noteq> []" "length (take k p) = k" using k by auto
      then have "ahead cap (data s2) ?w (take k p)"
        using inv1 s1(5) s2(3) Some \<open>err1 = None\<close> by (simp add: ahead_def writer_inv_def)
      with run Some s1(4) s2(2,3) words k(2) show ?thesis by (auto simp: write_outcome_def)
    qed
  qed
qed

lemma faulty_TryWrite:
  assumes "live s" "w_st w = S" "writer_inv cap (data s) w" "\<not> w_closed w"
  shows "\<exists>n err w' s'. run (TryWrite w p) s = (Done ((n, err), w'), s') \<and>
    write_outcome S data live cap p (min (length p) (cap - used (data s))) s n err w' s'"
proof -
  let ?u = "unat (w_tail w - w_cachedHead w)"
  have len: "offHead + 4 \<le> length (data s)" "offHead + 4 < 2 ^ 62" "4 dvd offHead"
    using assms(3) by (auto simp: writer_inv_def ring_ok_def layout_defs)
  have u: "used (data s) \<le> ?u" "?u \<le> cap" using assms(3) unfolding writer_inv_def by blast+
  note load = faulty_read32 [OF assms(1) len]
  consider "p = []" | "p \<noteq> []" "length p \<le> cap - ?u"
    | e where "p \<noteq> []" "cap - ?u < length p" "run (readUint32At S offHead) s = (Done (Inl e), s)"
    | "p \<noteq> []" "cap - ?u < length p" "run (readUint32At S offHead) s = (Done (Inr (ring_head (data s))), s)"
    using load unfolding ring_head_def by (metis not_le)
  then show ?thesis
  proof cases
    case 1
    then show ?thesis using assms by (simp add: TryWrite_def wrote_def write_outcome_def)
  next
    case 2
    then have "min (length p) (cap - used (data s)) = min (length p) (cap - ?u)" using u by simp
    moreover have "run (TryWrite w p) s = run (writeFreeSpace w p) s"
      using 2 assms(4) by (simp add: TryWrite_def writerFree_inv [OF assms(3)])
    ultimately show ?thesis using faulty_writeFreeSpace [OF assms(1-3) 2(1)] by simp
  next
    case 3
    then have "run (TryWrite w p) s = (Done ((0, Some e), w), s)"
      using assms(2,4) by (simp add: TryWrite_def writerFree_inv [OF assms(3)] run_basic)
    with assms show ?thesis by (auto simp: write_outcome_def)
  next
    case 4
    let ?w = "w\<lparr>w_cachedHead := ring_head (data s)\<rparr>"
    have "unat (w_tail ?w - w_cachedHead ?w) = used (data s)"
      using assms(3) by (simp add: writer_inv_def used_def)
    moreover have "run (TryWrite w p) s = run (writeFreeSpace ?w p) s"
      using 4 assms(2,4) by (simp add: TryWrite_def writerFree_inv [OF assms(3)] run_basic)
    ultimately show ?thesis
      using faulty_writeFreeSpace [OF assms(1) _ writer_inv_refresh [OF assms(3)] 4(1)] assms(2) by simp
  qed
qed

end


section \<open>The Reader\<close>

text \<open>A Reader whose local head is ahead of the region: it will not see the next \<open>m\<close> bytes.\<close>

definition skips :: "byte list \<Rightarrow> 'w reader \<Rightarrow> nat \<Rightarrow> bool" where
  "skips d r m \<longleftrightarrow> 0 < m \<and> m \<le> used d \<and> r_head r = ring_head d + of_nat m"

context faulty_storage
begin

lemma faulty_cells:
  assumes "live s" "ring_ok cap (data s)" "i mod cap + n \<le> cap" "length p = n" "0 < n"
  obtains q m err where "ReadAt S p (int (headerSize + i mod cap)) s = Ok (q, m, err)" "length q = n"
    "err = None \<Longrightarrow> q = cells cap (data s) i n"
proof -
  have len: "headerSize + cap \<le> length (data s)" and "cap \<le> 2 ^ 31" and ne: "p \<noteq> []"
    using assms(2,4,5) cap_ok_bounds by (auto simp: ring_ok_def)
  then have "headerSize + i mod cap + length p < 2 ^ 62" "headerSize + i mod cap + length p \<le> length (data s)"
    using assms(3,4) by (simp_all add: headerSize_def)
  with read_any [OF assms(1) ne this(1)] read_good [OF assms(1) ne this(2)] show ?thesis
    using cells_slice [OF assms(3) len] assms(4) that by metis
qed

lemma faulty_readRing:
  assumes "live s" "r_st r = S" "reader_inv cap (data s) r"
    and n: "0 < n" "n \<le> length p" "n \<le> used (data s)"
  obtains q err where "run (readRing r p (int n)) s = (Done (q, err), s)"
    "err = None \<Longrightarrow> q = take n (contents cap (data s)) @ drop n p"
proof -
  have ok: "ring_ok cap (data s)" and cap: "cap_ok cap" "0 < cap" and h: "r_head r = ring_head (data s)"
      and rc: "r_capacity r = int cap" "r_mask r = int cap - 1"
    using assms(3) cap_ok_bounds by (auto simp: reader_inv_def ring_ok_def)
  have n_cap: "n \<le> cap" using n(3) ok by (simp add: ring_ok_def)
  define s0 where "s0 = unat (r_head r) mod cap"
  have s0: "s0 < cap" "s0 mod cap = s0" using cap(2) by (simp_all add: s0_def)
  have con: "take n (contents cap (data s)) = cells cap (data s) s0 n"
    using n(3) by (simp add: contents_def take_cells s0_def flip: h) (rule cells_mod, simp)
  note eq = readRing_eq [OF cap(1) rc n_cap n(2), unfolded assms(2), folded s0_def]
  show ?thesis
  proof (cases "s0 + n \<le> cap")
    case True
    obtain q m err where "ReadAt S (take n p) (int (headerSize + s0 mod cap)) s = Ok (q, m, err)" "length q = n"
        "err = None \<Longrightarrow> q = cells cap (data s) s0 n"
      using faulty_cells [OF assms(1) ok, of s0 n "take n p"] True n s0 by auto
    with True s0 con show ?thesis by (intro that [of "q @ drop n p" err]) (simp_all add: eq run_basic Let_def)
  next
    case False
    define f where "f = cap - s0"
    have f: "0 < f" "f < n" "s0 + f = cap" using False s0 by (auto simp: f_def)
    obtain q1 m1 err1 where r1: "ReadAt S (take f p) (int (headerSize + s0 mod cap)) s = Ok (q1, m1, err1)" "length q1 = f"
        "err1 = None \<Longrightarrow> q1 = cells cap (data s) s0 f"
      using faulty_cells [OF assms(1) ok, of s0 f "take f p"] n f s0 by auto
    let ?p = "q1 @ drop f p"
    have len: "length (drop f (take n ?p)) = n - f" using n f r1(2) by simp
    obtain q2 m2 err2 where r2: "ReadAt S (drop f (take n ?p)) (int (headerSize + cap mod cap)) s = Ok (q2, m2, err2)"
        "length q2 = n - f" "err2 = None \<Longrightarrow> q2 = cells cap (data s) cap (n - f)"
    proof (rule faulty_cells [OF assms(1) ok _ len])
      show "cap mod cap + (n - f) \<le> cap" "0 < n - f" using n_cap f by simp_all
    qed (rule that)
    have join: "cells cap (data s) s0 f @ cells cap (data s) cap (n - f) = cells cap (data s) s0 n"
      using cells_append [of cap "data s" s0 f "n - f"] f(2,3) by simp
    show ?thesis
    proof (cases err1)
      case (Some e)
      with False r1 s0 show ?thesis
        by (intro that [of ?p "Some e"]) (simp_all add: eq run_basic Let_def flip: f_def)
    next
      case None
      have "run (readRing r p (int n)) s = (Done (q1 @ q2 @ drop n p, err2), s)"
        using False None r1(1,2) r2(1) s0 f n by (simp add: eq run_basic Let_def flip: f_def)
      with None r1(3) r2(3) join con show ?thesis by (intro that [of "q1 @ q2 @ drop n p" err2]) auto
    qed
  qed
qed

lemma faulty_readAvailable:
  assumes "live s" "r_st r = S" "reader_inv cap (data s) r" "p \<noteq> []"
  defines "k \<equiv> min (length p) (unat (r_cachedTail r - r_head r))"
  shows "\<exists>n err q r' s'. run (readAvailable r p) s = (Done ((n, err), q, r'), s') \<and> live s' \<and>
    (n = int k \<and> err = (if k = 0 \<and> ring_closed (data s) then Some EOF else None) \<and>
       q = take k (contents cap (data s)) @ drop k p \<and> contents cap (data s') = drop k (contents cap (data s)) \<and>
       ring_closed (data s') = ring_closed (data s) \<and> reader_inv cap (data s') r' \<or>
     n = 0 \<and> err \<noteq> None \<and> data s' = data s \<and>
       (reader_inv cap (data s) r' \<or> skips (data s) r' k \<and> take k q = take k (contents cap (data s))))"
proof -
  note eq = readAvailable_eq [OF assms(4), of r, folded k_def, unfolded assms(2)]
  have len: "offClosed + 4 \<le> length (data s)" "offHead + 4 \<le> length (data s)" "4 dvd offClosed" "4 dvd offHead"
      "offClosed + 4 < 2 ^ 62"
    using assms(3) by (auto simp: reader_inv_def ring_ok_def layout_defs)
  show ?thesis
  proof (cases "k = 0")
    case True
    then show ?thesis using faulty_read32 [OF assms(1) len(1,5,3)] assms(1-3)
      by (auto simp: eq run_basic ring_closed_def)
  next
    case False
    let ?r = "r\<lparr>r_head := r_head r + of_nat k\<rparr>"
    have k: "0 < k" "k \<le> length p" "k \<le> used (data s)" "k \<le> unat (r_cachedTail r - r_head r)"
      using False assms(3) by (auto simp: k_def reader_inv_def)
    have h: "r_head r = ring_head (data s)" using assms(3) by (simp add: reader_inv_def)
    obtain q err1 where q: "run (readRing r p (int k)) s = (Done (q, err1), s)"
        "err1 = None \<Longrightarrow> q = take k (contents cap (data s)) @ drop k p"
      using faulty_readRing [OF assms(1-3) k(1-3)] by blast
    obtain err2 s2 where s2: "run (writeUint32At S offHead (r_head r + of_nat k)) s = (Done err2, s2)" "live s2"
        "data s2 = (if err2 = None then patch (data s) offHead (le32 (r_head r + of_nat k)) else data s)"
      using faulty_write32 [OF assms(1) len(2,4), of "r_head r + of_nat k"] by blast
    show ?thesis
    proof (cases err1)
      case (Some e)
      with False q(1) assms(1,3) show ?thesis by (simp add: eq run_basic)
    next
      case None
      have run: "run (readAvailable r p) s = (Done ((if err2 = None then int k else 0, err2), q, ?r), s2)"
        using False None q(1) s2(1) assms(2) by (cases err2) (simp_all add: eq advanceHead_def Let_def run_basic)
      show ?thesis
      proof (cases err2)
        case None
        with run s2 q(2) \<open>err1 = None\<close> reader_inv_advance [OF assms(3) k(4)] False show ?thesis by simp
      next
        case (Some e)
        have "skips (data s) ?r k" using k h by (simp add: skips_def)
        with Some run s2 q(2) \<open>err1 = None\<close> k(3) show ?thesis by simp
      qed
    qed
  qed
qed

lemma faulty_TryRead:
  assumes "live s" "r_st r = S" "reader_inv cap (data s) r" "p \<noteq> []"
  defines "k \<equiv> min (length p) (used (data s))"
  shows "\<exists>n err q r' s'. run (TryRead r p) s = (Done ((n, err), q, r'), s') \<and> live s' \<and>
    (n = int k \<and> err = (if k = 0 \<and> ring_closed (data s) then Some EOF else None) \<and>
       q = take k (contents cap (data s)) @ drop k p \<and> contents cap (data s') = drop k (contents cap (data s)) \<and>
       ring_closed (data s') = ring_closed (data s) \<and> reader_inv cap (data s') r' \<or>
     n = 0 \<and> err \<noteq> None \<and> data s' = data s \<and>
       (reader_inv cap (data s) r' \<or> skips (data s) r' k \<and> take k q = take k (contents cap (data s))))"
proof -
  let ?a = "unat (r_cachedTail r - r_head r)"
  have len: "offTail + 4 \<le> length (data s)" "offTail + 4 < 2 ^ 62" "4 dvd offTail"
    using assms(3) by (auto simp: reader_inv_def ring_ok_def layout_defs)
  have a: "?a \<le> used (data s)" using assms(3) unfolding reader_inv_def by blast
  note load = faulty_read32 [OF assms(1) len]
  consider "length p \<le> ?a"
    | e where "?a < length p" "run (readUint32At S offTail) s = (Done (Inl e), s)"
    | "?a < length p" "run (readUint32At S offTail) s = (Done (Inr (ring_tail (data s))), s)"
    using load unfolding ring_tail_def by (metis not_le)
  then show ?thesis
  proof cases
    case 1
    then have "k = min (length p) ?a" using a by (simp add: k_def)
    moreover have "run (TryRead r p) s = run (readAvailable r p) s"
      using 1 assms(4) by (simp add: TryRead_def readerAvail_less)
    ultimately show ?thesis using faulty_readAvailable [OF assms(1-4)] by simp
  next
    case 2
    then have "run (TryRead r p) s = (Done ((0, Some e), p, r), s)"
      using assms(2,4) by (simp add: TryRead_def readerAvail_less run_basic)
    with assms show ?thesis by simp
  next
    case 3
    let ?r = "r\<lparr>r_cachedTail := ring_tail (data s)\<rparr>"
    have "unat (r_cachedTail ?r - r_head ?r) = used (data s)"
      using assms(3) by (simp add: reader_inv_def used_def)
    moreover have "run (TryRead r p) s = run (readAvailable ?r p) s"
      using 3 assms(2,4) by (simp add: TryRead_def readerAvail_less run_basic)
    ultimately show ?thesis
      using faulty_readAvailable [OF assms(1) _ reader_inv_refresh [OF assms(3)] assms(4)] assms(2)
      by (simp add: k_def)
  qed
qed

end


section \<open>Properties\<close>

text \<open>
  C20: a \<^verbatim>\<open>TryWrite\<close> over a storage whose accesses may fail: it does what the bounded queue does,
  or it reports 0 bytes and an error and the queue is as it was. Then the Writer can go on as if
  nothing had happened, or, if it was the store of the tail that failed, its local tail is
  ahead of the region by the bytes it has reported as not written.
\<close>

theorem TryWrite_faults:
  assumes "faulty_storage S data live" "live s" "w_st w = S" "writer_inv cap (data s) w"
  shows "\<exists>n err w' s'. run (TryWrite w p) s = (Done ((n, err), w'), s') \<and>
    (((n, err), fifo_of cap (data s')) = fifo_write cap p (fifo_of cap (data s)) \<and> writer_inv cap (data s') w' \<or>
     n = 0 \<and> err \<noteq> None \<and> fifo_of cap (data s') = fifo_of cap (data s) \<and>
       (writer_inv cap (data s') w' \<or> (\<exists>m \<le> length p. ahead cap (data s') w' (take m p))))"
proof (cases "w_closed w")
  case True
  then have "ring_closed (data s)" using assms(4) by (simp add: writer_inv_def)
  with True show ?thesis using assms by (simp add: TryWrite_def fifo_write_def)
next
  case False
  then have "\<not> ring_closed (data s)" using assms(4) by (simp add: writer_inv_def)
  with faulty_storage.faulty_TryWrite [OF assms False, of p] show ?thesis
    by (fastforce simp: write_outcome_def fifo_write_def wrote_def fifo_of_def Let_def split: if_splits)
qed

theorem TryWrite_faults_witness:
  "\<exists>n err w m fails. run (TryWrite (fresh_writer (flaky mem_storage) 4) [1, 2]) (mem4, [False, True]) =
      (Done ((n, err), w), (m, fails)) \<and> contents 4 (buf m) = take (nat n) [1, 2]"
proof -
  have inv: "writer_inv 4 (buf mem4) (fresh_writer (flaky mem_storage) 4)"
    using fresh_writer_inv [OF cap_ok_4] by simp
  have "\<exists>n err w s'. run (TryWrite (fresh_writer (flaky mem_storage) 4) [1, 2]) (mem4, [False, True]) =
      (Done ((n, err), w), s') \<and>
      (((n, err), fifo_of 4 (buf (fst s'))) = fifo_write 4 [1, 2] (fifo_of 4 (buf mem4)) \<or>
       n = 0 \<and> fifo_of 4 (buf (fst s')) = fifo_of 4 (buf mem4))"
    using TryWrite_faults [OF flaky_faulty.faulty_storage_axioms, of "(mem4, [False, True])"
        "fresh_writer (flaky mem_storage) 4" 4 "[1, 2]", unfolded case_prod_beta] inv
    by (simp add: fresh_region headerSize_def) blast
  then have "\<exists>n err w s'. run (TryWrite (fresh_writer (flaky mem_storage) 4) [1, 2]) (mem4, [False, True]) =
      (Done ((n, err), w), s') \<and> contents 4 (buf (fst s')) = take (nat n) [1, 2]"
    by (elim ex_forward) (auto simp: fresh_region fifo_write_def fifo_of_def Let_def)
  then show ?thesis by simp
qed

lemma fifo_read_min:
  assumes "p \<noteq> []"
  defines "k \<equiv> \<lambda>f. min (length p) (length (queue f))"
  shows "fifo_read p f = (((int (k f), if k f = 0 \<and> finished f then Some EOF else None),
      take (k f) (queue f) @ drop (k f) p), f\<lparr>queue := drop (k f) (queue f)\<rparr>)"
  using assms(1) by (cases p; cases "queue f") (auto simp: fifo_read_def k_def Let_def)

text \<open>
  C21: a \<^verbatim>\<open>TryRead\<close> over such a storage: it does what the bounded queue does, or it reports 0
  bytes and an error and the region is as it was. Then the Reader can go on as if nothing had
  happened, or, if it was the store of the head that failed, it will skip the bytes that it
  has put into the caller's buffer without reporting them.
\<close>

theorem TryRead_faults:
  assumes "faulty_storage S data live" "live s" "r_st r = S" "reader_inv cap (data s) r"
  shows "\<exists>n err q r' s'. run (TryRead r p) s = (Done ((n, err), q, r'), s') \<and>
    ((((n, err), q), fifo_of cap (data s')) = fifo_read p (fifo_of cap (data s)) \<and> reader_inv cap (data s') r' \<or>
     n = 0 \<and> err \<noteq> None \<and> data s' = data s \<and>
       (reader_inv cap (data s') r' \<or> (\<exists>m. skips (data s') r' m \<and> take m q = take m (contents cap (data s)))))"
proof (cases "p = []")
  case True
  then show ?thesis using assms(4) by (simp add: TryRead_def fifo_read_def)
next
  case False
  let ?k = "min (length p) (used (data s))"
  have k: "?k = min (length p) (length (queue (fifo_of cap (data s))))" by (simp add: fifo_of_def)
  obtain n err q r' s' where *: "run (TryRead r p) s = (Done ((n, err), q, r'), s')"
      "n = int ?k \<and> err = (if ?k = 0 \<and> ring_closed (data s) then Some EOF else None) \<and>
         q = take ?k (contents cap (data s)) @ drop ?k p \<and> contents cap (data s') = drop ?k (contents cap (data s)) \<and>
         ring_closed (data s') = ring_closed (data s) \<and> reader_inv cap (data s') r' \<or>
       n = 0 \<and> err \<noteq> None \<and> data s' = data s \<and>
         (reader_inv cap (data s) r' \<or> skips (data s) r' ?k \<and> take ?k q = take ?k (contents cap (data s)))"
    using faulty_storage.faulty_TryRead [OF assms False] by blast
  from *(2) show ?thesis
  proof (elim disjE conjE, goal_cases)
    case 1
    then have "(((n, err), q), fifo_of cap (data s')) = fifo_read p (fifo_of cap (data s))"
      unfolding fifo_read_min [OF False] k [symmetric] by (simp add: fifo_of_def)
    with 1 *(1) show ?case by blast
  qed (use *(1) in \<open>simp; blast\<close>)+
qed

theorem TryRead_faults_witness:
  "\<exists>n err q r m fails. run (TryRead (fresh_reader (flaky mem_storage) 4) [0]) (mem4, [True]) =
      (Done ((n, err), q, r), (m, fails)) \<and> contents 4 (buf m) = []"
proof -
  have inv: "reader_inv 4 (buf mem4) (fresh_reader (flaky mem_storage) 4)"
    using fresh_reader_inv [OF cap_ok_4] by simp
  have "\<exists>n err q r s'. run (TryRead (fresh_reader (flaky mem_storage) 4) [0]) (mem4, [True]) =
      (Done ((n, err), q, r), s') \<and>
      ((((n, err), q), fifo_of 4 (buf (fst s'))) = fifo_read [0] (fifo_of 4 (buf mem4)) \<or> buf (fst s') = buf mem4)"
    using TryRead_faults [OF flaky_faulty.faulty_storage_axioms, of "(mem4, [True])"
        "fresh_reader (flaky mem_storage) 4" 4 "[0]", unfolded case_prod_beta] inv
    by (simp add: fresh_region headerSize_def) blast
  then have "\<exists>n err q r s'. run (TryRead (fresh_reader (flaky mem_storage) 4) [0]) (mem4, [True]) =
      (Done ((n, err), q, r), s') \<and> contents 4 (buf (fst s')) = []"
    by (elim ex_forward) (auto simp: fresh_region fifo_read_def fifo_of_def)
  then show ?thesis by simp
qed




end
