(* ===== verification/Smoketest.thy ===== *)
theory Smoketest
  imports Android Blocking
begin

text \<open>
  \<^verbatim>\<open>examples/android-smoketest/main.go\<close>: the program that creates a ring, opens its descriptor
  a second time, writes a message through one handle and reads it back through the other.
  \<^verbatim>\<open>io.ReadAll\<close> of the standard library reads into the room its buffer has left, which is at
  least one byte; how the buffer grows is the argument \<open>room\<close>. Its loop and the ring's have
  the same fuel; \<open>None\<close> is "has not ended within the fuel".
\<close>

section \<open>The program\<close>

fun readAll :: "nat \<Rightarrow> nat \<Rightarrow> (nat \<Rightarrow> nat) \<Rightarrow> 'w reader \<Rightarrow> byte list \<Rightarrow> ('w, (byte list \<times> gerror option) option \<times> 'w reader) prog" where
  "readAll 0 n room r b = Return (None, r)"
| "readAll (Suc fuel) n room r b =
     pbind (Read n r (replicate (room (length b)) 0)) (\<lambda>(res, q, r). case res of
         None \<Rightarrow> Return (None, r)
       | Some (n', err) \<Rightarrow>
           let b = b @ take (nat n') q in
           case err of
             None \<Rightarrow> readAll fuel n room r b
           | Some e \<Rightarrow> Return (Some (b, if e = EOF then None else Some e), r))"

text \<open>
  How the program ends: \<^verbatim>\<open>log.Fatalf\<close> and \<^verbatim>\<open>os.Exit(1)\<close> end it without the deferred calls; if it
  passes, these close the Reader and then the storage, and their errors are dropped.
\<close>

datatype verdict = Fatal string gerror | Fail "byte list" | Pass "byte list"

definition message :: "byte list" where
  "message = map of_char (''hello from ASharedMemory'' @ [CHR 0x0A])"

definition smoketest :: "'w os \<Rightarrow> nat \<Rightarrow> (nat \<Rightarrow> nat) \<Rightarrow> ('w, verdict option) prog" where
  "smoketest OS fuel room =
     pbind (CreateAndroidSharedMemory OS ''shmring-smoketest'' 4096 []) (\<lambda>res. case res of
         Inl err \<Rightarrow> Return (Some (Fatal ''CreateAndroidSharedMemory: '' err))
       | Inr (w, fd) \<Rightarrow>
     pbind (OpenAndroidSharedMemory OS fd 4096 []) (\<lambda>res. case res of
         Inl err \<Rightarrow> Return (Some (Fatal ''OpenAndroidSharedMemory: '' err))
       | Inr r \<Rightarrow>
     pbind (Write fuel w message) (\<lambda>(res, w). case res of
         None \<Rightarrow> Return None
       | Some (n, Some err) \<Rightarrow> Return (Some (Fatal ''Write: '' err))
       | Some (n, None) \<Rightarrow>
     pbind (CloseWriter w) (\<lambda>(err, w).
     pbind (readAll fuel fuel room r []) (\<lambda>(res, r). case res of
         None \<Rightarrow> Return None
       | Some (got, Some err) \<Rightarrow> Return (Some (Fatal ''ReadAll: '' err))
       | Some (got, None) \<Rightarrow>
           if got \<noteq> message then Return (Some (Fail got))
           else pbind (CloseReader r) (\<lambda>err. pbind (CloseStorage w) (\<lambda>(err, w). Return (Some (Pass got)))))))))"


section \<open>Reading a closed ring to its end\<close>

context ring_storage
begin

lemma run_readAll:
  assumes "live s" "r_st r = S" "pair_inv cap (data s) w r" "ring_closed (data s)"
    and "length (contents cap (data s)) < fuel" "1 \<le> n" "\<And>k. 0 < room k"
  shows "\<exists>r' s'. run (readAll fuel n room r b) s = (Done (Some (b @ contents cap (data s), None), r'), s') \<and>
    live s' \<and> r_st r' = S \<and> pair_inv cap (data s') w r'"
  using assms(1-5)
proof (induction fuel arbitrary: s r b)
  case (Suc fuel)
  let ?p = "replicate (room (length b)) 0 :: byte list" and ?c = "contents cap (data s)"
  have p: "?p \<noteq> []" "length ?p = room (length b)" using assms(7) [of "length b"] by auto
  obtain r1 s1 where 1: "run (ReadContext n Background r ?p) s = (Done (Some (fst (fst (fifo_read ?p (fifo_of cap (data s))))),
      snd (fst (fifo_read ?p (fifo_of cap (data s)))), r1), s1)"
    "fifo_of cap (data s1) = snd (fifo_read ?p (fifo_of cap (data s)))"
    "live s1" "r_st r1 = S" "pair_inv cap (data s1) w r1"
    using session_read_ready [OF Suc.prems(1-3) p(1) _ assms(6)] Suc.prems(4) by blast
  show ?case
  proof (cases "?c = []")
    case True
    with 1 p(1) Suc.prems(4) show ?thesis by (simp add: Read_def run_basic fifo_read_def fifo_of_def)
  next
    case False
    let ?k = "min (length ?p) (length ?c)"
    have f: "fifo_read ?p (fifo_of cap (data s)) =
        (((int ?k, None), take ?k ?c @ drop ?k ?p), \<lparr>queue = drop ?k ?c, finished = True\<rparr>)"
      using False p(1) Suc.prems(4) by (simp add: fifo_read_def fifo_of_def Let_def)
    have c1: "contents cap (data s1) = drop ?k ?c" "ring_closed (data s1)" using 1(2) f by (simp_all add: fifo_of_def)
    have "0 < ?k" using False p contents_empty_iff [of cap "data s"] by (simp add: assms(7))
    then have "length (drop ?k ?c) < fuel" using Suc.prems(5) unfolding length_drop by linarith
    then have "length (contents cap (data s1)) < fuel" by (simp only: c1(1))
    from Suc.IH [OF 1(3-5) c1(2) this, of "b @ take ?k ?c"] obtain r2 s2 where
      "run (readAll fuel n room r1 (b @ take ?k ?c)) s1 = (Done (Some (b @ take ?k ?c @ drop ?k ?c, None), r2), s2)"
      "live s2" "r_st r2 = S" "pair_inv cap (data s2) w r2"
      unfolding c1(1) by auto
    then show ?thesis using 1(1) unfolding f by (simp add: Read_def run_basic)
  qed
qed simp

end


section \<open>Properties\<close>

lemma android_Close_ends: "\<exists>e w'. android_Close OS s w = (Ok e, w')"
  by (auto simp: android_Close_def split: option.split prod.split)

text \<open>The small Linux creates and opens the ring of the smoke test.\<close>

lemma kernel_smoketest:
  obtains W k1 R k2 where "run (CreateAndroidSharedMemory kernel_os ''shmring-smoketest'' 4096 []) kernel0 = (Done (Inr (W, 3)), k1)"
    "run (OpenAndroidSharedMemory kernel_os 3 4096 []) k1 = (Done (Inr R), k2)"
proof -
  let ?h = "\<lambda>fd m. \<lparr>a_fd = fd, a_mem = \<lparr>handle = m, slen = 4160\<rparr>, a_size = 4160\<rparr>"
  let ?k = "\<lambda>d n f m. kernel0\<lparr>k_file := (k_file kernel0)(3 := d), k_fd := f, k_map := m, k_next := n\<rparr>"
  let ?z = "replicate 4160 0 :: byte list" and ?f = "[3 \<mapsto> 3]" and ?m = "[4 \<mapsto> (3, 4160)]"
  let ?d = "patch ?z 0 (header_bytes 4096)"
  have c: "validateCapacity 4096 = None" using android_size(1) [of 12] by simp
  have i: "add64 (int headerSize) 4096 = 4160" "add64 0 64 = 64" "length ?d = 4160"
    by (simp_all add: add64_id is_int64_def headerSize_def patch_simps)
  have "run (backend_CreateAndroid kernel_os ''shmring-smoketest'' 4160) kernel0 = (Done (Inr (?h 3 4)), ?k ?z 5 ?f ?m)"
    by (simp add: backend_CreateAndroid_def newAndroidSharedMemoryStorage_def run_pbind run_sys k_SharedMemCreate_def
        k_Mmap_def kernel0_def Let_def)
  moreover have "\<exists>W. run (NewWriter (android_storage kernel_os (?h 3 4)) 4096 []) (?k ?z 5 ?f ?m) = (Done (Inr W), ?k ?d 5 ?f ?m)"
    using i by (simp add: NewWriter_def c initHeader_def run_basic android_Size_def android_WriteAt_def copyIn_def k_Store_def
        Let_def headerSize_def page_end_def kernel0_def)
  ultimately obtain W where W: "run (CreateAndroidSharedMemory kernel_os ''shmring-smoketest'' 4096 []) kernel0 =
      (Done (Inr (W, 3)), ?k ?d 5 ?f ?m)"
    by (auto simp: CreateAndroidSharedMemory_def c i run_pbind android_Fd_def)
  let ?k2 = "?k ?d 7 (?f(5 \<mapsto> 3)) (?m(6 \<mapsto> (3, 4160)))"
  have o: "run (backend_OpenAndroid kernel_os 3 4160) (?k ?d 5 ?f ?m) = (Done (Inr (?h 5 6)), ?k2)"
    by (simp add: backend_OpenAndroid_def newAndroidSharedMemoryStorage_def run_pbind run_sys k_Dup_def k_Mmap_def)
  have "ring_storage (android_storage kernel_os (?h 5 6)) (\<lambda>k. k_file k 3) (backed k_dir k_file k_fd k_map {6} 3 4160 ?k2)"
    using kernel.android_live [of 6 "{6}" 4160 4160 5 3 ?k2] by simp
  moreover have "backed k_dir k_file k_fd k_map {6} 3 4160 ?k2 ?k2" using i(3) by (simp add: backed_def)
  moreover have "header_ok 4096 ?d" 
  proof -
    have "cap_ok 4096" unfolding cap_ok_def by (rule exI [of _ 12]) simp
    from fresh_ring(7) [OF this, of ?z] show ?thesis by (simp add: headerSize_def)
  qed
  ultimately obtain R where "run (NewReader (android_storage kernel_os (?h 5 6)) 4096 []) ?k2 = (Done (Inr R), ?k2)"
    using i(3) by (simp add: run_NewReader c headerSize_def)
  then have "run (OpenAndroidSharedMemory kernel_os 3 4096 []) (?k ?d 5 ?f ?m) = (Done (Inr R), ?k2)"
    by (simp add: OpenAndroidSharedMemory_def c i run_pbind o)
  with W show ?thesis by (rule that)
qed

text \<open>
  C36: on every operating system that keeps the laws, whatever read sizes \<^verbatim>\<open>io.ReadAll\<close>
  chooses: if creating the ring and opening its descriptor succeed, the smoke test passes,
  with the message read back, and its fuel is the message's length and one more.
\<close>

theorem smoketest_passes:
  assumes "posix OS dir bytes fds maps page"
    and "run (CreateAndroidSharedMemory OS ''shmring-smoketest'' 4096 []) w0 = (Done (Inr (w, fd)), w1)"
    and "run (OpenAndroidSharedMemory OS fd 4096 []) w1 = (Done (Inr r), w2)"
    and "length message < fuel" "\<And>k. 0 < room k"
  shows "\<exists>w3. run (smoketest OS fuel room) w0 = (Done (Some (Pass message)), w3)"
proof -
  obtain j m1 m2 fd2 ino where j: "4096 = (2 ^ j :: int)" "j \<le> 31"
    and st: "w_st w = android_storage OS (android_of fd m1 (64 + 2 ^ j))"
      "r_st r = android_storage OS (android_of fd2 m2 (64 + 2 ^ j))"
    and live: "backed dir bytes fds maps {m1, m2} ino (64 + 2 ^ j) w2 w2" and inv: "pair_inv (2 ^ j) (bytes w2 ino) w r"
    and empty: "fifo_of (2 ^ j) (bytes w2 ino) = \<lparr>queue = [], finished = False\<rparr>"
    using posix.android_setup [OF assms(1-3)] by metis
  let ?data = "\<lambda>w. bytes w ino" and ?live = "backed dir bytes fds maps {m1, m2} ino (64 + 2 ^ j) w2"
  have SW: "ring_storage (w_st w) ?data ?live" and SR: "ring_storage (r_st r) ?data ?live"
    unfolding st by (rule posix.android_live [OF assms(1)]; use android_size(3) [OF j(2)] in simp)+
  have j12: "j = 12" using j(1) power_inject_exp [of "2::int" 12 j] by simp
  have len: "length message = 25" by (simp add: message_def)
  have fresh: "\<not> w_closed w" "used (bytes w2 ino) = 0"
    using inv empty contents_empty_iff [of "2 ^ j" "bytes w2 ino"] by (auto simp: pair_inv_def writer_inv_def fifo_of_def)
  obtain wa sa where a: "run (WriteContext fuel Background w message) w2 = (Done (Some (25, None), wa), sa)"
      "fifo_of (2 ^ j) (bytes sa ino) = \<lparr>queue = message, finished = False\<rparr>"
      "?live sa" "w_st wa = w_st w" "pair_inv (2 ^ j) (bytes sa ino) wa r"
    using ring_storage.session_write_all [OF SW live refl inv fresh(1), of message fuel Background] fresh(2) assms(4) empty
    by (auto simp: len j12 fifo_of_def)
  obtain wb sb where b: "run (CloseWriter wa) sa = (Done (None, wb), sb)"
      "fifo_of (2 ^ j) (bytes sb ino) = \<lparr>queue = message, finished = True\<rparr>"
      "?live sb" "w_st wb = w_st w" "pair_inv (2 ^ j) (bytes sb ino) wb r"
    using ring_storage.session_close [OF SW a(3,4,5)] a(2) by (auto simp: fifo_close_def)
  have q: "contents (2 ^ j) (bytes sb ino) = message" "ring_closed (bytes sb ino)" using b(2) by (simp_all add: fifo_of_def)
  obtain rc sc where c: "run (readAll fuel fuel room r []) sb = (Done (Some (message, None), rc), sc)"
      "?live sc" "r_st rc = r_st r" "pair_inv (2 ^ j) (bytes sc ino) wb rc"
    using ring_storage.run_readAll [OF SR b(3) refl b(5) q(2), of fuel fuel room "[]"] assms(4,5) unfolding q by auto
  obtain e1 sd where d: "android_Close OS (android_of fd2 m2 (64 + 2 ^ j)) sc = (Ok e1, sd)" using android_Close_ends [of OS _ sc] by metis
  obtain e2 se where e: "android_Close OS (android_of fd m1 (64 + 2 ^ j)) sd = (Ok e2, se)" using android_Close_ends [of OS _ sd] by metis
  have "w_closed wb" using b(5) q(2) by (simp add: pair_inv_def writer_inv_def)
  then have "run (CloseStorage wb) sd = (Done (e2, wb), se)"
    using e by (simp add: CloseStorage_def CloseWriter_def run_basic b(4) st)
  moreover have "run (CloseReader rc) sc = (Done e1, sd)" using d by (simp add: CloseReader_def run_basic c(3) st)
  ultimately have "run (smoketest OS fuel room) w0 = (Done (Some (Pass message)), se)"
    using assms(2,3) a(1) b(1) c(1) by (simp add: smoketest_def Write_def run_basic)
  then show ?thesis ..
qed

theorem smoketest_passes_witness:
  "\<exists>k. run (smoketest kernel_os 26 (\<lambda>n. 512)) kernel0 = (Done (Some (Pass message)), k)"
proof -
  obtain W k1 R k2 where run: "run (CreateAndroidSharedMemory kernel_os ''shmring-smoketest'' 4096 []) kernel0 = (Done (Inr (W, 3)), k1)"
    "run (OpenAndroidSharedMemory kernel_os 3 4096 []) k1 = (Done (Inr R), k2)"
    by (rule kernel_smoketest)
  show ?thesis
    by (rule smoketest_passes [OF kernel.posix_axioms run]) (simp_all add: message_def)
qed

end
