(* ===== verification/Regexp.thy ===== *)
theory Regexp
  imports Prelude
begin

text \<open>
  The part of Go's package \<^verbatim>\<open>regexp\<close> that the release target needs: patterns that are sequences
  of characters, greedy repetitions of a character class and anchors, matched by backtracking
  (leftmost match, as many repetitions as possible), and lemmas that turn a match into an
  equation on the text.
\<close>

section \<open>Patterns\<close>

text \<open>
  \<open>Chr c\<close> is one character of a class, \<open>Many c\<close> is \<^verbatim>\<open>c*\<close>, \<open>Opt c\<close> is \<^verbatim>\<open>c?\<close>; \<open>Mark\<close> is a
  parenthesis of a group. The matcher is given the character before the text, if any, for the
  anchors; it returns how many characters are left at each mark and at the end of the match.
\<close>

datatype atom = Chr "char \<Rightarrow> bool" | Many "char \<Rightarrow> bool" | Opt "char \<Rightarrow> bool" | TextStart | LineStart | TextEnd | Mark

type_synonym regexp = "atom list"

fun re_match :: "regexp \<Rightarrow> char option \<Rightarrow> string \<Rightarrow> nat list option" where
  "re_match [] prev s = Some [length s]"
| "re_match (Chr c # re) prev s = (case s of x # xs \<Rightarrow> if c x then re_match re (Some x) xs else None | [] \<Rightarrow> None)"
| "re_match (Many c # re) prev [] = re_match re prev []"
| "re_match (Many c # re) prev (x # xs) =
     (if c x then (case re_match (Many c # re) (Some x) xs of Some m \<Rightarrow> Some m | None \<Rightarrow> re_match re prev (x # xs))
      else re_match re prev (x # xs))"
| "re_match (Opt c # re) prev s =
     (case s of x # xs \<Rightarrow> if c x then (case re_match re (Some x) xs of Some m \<Rightarrow> Some m | None \<Rightarrow> re_match re prev s)
        else re_match re prev s
      | [] \<Rightarrow> re_match re prev s)"
| "re_match (TextStart # re) prev s = (if prev = None then re_match re prev s else None)"
| "re_match (LineStart # re) prev s = (if prev = None \<or> prev = Some (CHR 0x0A) then re_match re prev s else None)"
| "re_match (TextEnd # re) prev s = (if s = [] then re_match re prev s else None)"
| "re_match (Mark # re) prev s = map_option ((#) (length s)) (re_match re prev s)"

fun re_find :: "regexp \<Rightarrow> char option \<Rightarrow> string \<Rightarrow> (nat \<times> nat list) option" where
  "re_find re prev s = (case re_match re prev s of
     Some m \<Rightarrow> Some (0, m)
   | None \<Rightarrow> (case s of [] \<Rightarrow> None | x # xs \<Rightarrow> map_option (map_prod Suc id) (re_find re (Some x) xs)))"

declare re_find.simps [simp del]

definition FindIndex :: "regexp \<Rightarrow> string \<Rightarrow> (nat \<times> nat) option" where
  "FindIndex re s = map_option (\<lambda>(i, m). (i, length s - last m)) (re_find re None s)"

definition literal :: "string \<Rightarrow> regexp" where
  "literal s = map (\<lambda>x. Chr (\<lambda>c. c = x)) s"

text \<open>For a pattern with one group: the match and the group.\<close>

definition FindStringSubmatch :: "regexp \<Rightarrow> string \<Rightarrow> string list option" where
  "FindStringSubmatch re s = (case re_find re None s of
     Some (i, [a, b, e]) \<Rightarrow> Some [drop i (take (length s - e) s), drop (length s - a) (take (length s - b) s)]
   | _ \<Rightarrow> None)"


section \<open>Matches as equations on the text\<close>

text \<open>The character before a suffix, and patterns that do not look at it.\<close>

definition before :: "char option \<Rightarrow> string \<Rightarrow> char option" where
  "before prev a = (if a = [] then prev else Some (last a))"

lemma before_simps [simp]: "before prev [] = prev" "before prev (x # xs) = before (Some x) xs"
  by (simp_all add: before_def)

definition unanchored :: "regexp \<Rightarrow> bool" where
  "unanchored re \<longleftrightarrow> (\<forall>prev s. re_match re prev s = re_match re None s)"

lemma unanchoredD: "unanchored re \<Longrightarrow> re_match re (Some x) s = re_match re None s"
  by (simp add: unanchored_def)

lemma re_match_Many:
  assumes "\<And>x xs prev. c x \<Longrightarrow> re_match re prev (x # xs) = None" "unanchored re"
  shows "re_match (Many c # re) prev s = re_match re None (dropWhile c s)"
proof (induction s arbitrary: prev)
  case Nil
  show ?case using assms(2) by (cases prev) (simp_all add: unanchoredD)
next
  case (Cons x xs)
  show ?case
  proof (cases "c x")
    case True
    then show ?thesis using Cons [of "Some x"] assms(1) by (simp split: option.split)
  next
    case False
    then show ?thesis using assms(2) by (cases prev) (simp_all add: unanchoredD)
  qed
qed

lemma unanchored_simps [simp]:
  "unanchored []" "unanchored (Chr c # re)" "unanchored re \<Longrightarrow> unanchored (Mark # re)"
  "unanchored re \<Longrightarrow> unanchored (TextEnd # re)"
  by (auto simp: unanchored_def split: list.split) metis

lemma re_match_Many_iff:
  assumes "\<And>x xs prev. c x \<Longrightarrow> re_match re prev (x # xs) = None" "unanchored re"
  shows "re_match (Many c # re) prev s = Some m \<longleftrightarrow>
    (\<exists>xs t. s = xs @ t \<and> (\<forall>x \<in> set xs. c x) \<and> re_match re None t = Some m)"
proof -
  have "re_match re None (dropWhile c s) = Some m"
    if "s = xs @ t" "\<forall>x \<in> set xs. c x" "re_match re None t = Some m" for xs t
  proof (cases t)
    case Nil
    with that have *: "dropWhile c s = []" by (simp add: dropWhile_eq_Nil_conv)
    from Nil that(3) show ?thesis unfolding * by simp
  next
    case (Cons x xs)
    with that assms(1) have "\<not> c x" by auto
    with that Cons show ?thesis by (simp add: dropWhile_append2)
  qed
  moreover have "s = takeWhile c s @ dropWhile c s" "\<forall>x \<in> set (takeWhile c s). c x" by (auto dest: set_takeWhileD)
  moreover have "re_match (Many c # re) prev s = re_match re None (dropWhile c s)"
    by (rule re_match_Many) (use assms in auto)
  ultimately show ?thesis by (metis (no_types))
qed

lemma re_match_Chr_iff:
  "re_match (Chr c # re) prev s = Some m \<longleftrightarrow> (\<exists>x xs. s = x # xs \<and> c x \<and> re_match re (Some x) xs = Some m)"
  by (cases s) auto

lemma re_match_literal:
  "re_match (literal (x # w) @ re) prev s = Some m \<longleftrightarrow>
     (\<exists>t. s = x # w @ t \<and> re_match re (before (Some x) w) t = Some m)"
proof (induction w arbitrary: x prev s)
  case Nil
  show ?case by (auto simp: literal_def re_match_Chr_iff simp del: re_match.simps)
next
  case (Cons y w)
  have "re_match (literal (x # y # w) @ re) prev s = Some m \<longleftrightarrow>
      (\<exists>xs. s = x # xs \<and> re_match (literal (y # w) @ re) (Some x) xs = Some m)"
    by (auto simp: literal_def re_match_Chr_iff simp del: re_match.simps)
  then show ?case by (auto simp: Cons.IH)
qed

lemma re_find_append:
  assumes "\<And>a' b'. a @ b = a' @ b' \<Longrightarrow> length a' < length a \<Longrightarrow> re_match re (before prev a') b' = None"
    and "re_match re (before prev a) b = Some m"
  shows "re_find re prev (a @ b) = Some (length a, m)"
  using assms
proof (induction a arbitrary: prev)
  case Nil
  then show ?case by (simp add: re_find.simps)
next
  case (Cons x xs)
  have "re_match re prev (x # xs @ b) = None" using Cons.prems(1) [of "[]"] by simp
  moreover have "re_find re (Some x) (xs @ b) = Some (length xs, m)"
  proof (rule Cons.IH)
    fix a' b' assume "xs @ b = a' @ b'" "length a' < length xs"
    then show "re_match re (before (Some x) a') b' = None" using Cons.prems(1) [of "x # a'" b'] by simp
  qed (use Cons.prems(2) in simp)
  ultimately show ?case by (simp add: re_find.simps [of _ prev])
qed

lemma re_find_SomeD:
  assumes "re_find re prev s = Some (n, m)"
  obtains a b where "s = a @ b" "length a = n" "re_match re (before prev a) b = Some m"
  "\<And>a' b'. s = a' @ b' \<Longrightarrow> length a' < n \<Longrightarrow> re_match re (before prev a') b' = None"
  using assms
proof (induction s arbitrary: prev n thesis)
  case Nil
  then show ?case by (auto simp: re_find.simps split: option.splits)
next
  case (Cons x xs)
  show ?case
  proof (cases "re_match re prev (x # xs)")
    case (Some m')
    with Cons.prems(2) have "n = 0" "m' = m" by (auto simp: re_find.simps)
    with Some show ?thesis by (intro Cons.prems(1) [of "[]"]) auto
  next
    case None
    with Cons.prems(2) obtain n' where n': "re_find re (Some x) xs = Some (n', m)" "n = Suc n'"
      by (auto simp: re_find.simps [of _ prev])
    obtain a b where ab: "xs = a @ b" "length a = n'" "re_match re (before (Some x) a) b = Some m"
      "\<And>a' b'. xs = a' @ b' \<Longrightarrow> length a' < n' \<Longrightarrow> re_match re (before (Some x) a') b' = None"
      using Cons.IH [OF _ n'(1)] by blast
    show ?thesis
    proof (rule Cons.prems(1) [of "x # a" b])
      fix a' b' assume "x # xs = a' @ b'" "length a' < n"
      then show "re_match re (before prev a') b' = None"
        using None ab(4) n'(2) by (cases a') auto
    qed (use ab n'(2) in auto)
  qed
qed

end
