(* ===== verification/Release.thy ===== *)
theory Release
  imports Program Regexp
begin

text \<open>
  \<^verbatim>\<open>magefiles/release.go\<close>: \<^verbatim>\<open>Release.SetVersion\<close>, which writes a version into \<^verbatim>\<open>npm/package.json\<close>
  and \<^verbatim>\<open>rust/Cargo.toml\<close>. The patterns are those of the code, atom by atom. Files are strings of
  bytes and the file system is a parameter; what is printed is not modelled.
\<close>

section \<open>The patterns\<close>

abbreviation quote :: char where "quote \<equiv> CHR 0x22"

definition digit :: "char \<Rightarrow> bool" where
  "digit c \<longleftrightarrow> of_char c \<ge> (48::nat) \<and> of_char c \<le> (57::nat)"

definition space :: "char \<Rightarrow> bool" where
  "space c \<longleftrightarrow> c \<in> {CHR 0x09, CHR 0x0A, CHR 0x0C, CHR 0x0D, CHR 0x20}"

definition semverRe :: regexp where
  "semverRe = [TextStart, Opt (\<lambda>c. c = CHR ''v''), Mark, Chr digit, Many digit, Chr (\<lambda>c. c = CHR ''.''),
     Chr digit, Many digit, Chr (\<lambda>c. c = CHR ''.''), Chr digit, Many digit, Mark, TextEnd]"

definition quoted :: regexp where
  "quoted = [Chr (\<lambda>c. c = quote), Many (\<lambda>c. c \<noteq> quote), Chr (\<lambda>c. c = quote)]"

definition jsonVersionRe :: regexp where
  "jsonVersionRe = literal (quote # ''version'' @ [quote] @ '':'') @ Many space # quoted"

definition cargoVersionRe :: regexp where
  "cargoVersionRe = LineStart # literal ''version'' @ Many space # literal ''='' @ Many space # quoted"

definition quoteRe :: regexp where
  "quoteRe = quoted @ [TextEnd]"


section \<open>The target\<close>

text \<open>\<^verbatim>\<open>os.ReadFile\<close> and \<^verbatim>\<open>os.WriteFile\<close>.\<close>

record 'w files =
  ReadFile :: "string \<Rightarrow> 'w \<Rightarrow> gerror + string"
  WriteFile :: "string \<Rightarrow> string \<Rightarrow> 'w \<Rightarrow> gerror option \<times> 'w"

definition replaceVersion :: "'w files \<Rightarrow> string \<Rightarrow> regexp \<Rightarrow> string \<Rightarrow> ('w, gerror option) prog" where
  "replaceVersion F path fieldRe version =
     pbind (query (\<lambda>w. Ok (ReadFile F path w))) (\<lambda>r. case r of
         Inl err \<Rightarrow> Return (Some (ErrorfW ''release: '' err))
       | Inr data \<Rightarrow> (case FindIndex fieldRe data of
           None \<Rightarrow> Return (Some (Errorf ''release: no version field found in ''))
         | Some (loc0, loc1) \<Rightarrow> (case FindIndex quoteRe (drop loc0 (take loc1 data)) of
             None \<Rightarrow> Return (Some (Errorf ''release: version field in ''))
           | Some (qLoc0, qLoc1) \<Rightarrow>
               let valueStart = loc0 + qLoc0 + 1; valueEnd = loc0 + qLoc1 - 1;
                   out = take valueStart data @ version @ drop valueEnd data
               in call (\<lambda>w. map_prod Ok id (WriteFile F path out w)))))"

abbreviation packageJson :: string where "packageJson \<equiv> ''npm/package.json''"
abbreviation cargoToml :: string where "cargoToml \<equiv> ''rust/Cargo.toml''"

definition SetVersion :: "'w files \<Rightarrow> string \<Rightarrow> ('w, gerror option) prog" where
  "SetVersion F version =
     (case FindStringSubmatch semverRe version of
        None \<Rightarrow> Return (Some (Errorf ''release: ''))
      | Some m \<Rightarrow> let bare = m ! 1 in
          pbind (replaceVersion F packageJson jsonVersionRe bare) (\<lambda>err. case err of
              Some err \<Rightarrow> Return (Some err)
            | None \<Rightarrow> replaceVersion F cargoToml cargoVersionRe bare))"


section \<open>What the patterns match\<close>

lemma re_match_quoted:
  assumes "unanchored re"
  shows "re_match (quoted @ re) prev s = Some m \<longleftrightarrow>
    (\<exists>old rest. s = quote # old @ quote # rest \<and> quote \<notin> set old \<and> re_match re None rest = Some m)"
proof -
  have "(\<forall>x \<in> set old. x \<noteq> quote) \<longleftrightarrow> quote \<notin> set old" for old by blast
  moreover have "re_match (Many (\<lambda>c. c \<noteq> quote) # Chr (\<lambda>c. c = quote) # re) p xs = Some m \<longleftrightarrow>
      (\<exists>old t. xs = old @ t \<and> (\<forall>x \<in> set old. x \<noteq> quote) \<and> re_match (Chr (\<lambda>c. c = quote) # re) None t = Some m)" for p xs
    by (rule re_match_Many_iff) simp_all
  ultimately show ?thesis
    by (auto simp: quoted_def re_match_Chr_iff unanchoredD [OF assms] simp del: re_match.simps)
qed

lemma space_quote: "\<not> space quote" "\<not> space (CHR ''='')" "\<not> space (CHR ''v'')"
  by (simp_all add: space_def)

definition spaces :: "string \<Rightarrow> bool" where
  "spaces ws \<longleftrightarrow> (\<forall>c \<in> set ws. space c)"

text \<open>The keys: what may stand before the opening quote, given the character before it.\<close>

definition json_key :: "char option \<Rightarrow> string \<Rightarrow> bool" where
  "json_key prev k \<longleftrightarrow> (\<exists>ws. spaces ws \<and> k = quote # ''version'' @ quote # '':'' @ ws)"

definition cargo_key :: "char option \<Rightarrow> string \<Rightarrow> bool" where
  "cargo_key prev k \<longleftrightarrow> (prev = None \<or> prev = Some (CHR 0x0A)) \<and>
     (\<exists>ws ws'. spaces ws \<and> spaces ws' \<and> k = ''version'' @ ws @ CHR ''='' # ws')"

lemma re_match_spaces:
  assumes "\<And>x xs prev. space x \<Longrightarrow> re_match re prev (x # xs) = None" "unanchored re"
  shows "re_match (Many space # re) prev s = Some m \<longleftrightarrow> (\<exists>ws t. s = ws @ t \<and> spaces ws \<and> re_match re None t = Some m)"
  unfolding spaces_def by (rule re_match_Many_iff) (use assms in auto)

lemma quoted_iff:
  "re_match quoted prev s = Some m \<longleftrightarrow> (\<exists>old rest. s = quote # old @ quote # rest \<and> quote \<notin> set old \<and> m = [length rest])"
  using re_match_quoted [of "[]"] by auto

lemma spaces_quoted_iff:
  "re_match (Many space # quoted) prev s = Some m \<longleftrightarrow>
     (\<exists>ws old rest. s = ws @ quote # old @ quote # rest \<and> spaces ws \<and> quote \<notin> set old \<and> m = [length rest])"
proof -
  have "re_match (Many space # quoted) prev s = Some m \<longleftrightarrow> (\<exists>ws t. s = ws @ t \<and> spaces ws \<and> re_match quoted None t = Some m)"
    by (rule re_match_spaces) (auto simp: quoted_def space_quote)
  then show ?thesis unfolding quoted_iff by blast
qed

lemma json_iff:
  "re_match jsonVersionRe prev s = Some m \<longleftrightarrow>
     (\<exists>k old rest. json_key prev k \<and> s = k @ quote # old @ quote # rest \<and> quote \<notin> set old \<and> m = [length rest])"
    (is "_ \<longleftrightarrow> ?r")
proof -
  have "re_match jsonVersionRe prev s = Some m \<longleftrightarrow> (\<exists>ws old rest. s = (quote # ''version'' @ quote # '':'' @ ws) @
      quote # old @ quote # rest \<and> spaces ws \<and> quote \<notin> set old \<and> m = [length rest])"
    unfolding jsonVersionRe_def re_match_literal spaces_quoted_iff by auto
  also have "\<dots> \<longleftrightarrow> ?r" unfolding json_key_def by blast
  finally show ?thesis .
qed

lemma cargo_iff:
  "re_match cargoVersionRe prev s = Some m \<longleftrightarrow>
     (\<exists>k old rest. cargo_key prev k \<and> s = k @ quote # old @ quote # rest \<and> quote \<notin> set old \<and> m = [length rest])"
    (is "_ \<longleftrightarrow> ?r")
proof -
  have spaces_eq: "re_match (Many space # literal ''='' @ Many space # quoted) prev t = Some m \<longleftrightarrow>
     (\<exists>ws t'. t = ws @ t' \<and> spaces ws \<and> re_match (literal ''='' @ Many space # quoted) None t' = Some m)" for prev t m
    by (rule re_match_spaces) (auto simp: literal_def space_quote)
  have "re_match cargoVersionRe prev s = Some m \<longleftrightarrow> (prev = None \<or> prev = Some (CHR 0x0A)) \<and>
      re_match (literal ''version'' @ Many space # literal ''='' @ Many space # quoted) prev s = Some m"
    by (simp add: cargoVersionRe_def)
  also have "\<dots> \<longleftrightarrow> (prev = None \<or> prev = Some (CHR 0x0A)) \<and>
      (\<exists>ws ws' old rest. s = ''version'' @ ws @ CHR ''='' # ws' @ quote # old @ quote # rest \<and>
         spaces ws \<and> spaces ws' \<and> quote \<notin> set old \<and> m = [length rest])"
    unfolding re_match_literal spaces_eq spaces_quoted_iff append.simps by blast
  also have "\<dots> \<longleftrightarrow> ?r"
  proof (intro iffI; elim conjE exE)
    fix k old rest
    assume s: "cargo_key prev k" "s = k @ quote # old @ quote # rest" "quote \<notin> set old" "m = [length rest]"
    obtain ws ws' where k: "spaces ws" "spaces ws'" "k = ''version'' @ ws @ CHR ''='' # ws'"
      using s(1) unfolding cargo_key_def by blast
    have "s = ''version'' @ ws @ CHR ''='' # ws' @ quote # old @ quote # rest" using s(2) k(3) by simp
    with s(1,3,4) k(1,2) show "(prev = None \<or> prev = Some (CHR 0x0A)) \<and>
      (\<exists>ws ws' old rest. s = ''version'' @ ws @ CHR ''='' # ws' @ quote # old @ quote # rest \<and>
         spaces ws \<and> spaces ws' \<and> quote \<notin> set old \<and> m = [length rest])"
      unfolding cargo_key_def by blast
  next
    fix ws ws' old rest
    assume s: "prev = None \<or> prev = Some (CHR 0x0A)" "s = ''version'' @ ws @ CHR ''='' # ws' @ quote # old @ quote # rest"
      "spaces ws" "spaces ws'" "quote \<notin> set old" "m = [length rest]"
    have "s = (''version'' @ ws @ CHR ''='' # ws') @ quote # old @ quote # rest" using s(2) by simp
    with s show ?r unfolding cargo_key_def by blast
  qed
  finally show ?thesis .
qed

lemma quoteRe_iff:
  "re_match quoteRe prev s = Some m \<longleftrightarrow> (\<exists>old. s = quote # old @ [quote] \<and> quote \<notin> set old \<and> m = [0])"
  unfolding quoteRe_def by (subst re_match_quoted) auto

lemma append_longer: "a @ b = c @ d \<Longrightarrow> length c < length a \<Longrightarrow> \<exists>xs. a = c @ xs \<and> xs \<noteq> [] \<and> xs @ b = d"
  by (auto simp: append_eq_append_conv2)

lemma append_compare: "a @ b = c @ d \<Longrightarrow> (\<exists>us. a = c @ us) \<or> (\<exists>us. us \<noteq> [] \<and> a @ us = c)"
  by (fastforce simp: append_eq_append_conv2)

lemma FindIndex_quoteRe:
  assumes "quote \<notin> set old"
  shows "FindIndex quoteRe (k @ quote # old @ [quote]) = Some (length k, length k + length old + 2)"
proof -
  have "re_find quoteRe None (k @ quote # old @ [quote]) = Some (length k, [0])"
  proof (rule re_find_append)
    fix a' b' assume *: "k @ quote # old @ [quote] = a' @ b'" "length a' < length k"
    then obtain c where c: "k = a' @ c" "c \<noteq> []" "c @ quote # old @ [quote] = b'"
      using append_longer by blast
    show "re_match quoteRe (before None a') b' = None"
    proof (rule ccontr)
      assume "re_match quoteRe (before None a') b' \<noteq> None"
      then obtain u where u: "b' = quote # u @ [quote]" "quote \<notin> set u" by (auto simp: quoteRe_iff)
      with c obtain c' where "c' @ quote # old @ [quote] = u @ [quote]" by (cases c) auto
      then have "c' @ quote # old = u" by (metis append.assoc append_Cons butlast_snoc)
      with u(2) show False by auto
    qed
  qed (use assms in \<open>simp add: quoteRe_iff\<close>)
  then show ?thesis by (simp add: FindIndex_def)
qed

section \<open>Version fields\<close>

text \<open>
  What a field is, without patterns: a key, an opening quote, a value without quotes and a
  closing quote. \<open>first_field key d pre k old post\<close>: the first field of the text \<open>d\<close> is the
  key \<open>k\<close> after \<open>pre\<close>, with the value \<open>old\<close>. The locale says what makes a pattern a pattern for
  such fields: it matches exactly them, and two of them cannot overlap in a way that replacing
  the value of one could change.
\<close>

definition first_field :: "(char option \<Rightarrow> string \<Rightarrow> bool) \<Rightarrow> string \<Rightarrow> string \<Rightarrow> string \<Rightarrow> string \<Rightarrow> string \<Rightarrow> bool" where
  "first_field key d pre k old post \<longleftrightarrow>
     d = pre @ k @ quote # old @ quote # post \<and> key (before None pre) k \<and> quote \<notin> set old \<and>
     (\<forall>pre' k' old' post'. d = pre' @ k' @ quote # old' @ quote # post' \<longrightarrow> key (before None pre') k' \<longrightarrow>
        quote \<notin> set old' \<longrightarrow> length pre \<le> length pre')"

locale version_field =
  fixes re :: regexp and key :: "char option \<Rightarrow> string \<Rightarrow> bool"
  assumes match_iff: "re_match re prev s = Some m \<longleftrightarrow>
      (\<exists>k old rest. key prev k \<and> s = k @ quote # old @ quote # rest \<and> quote \<notin> set old \<and> m = [length rest])"
    and no_overlap: "key prev k \<Longrightarrow> key prev' k' \<Longrightarrow> quote \<notin> set old \<Longrightarrow> k' @ quote # old = xs @ k @ quote # ys \<Longrightarrow> xs = []"
begin

lemma find_field:
  assumes "first_field key d pre k old post"
  shows "FindIndex re d = Some (length pre, length pre + length k + length old + 2)"
proof -
  let ?b = "k @ quote # old @ quote # post"
  have d: "d = pre @ ?b" using assms by (simp add: first_field_def)
  have "re_find re None (pre @ ?b) = Some (length pre, [length post])"
  proof (rule re_find_append)
    fix a' b' assume *: "pre @ ?b = a' @ b'" "length a' < length pre"
    show "re_match re (before None a') b' = None"
    proof (rule ccontr)
      assume "re_match re (before None a') b' \<noteq> None"
      then obtain k' old' rest where "key (before None a') k'" "b' = k' @ quote # old' @ quote # rest" "quote \<notin> set old'"
        by (auto simp: match_iff)
      with assms * d show False unfolding first_field_def by (metis not_le)
    qed
  next
    show "re_match re (before None pre) ?b = Some [length post]"
      using assms unfolding match_iff first_field_def by blast
  qed
  then show ?thesis by (simp add: FindIndex_def d)
qed

lemma find_none:
  assumes "FindIndex re d = None"
  shows "\<not> first_field key d pre k old post"
  using find_field [of d pre k old post] assms by auto

lemma find_some:
  assumes "FindIndex re d = Some loc"
  obtains pre k old post where "first_field key d pre k old post"
proof -
  obtain i m where "re_find re None d = Some (i, m)" using assms by (auto simp: FindIndex_def)
  then obtain a b where ab: "d = a @ b" "length a = i" "re_match re (before None a) b = Some m"
    and least: "\<And>a' b'. d = a' @ b' \<Longrightarrow> length a' < i \<Longrightarrow> re_match re (before None a') b' = None"
    by (rule re_find_SomeD) blast
  from ab(3) obtain k old rest where k: "key (before None a) k" "b = k @ quote # old @ quote # rest" "quote \<notin> set old"
    by (auto simp: match_iff)
  have "first_field key d a k old rest"
    unfolding first_field_def
  proof (intro conjI allI impI)
    fix pre' k' old' post'
    assume "d = pre' @ k' @ quote # old' @ quote # post'" "key (before None pre') k'" "quote \<notin> set old'"
    then show "length a \<le> length pre'" using least [of pre'] ab(2) match_iff by (metis not_le option.distinct(1))
  qed (use ab(1) k in auto)
  then show ?thesis by (rule that)
qed

lemma first_field_update:
  assumes "first_field key d pre k old post" "quote \<notin> set v"
  shows "first_field key (pre @ k @ quote # v @ quote # post) pre k v post"
  unfolding first_field_def
proof (intro conjI allI impI)
  fix pre' k' old' post'
  assume new: "pre @ k @ quote # v @ quote # post = pre' @ k' @ quote # old' @ quote # post'"
    and k': "key (before None pre') k'" "quote \<notin> set old'"
  have d: "d = pre @ k @ quote # old @ quote # post" and k: "key (before None pre) k"
    and least: "\<And>post'. d = pre' @ k' @ quote # old' @ quote # post' \<Longrightarrow> length pre \<le> length pre'"
    using assms(1) k' unfolding first_field_def by blast+
  show "length pre \<le> length pre'"
  proof (rule ccontr)
    assume "\<not> length pre \<le> length pre'"
    then obtain xs where xs: "pre = pre' @ xs" "xs \<noteq> []" "xs @ k @ quote # v @ quote # post = k' @ quote # old' @ quote # post'"
      using append_longer [OF new] by auto
    from xs(3) have "(xs @ k @ [quote]) @ (v @ quote # post) = (k' @ quote # old' @ [quote]) @ post'" by simp
    then consider us where "xs @ k @ [quote] = (k' @ quote # old' @ [quote]) @ us"
      | us where "us \<noteq> []" "(xs @ k @ [quote]) @ us = k' @ quote # old' @ [quote]"
      using append_compare by blast
    then show False
    proof cases
      case 1
      have "d = pre' @ (xs @ k @ [quote]) @ old @ quote # post" using d xs(1) by simp
      then have "d = pre' @ k' @ quote # old' @ quote # (us @ old @ quote # post)" unfolding 1 by simp
      from least [OF this] \<open>\<not> length pre \<le> length pre'\<close> show False by simp
    next
      case 2
      then have "butlast ((xs @ k @ [quote]) @ us) = butlast (k' @ quote # old' @ [quote])" by simp
      then have "k' @ quote # old' = xs @ k @ quote # butlast us" using 2(1) by (simp add: butlast_append)
      from no_overlap [OF k k' this] xs(2) show False by simp
    qed
  qed
qed (use assms in \<open>auto simp: first_field_def\<close>)

end

lemma spaces_count: "spaces ws \<Longrightarrow> \<not> space c \<Longrightarrow> count_list ws c = 0"
  by (auto simp: spaces_def count_list_0_iff)

interpretation json: version_field jsonVersionRe json_key
proof
  fix prev prev' k k' old xs ys
  assume "json_key prev k" "json_key prev' k'" "quote \<notin> set old" and eq: "k' @ quote # old = xs @ k @ quote # ys"
  then have "count_list k quote = 2" "count_list k' quote = 2" "count_list old quote = 0" "hd k' = quote" "k' \<noteq> []"
    by (auto simp: json_key_def spaces_count space_quote count_list_0_iff)
  with arg_cong [OF eq, of "\<lambda>s. count_list s quote"] arg_cong [OF eq, of hd]
  show "xs = []" by (cases xs) auto
qed (rule json_iff)

interpretation cargo: version_field cargoVersionRe cargo_key
proof
  fix prev prev' k k' old xs ys
  assume key: "cargo_key prev k" "cargo_key prev' k'" "quote \<notin> set old" and eq: "k' @ quote # old = xs @ k @ quote # ys"
  have *: "count_list l quote = 0 \<and> count_list l (CHR ''v'') = 1 \<and> hd l = CHR ''v'' \<and> l \<noteq> []" if "cargo_key p l" for p l
    using that by (auto simp: cargo_key_def spaces_count space_quote)
  note k = * [OF key(1)] and k' = * [OF key(2)]
  have "count_list xs quote + count_list ys quote = 0"
    using arg_cong [OF eq, of "\<lambda>s. count_list s quote"] k k' key(3) by (simp add: count_list_0_iff)
  then have "quote \<notin> set k'" "quote \<notin> set (xs @ k)" using k k' by (simp_all flip: count_list_0_iff)
  then have "k' = xs @ k" using eq split_first [of k' quote old "xs @ k" ys] by simp
  with k k' show "xs = []" by (cases xs) auto
qed (rule cargo_iff)


section \<open>Versions\<close>

definition number :: "string \<Rightarrow> bool" where
  "number a \<longleftrightarrow> a \<noteq> [] \<and> (\<forall>c \<in> set a. digit c)"

definition is_version :: "string \<Rightarrow> bool" where
  "is_version s \<longleftrightarrow> (\<exists>a b c. s = a @ CHR ''.'' # b @ CHR ''.'' # c \<and> number a \<and> number b \<and> number c)"

definition semver :: "string \<Rightarrow> string \<Rightarrow> bool" where
  "semver version bare \<longleftrightarrow> is_version bare \<and> (version = bare \<or> version = CHR ''v'' # bare)"

lemma not_digit: "\<not> digit (CHR ''.'')" "\<not> digit (CHR ''v'')" "\<not> digit quote"
  by (simp_all add: digit_def)

lemma number_iff: "number a \<longleftrightarrow> (\<exists>x xs. a = x # xs \<and> digit x \<and> (\<forall>c \<in> set xs. digit c))"
  by (cases a) (auto simp: number_def)

lemma re_match_number:
  assumes "\<And>x xs prev. digit x \<Longrightarrow> re_match re prev (x # xs) = None" "unanchored re"
  shows "re_match (Chr digit # Many digit # re) prev s = Some m \<longleftrightarrow>
    (\<exists>a t. s = a @ t \<and> number a \<and> re_match re None t = Some m)"
proof -
  have many: "re_match (Many digit # re) p xs = Some m \<longleftrightarrow>
      (\<exists>a t. xs = a @ t \<and> (\<forall>c \<in> set a. digit c) \<and> re_match re None t = Some m)" for p xs
    by (rule re_match_Many_iff) (use assms in auto)
  show ?thesis unfolding re_match_Chr_iff many number_iff by (metis append_Cons)
qed

lemma re_match_number_dot:
  assumes "unanchored re"
  shows "re_match (Chr digit # Many digit # Chr (\<lambda>c. c = CHR ''.'') # re) prev s = Some m \<longleftrightarrow>
    (\<exists>a t. s = a @ CHR ''.'' # t \<and> number a \<and> re_match re None t = Some m)"
proof -
  have "re_match (Chr digit # Many digit # Chr (\<lambda>c. c = CHR ''.'') # re) prev s = Some m \<longleftrightarrow>
      (\<exists>a t. s = a @ t \<and> number a \<and> re_match (Chr (\<lambda>c. c = CHR ''.'') # re) None t = Some m)"
    by (rule re_match_number) (use not_digit in auto)
  then show ?thesis unfolding re_match_Chr_iff using unanchoredD [OF assms] by (metis (full_types))
qed

lemma re_match_version:
  "re_match (drop 2 semverRe) prev s = Some m \<longleftrightarrow> is_version s \<and> m = [length s, 0, 0]"
proof -
  have last: "re_match [Chr digit, Many digit, Mark, TextEnd] p t = Some n \<longleftrightarrow> number t \<and> n = [0, 0]" for p t n
    using re_match_number [of "[Mark, TextEnd]" p t n] by auto
  have "re_match (tl (drop 2 semverRe)) p s = Some n \<longleftrightarrow> is_version s \<and> n = [0, 0]" for p n
    unfolding is_version_def
    by (simp add: semverRe_def re_match_number_dot last del: re_match.simps(2-5)) blast
  then show ?thesis by (auto simp: semverRe_def)
qed

lemma semver_iff: "FindStringSubmatch semverRe version = Some m \<longleftrightarrow> (\<exists>bare. semver version bare \<and> m = [version, bare])"
proof -
  have at_start: "re_match semverRe prev s = Some n \<longleftrightarrow> prev = None \<and> (\<exists>bare. semver s bare \<and> n = [length bare, 0, 0])" for prev s n
  proof -
    have eq: "semverRe = TextStart # Opt (\<lambda>c. c = CHR ''v'') # drop 2 semverRe" by (simp add: semverRe_def)
    have v: "re_match (drop 2 semverRe) p (CHR ''v'' # xs) = None" for p xs
    proof (rule ccontr)
      assume "re_match (drop 2 semverRe) p (CHR ''v'' # xs) \<noteq> None"
      then have "is_version (CHR ''v'' # xs)" using re_match_version by blast
      then show False by (auto simp: is_version_def number_iff not_digit)
    qed
    then have "\<not> is_version (CHR ''v'' # xs)" for xs using re_match_version [of None "CHR ''v'' # xs"] by auto
    moreover have "re_match (drop 2 semverRe) p t = None \<longleftrightarrow> \<not> is_version t" for p t
      using re_match_version [of p t] by (metis not_None_eq)
    ultimately show ?thesis
      by (subst eq) (cases s; auto simp: semver_def re_match_version simp del: drop_Suc_Cons split: option.split)
  qed
  show ?thesis
  proof
    assume "FindStringSubmatch semverRe version = Some m"
    then obtain i n where n: "re_find semverRe None version = Some (i, n)" "n = [a, b, e] \<Longrightarrow>
        m = [drop i (take (length version - e) version), drop (length version - a) (take (length version - b) version)]" for a b e
      by (auto simp: FindStringSubmatch_def split: option.splits prod.splits list.splits)
    obtain a b where "version = a @ b" "length a = i" "re_match semverRe (before None a) b = Some n"
      using re_find_SomeD [OF n(1)] by metis
    moreover from this have "a = []" by (auto simp: at_start before_def split: if_splits)
    ultimately obtain bare where "semver version bare" "n = [length bare, 0, 0]" "i = 0" by (auto simp: at_start)
    with n(2) show "\<exists>bare. semver version bare \<and> m = [version, bare]" by (auto simp: semver_def)
  next
    assume "\<exists>bare. semver version bare \<and> m = [version, bare]"
    then obtain bare where bare: "semver version bare" "m = [version, bare]" by blast
    then have "re_match semverRe None version = Some [length bare, 0, 0]" using at_start by blast
    then have "re_find semverRe None version = Some (0, [length bare, 0, 0])" by (simp add: re_find.simps)
    with bare show "FindStringSubmatch semverRe version = Some m" by (auto simp: FindStringSubmatch_def semver_def)
  qed
qed

lemma semver_quote: "semver version bare \<Longrightarrow> quote \<notin> set bare"
  using not_digit(3) by (auto simp: semver_def is_version_def number_def)

lemma semver_unique: "semver version b1 \<Longrightarrow> semver version b2 \<Longrightarrow> b1 = b2"
  using semver_iff [of version "[version, b1]"] semver_iff [of version "[version, b2]"] by auto


section \<open>Files\<close>

text \<open>
  What is assumed of the file system: a file is read as it is, a successful write of a file
  that exists replaces its content, and a write that fails has changed no other file.
\<close>

locale text_files =
  fixes F :: "'w files" and content :: "'w \<Rightarrow> string \<Rightarrow> string option"
  assumes read_file: "ReadFile F p w = Inr d \<longleftrightarrow> content w p = Some d"
    and write_file: "WriteFile F p d w = (None, w') \<Longrightarrow> content w p \<noteq> None \<Longrightarrow> content w' = (content w)(p \<mapsto> d)"
    and write_file_failed: "WriteFile F p d w = (Some e, w') \<Longrightarrow> \<exists>c. content w' = (content w)(p := c)"

text \<open>A small disk on which it holds, with read-only files.\<close>

record disk =
  d_file :: "string \<Rightarrow> string option"
  d_readonly :: "string list"

definition disk_files :: "disk files" where
  "disk_files =
     \<lparr>ReadFile = (\<lambda>p w. case d_file w p of None \<Rightarrow> Inl (Errno 2) | Some d \<Rightarrow> Inr d),
      WriteFile = (\<lambda>p d w. if p \<in> set (d_readonly w) then (Some (Errno 13), w) else (None, w\<lparr>d_file := (d_file w)(p \<mapsto> d)\<rparr>))\<rparr>"

interpretation disk: text_files disk_files d_file
  by unfold_locales (auto simp: disk_files_def split: option.splits if_splits intro: fun_upd_triv [symmetric])

context version_field
begin

lemma run_replaceVersion:
  assumes "text_files F content" "content w path = Some d" "first_field key d pre k old post"
  shows "run (replaceVersion F path re v) w = map_prod Done id (WriteFile F path (pre @ k @ quote # v @ quote # post) w)"
proof -
  have d: "d = pre @ k @ quote # old @ quote # post" "quote \<notin> set old" using assms(3) by (auto simp: first_field_def)
  have "drop (length pre) (take (length pre + length k + length old + 2) d) = k @ quote # old @ [quote]"
    by (simp add: d(1))
  with FindIndex_quoteRe [OF d(2), of k] find_field [OF assms(3)] text_files.read_file [OF assms(1), of path w d] assms(2)
  show ?thesis
    by (simp add: replaceVersion_def run_basic d(1) Let_def split_beta map_prod_def)
qed

lemma run_replaceVersion_none:
  assumes "text_files F content" "\<And>d pre k old post. content w path = Some d \<Longrightarrow> \<not> first_field key d pre k old post"
  shows "\<exists>e. run (replaceVersion F path re v) w = (Done (Some e), w)"
proof (cases "ReadFile F path w")
  case (Inl e)
  then show ?thesis by (simp add: replaceVersion_def run_basic)
next
  case (Inr d)
  then have "FindIndex re d = None"
    using assms text_files.read_file [OF assms(1), of path w d] by (cases "FindIndex re d") (auto elim: find_some)
  with Inr show ?thesis by (simp add: replaceVersion_def run_basic)
qed

lemma replaceVersion_cases:
  assumes "text_files F content"
  obtains d pre k old post where "content w path = Some d" "first_field key d pre k old post"
      "run (replaceVersion F path re v) w = map_prod Done id (WriteFile F path (pre @ k @ quote # v @ quote # post) w)"
  | e where "\<And>d pre k old post. content w path = Some d \<Longrightarrow> \<not> first_field key d pre k old post"
      "run (replaceVersion F path re v) w = (Done (Some e), w)"
  using run_replaceVersion [OF assms] run_replaceVersion_none [OF assms] by metis

lemma replaceVersion_ok:
  assumes "text_files F content" "run (replaceVersion F path re v) w = (Done None, w')"
  obtains d pre k old post where "content w path = Some d" "first_field key d pre k old post"
    "content w' = (content w)(path \<mapsto> pre @ k @ quote # v @ quote # post)"
  using assms(1)
proof (cases rule: replaceVersion_cases [of F content w path v])
  case (1 d pre k old post)
  then have "WriteFile F path (pre @ k @ quote # v @ quote # post) w = (None, w')"
    using assms(2) by (simp add: prod_eq_iff)
  from text_files.write_file [OF assms(1) this] 1 that show ?thesis by simp
qed (use assms(2) in simp)

end

lemma run_SetVersion:
  "run (SetVersion F version) w =
     (case FindStringSubmatch semverRe version of
        None \<Rightarrow> (Done (Some (Errorf ''release: '')), w)
      | Some m \<Rightarrow> (case run (replaceVersion F packageJson jsonVersionRe (m ! 1)) w of
          (Done None, w') \<Rightarrow> run (replaceVersion F cargoToml cargoVersionRe (m ! 1)) w'
        | (o', w') \<Rightarrow> (o', w')))"
  by (auto simp: SetVersion_def run_basic Let_def split: option.split prod.split outcome.split)

lemma SetVersion_ok:
  assumes "text_files F content" "run (SetVersion F version) w = (Done None, w')"
  obtains bare d1 pre1 k1 old1 post1 d2 pre2 k2 old2 post2 where "semver version bare"
    "content w packageJson = Some d1" "first_field json_key d1 pre1 k1 old1 post1"
    "content w cargoToml = Some d2" "first_field cargo_key d2 pre2 k2 old2 post2"
    "content w' = (content w)(packageJson \<mapsto> pre1 @ k1 @ quote # bare @ quote # post1,
        cargoToml \<mapsto> pre2 @ k2 @ quote # bare @ quote # post2)"
proof -
  obtain bare where bare: "semver version bare" "FindStringSubmatch semverRe version = Some [version, bare]"
    using assms(2) semver_iff [of version] by (cases "FindStringSubmatch semverRe version") (auto simp: run_SetVersion)
  obtain w1 where w1: "run (replaceVersion F packageJson jsonVersionRe bare) w = (Done None, w1)"
      "run (replaceVersion F cargoToml cargoVersionRe bare) w1 = (Done None, w')"
    using assms(2) bare(2) by (auto simp: run_SetVersion split: prod.splits outcome.splits option.splits)
  obtain d1 pre1 k1 old1 post1 where 1: "content w packageJson = Some d1" "first_field json_key d1 pre1 k1 old1 post1"
      "content w1 = (content w)(packageJson \<mapsto> pre1 @ k1 @ quote # bare @ quote # post1)"
    by (rule json.replaceVersion_ok [OF assms(1) w1(1)])
  obtain d2 pre2 k2 old2 post2 where 2: "content w1 cargoToml = Some d2" "first_field cargo_key d2 pre2 k2 old2 post2"
      "content w' = (content w1)(cargoToml \<mapsto> pre2 @ k2 @ quote # bare @ quote # post2)"
    by (rule cargo.replaceVersion_ok [OF assms(1) w1(2)])
  show ?thesis using that [OF bare(1) 1(1,2) _ 2(2)] 1(3) 2(1,3) by simp
qed


lemma split_last: "a @ x # b = c @ x # d \<Longrightarrow> x \<notin> set b \<Longrightarrow> x \<notin> set d \<Longrightarrow> a = c \<and> b = d"
proof (induction b arbitrary: d rule: rev_induct)
  case Nil
  then show ?case by (cases d rule: rev_cases) auto
next
  case (snoc y b)
  then show ?case by (cases d rule: rev_cases) (auto simp flip: append_assoc append_Cons)
qed

text \<open>What setting the version of a file does to it, and whether a file has a version.\<close>

definition version_set :: "(char option \<Rightarrow> string \<Rightarrow> bool) \<Rightarrow> string \<Rightarrow> string \<Rightarrow> string \<Rightarrow> bool" where
  "version_set key bare d d' \<longleftrightarrow> (\<exists>pre k old post. first_field key d pre k old post \<and>
     d' = pre @ k @ quote # bare @ quote # post \<and> first_field key d' pre k bare post)"

definition has_version :: "(char option \<Rightarrow> string \<Rightarrow> bool) \<Rightarrow> string option \<Rightarrow> bool" where
  "has_version key c \<longleftrightarrow> (\<exists>d pre k old post. c = Some d \<and> first_field key d pre k old post)"

context version_field
begin

lemma first_field_unique:
  assumes "first_field key d pre k old post" "first_field key d pre' k' old' post'"
  shows "pre' = pre" "k' = k" "old' = old" "post' = post"
proof -
  have d: "d = pre @ k @ quote # old @ quote # post" "d = pre' @ k' @ quote # old' @ quote # post'"
    and q: "quote \<notin> set old" "quote \<notin> set old'"
    using assms by (auto simp: first_field_def)
  have len: "length pre' = length pre" "length k' + length old' = length k + length old"
    using find_field [OF assms(1)] find_field [OF assms(2)] by simp_all
  show "pre' = pre" using d len(1) by simp
  have "(k @ quote # old @ [quote]) @ post = (k' @ quote # old' @ [quote]) @ post'"
    using d len(1) by simp
  with len(2) have "k @ quote # old @ [quote] = k' @ quote # old' @ [quote]" and post: "post' = post"
    by (subst (asm) append_eq_append_conv; simp)+
  then have "(k @ quote # old) @ [quote] = (k' @ quote # old') @ [quote]" by simp
  then have "k @ quote # old = k' @ quote # old'" by (simp del: append_assoc)
  with split_last [OF this q] show "k' = k" "old' = old" by simp_all
  show "post' = post" by (rule post)
qed

lemma replaceVersion_effect:
  assumes "text_files F content" "quote \<notin> set v"
  obtains r w' where "run (replaceVersion F path re v) w = (Done r, w')"
    "\<And>p. p \<noteq> path \<Longrightarrow> content w' p = content w p"
    "\<not> has_version key (content w path) \<Longrightarrow> r \<noteq> None \<and> w' = w"
    "has_version key (content w path) \<Longrightarrow> (\<forall>d. fst (WriteFile F path d w) = None) \<Longrightarrow>
       r = None \<and> (\<exists>d d'. content w path = Some d \<and> version_set key v d d' \<and> content w' = (content w)(path \<mapsto> d'))"
  using assms(1)
proof (cases rule: replaceVersion_cases [of F content w path v])
  case (1 d pre k old post)
  let ?d = "pre @ k @ quote # v @ quote # post"
  obtain r w' where w': "WriteFile F path ?d w = (r, w')" by fastforce
  have "\<exists>c. content w' = (content w)(path := c)"
    using text_files.write_file [OF assms(1)] text_files.write_file_failed [OF assms(1)] w' 1(1) by (cases r) auto
  moreover have "version_set key v d ?d"
    using 1(2) first_field_update [OF 1(2) assms(2)] unfolding version_set_def by blast
  moreover have "r = None" if "\<forall>d. fst (WriteFile F path d w) = None" using that w' by (metis fst_conv)
  moreover have "content w' = (content w)(path \<mapsto> ?d)" if "r = None"
    using text_files.write_file [OF assms(1), of path ?d w w'] w' 1(1) that by simp
  moreover have "has_version key (content w path)" using 1 unfolding has_version_def by blast
  moreover have "run (replaceVersion F path re v) w = (Done r, w')" using 1(3) w' by simp
  ultimately show ?thesis using 1(1) by (intro that [of r w']) auto
next
  case (2 e)
  then have "\<not> has_version key (content w path)" unfolding has_version_def by blast
  with 2(2) show ?thesis by (intro that [of "Some e" w]) simp_all
qed

end

section \<open>Properties\<close>

text \<open>A disk with both files, and one whose \<^verbatim>\<open>Cargo.toml\<close> has no version.\<close>

definition release_disk :: "string \<Rightarrow> disk" where
  "release_disk cargo = \<lparr>d_file = [packageJson \<mapsto> ''{'' @ quote # ''version'' @ quote # '': '' @ quote # ''0.1.0'' @ quote # ''}'',
     cargoToml \<mapsto> cargo], d_readonly = []\<rparr>"

definition cargo_text :: string where
  "cargo_text = CHR 0x0A # ''version = '' @ quote # ''0.1.0'' @ [quote]"

lemma release_run:
  obtains w where "run (SetVersion disk_files ''v0.2.0'') (release_disk cargo_text) = (Done None, w)"
    "d_file w packageJson = Some (''{'' @ quote # ''version'' @ quote # '': '' @ quote # ''0.2.0'' @ quote # ''}'')"
proof -
  have "case run (SetVersion disk_files ''v0.2.0'') (release_disk cargo_text) of
      (Done None, w) \<Rightarrow> d_file w packageJson = Some (''{'' @ quote # ''version'' @ quote # '': '' @ quote # ''0.2.0'' @ quote # ''}'')
    | _ \<Rightarrow> False"
    by code_simp
  then show ?thesis by (auto split: prod.split_asm outcome.split_asm option.split_asm intro: that)
qed


text \<open>
  C37: a \<^verbatim>\<open>SetVersion\<close> that reports no error was given a version \<^verbatim>\<open>X.Y.Z\<close> or \<^verbatim>\<open>vX.Y.Z\<close>. Of all
  files it has changed only \<^verbatim>\<open>npm/package.json\<close> and \<^verbatim>\<open>rust/Cargo.toml\<close>; in both, the value of
  the first version field is now \<^verbatim>\<open>X.Y.Z\<close>, that field is still the first one, and every other
  byte is as it was.
\<close>

theorem SetVersion_sets:
  assumes "text_files F content" "run (SetVersion F version) w = (Done None, w')"
  shows "\<exists>bare d1 d2 d1' d2'. semver version bare \<and> content w packageJson = Some d1 \<and> content w cargoToml = Some d2 \<and>
    content w' = (content w)(packageJson \<mapsto> d1', cargoToml \<mapsto> d2') \<and>
    version_set json_key bare d1 d1' \<and> version_set cargo_key bare d2 d2'"
proof -
  obtain bare d1 pre1 k1 old1 post1 d2 pre2 k2 old2 post2 where *: "semver version bare"
    "content w packageJson = Some d1" "first_field json_key d1 pre1 k1 old1 post1"
    "content w cargoToml = Some d2" "first_field cargo_key d2 pre2 k2 old2 post2"
    "content w' = (content w)(packageJson \<mapsto> pre1 @ k1 @ quote # bare @ quote # post1,
        cargoToml \<mapsto> pre2 @ k2 @ quote # bare @ quote # post2)"
    by (rule SetVersion_ok [OF assms])
  note q = semver_quote [OF *(1)]
  have "version_set json_key bare d1 (pre1 @ k1 @ quote # bare @ quote # post1)"
    "version_set cargo_key bare d2 (pre2 @ k2 @ quote # bare @ quote # post2)"
    using json.first_field_update [OF *(3) q] cargo.first_field_update [OF *(5) q] *(3,5)
    unfolding version_set_def by blast+
  with *(1,2,4,6) show ?thesis by blast
qed

theorem SetVersion_sets_witness:
  "\<exists>w bare d d'. run (SetVersion disk_files ''v0.2.0'') (release_disk cargo_text) = (Done None, w) \<and> semver ''v0.2.0'' bare \<and>
    d_file w cargoToml = Some d' \<and> version_set cargo_key bare cargo_text d'"
proof -
  obtain w where "run (SetVersion disk_files ''v0.2.0'') (release_disk cargo_text) = (Done None, w)"
    by (rule release_run)
  with SetVersion_sets [OF disk.text_files_axioms this] show ?thesis by (auto simp: release_disk_def)
qed

text \<open>Setting the same version a second time changes nothing.\<close>

theorem SetVersion_twice:
  assumes "text_files F content" "run (SetVersion F version) w = (Done None, w')"
    and "run (SetVersion F version) w' = (Done None, w'')"
  shows "content w'' = content w'"
proof -
  obtain bare d1 pre1 k1 old1 post1 d2 pre2 k2 old2 post2 where 1: "semver version bare"
    "content w packageJson = Some d1" "first_field json_key d1 pre1 k1 old1 post1"
    "content w cargoToml = Some d2" "first_field cargo_key d2 pre2 k2 old2 post2"
    "content w' = (content w)(packageJson \<mapsto> pre1 @ k1 @ quote # bare @ quote # post1,
        cargoToml \<mapsto> pre2 @ k2 @ quote # bare @ quote # post2)"
    by (rule SetVersion_ok [OF assms(1,2)])
  obtain bare' d1' pre1' k1' old1' post1' d2' pre2' k2' old2' post2' where 2: "semver version bare'"
    "content w' packageJson = Some d1'" "first_field json_key d1' pre1' k1' old1' post1'"
    "content w' cargoToml = Some d2'" "first_field cargo_key d2' pre2' k2' old2' post2'"
    "content w'' = (content w')(packageJson \<mapsto> pre1' @ k1' @ quote # bare' @ quote # post1',
        cargoToml \<mapsto> pre2' @ k2' @ quote # bare' @ quote # post2')"
    by (rule SetVersion_ok [OF assms(1,3)])
  have "bare' = bare" using 1(1) 2(1) by (rule semver_unique [rotated])
  note q = semver_quote [OF 1(1)]
  have d': "d1' = pre1 @ k1 @ quote # bare @ quote # post1" "d2' = pre2 @ k2 @ quote # bare @ quote # post2"
    using 1(6) 2(2,4) by auto
  note u1 = json.first_field_unique [OF 2(3) json.first_field_update [OF 1(3) q, folded d'(1)]]
    and u2 = cargo.first_field_unique [OF 2(5) cargo.first_field_update [OF 1(5) q, folded d'(2)]]
  have "content w'' = (content w')(packageJson \<mapsto> d1', cargoToml \<mapsto> d2')"
    using 2(6) u1 u2 d' \<open>bare' = bare\<close> by simp
  then show ?thesis using 2(2,4) by (auto simp: fun_eq_iff)
qed

theorem SetVersion_twice_witness:
  "\<exists>w w'. run (SetVersion disk_files ''v0.2.0'') (release_disk cargo_text) = (Done None, w) \<and>
    run (SetVersion disk_files ''v0.2.0'') w = (Done None, w') \<and> d_file w' = d_file w"
proof -
  have "case run (SetVersion disk_files ''v0.2.0'') (release_disk cargo_text) of
      (Done None, w) \<Rightarrow> (case run (SetVersion disk_files ''v0.2.0'') w of (Done None, w') \<Rightarrow> True | _ \<Rightarrow> False)
    | _ \<Rightarrow> False"
    by code_simp
  then obtain w w' where run: "run (SetVersion disk_files ''v0.2.0'') (release_disk cargo_text) = (Done None, w)"
      "run (SetVersion disk_files ''v0.2.0'') w = (Done None, w')"
    by (auto split: prod.split_asm outcome.split_asm option.split_asm)
  from run SetVersion_twice [OF disk.text_files_axioms run] show ?thesis by blast
qed

text \<open>
  C38: how \<^verbatim>\<open>SetVersion\<close> fails. It always returns and touches no other file. A version that is not
  \<^verbatim>\<open>X.Y.Z\<close>, or a \<^verbatim>\<open>package.json\<close> without a version field, is an error before anything is written.
  A \<^verbatim>\<open>Cargo.toml\<close> without one is an error too and stays as it is, but \<^verbatim>\<open>package.json\<close> has its new
  version by then: the two are at different versions.
\<close>

theorem SetVersion_errors:
  assumes "text_files F content"
  shows "\<exists>r w'. run (SetVersion F version) w = (Done r, w') \<and>
    (\<forall>p. p \<noteq> packageJson \<and> p \<noteq> cargoToml \<longrightarrow> content w' p = content w p) \<and>
    ((\<nexists>bare. semver version bare) \<or> \<not> has_version json_key (content w packageJson) \<longrightarrow> r \<noteq> None \<and> w' = w) \<and>
    (\<not> has_version cargo_key (content w cargoToml) \<longrightarrow> r \<noteq> None \<and> content w' cargoToml = content w cargoToml) \<and>
    (\<forall>bare. semver version bare \<and> has_version json_key (content w packageJson) \<and>
       \<not> has_version cargo_key (content w cargoToml) \<and> (\<forall>d. fst (WriteFile F packageJson d w) = None) \<longrightarrow>
       (\<exists>d d'. content w packageJson = Some d \<and> version_set json_key bare d d' \<and> content w' = (content w)(packageJson \<mapsto> d')))"
proof (cases "FindStringSubmatch semverRe version")
  case None
  then have "\<not> semver version bare" for bare using semver_iff [of version "[version, bare]"] by auto
  with None show ?thesis by (simp add: run_SetVersion)
next
  case (Some m)
  then obtain bare where bare: "semver version bare" "m ! 1 = bare" by (auto simp: semver_iff)
  note q = semver_quote [OF bare(1)]
  obtain r1 w1 where 1: "run (replaceVersion F packageJson jsonVersionRe bare) w = (Done r1, w1)"
      "\<And>p. p \<noteq> packageJson \<Longrightarrow> content w1 p = content w p"
      "\<not> has_version json_key (content w packageJson) \<Longrightarrow> r1 \<noteq> None \<and> w1 = w"
      "has_version json_key (content w packageJson) \<Longrightarrow> \<forall>d. fst (WriteFile F packageJson d w) = None \<Longrightarrow>
        r1 = None \<and> (\<exists>d d'. content w packageJson = Some d \<and> version_set json_key bare d d' \<and> content w1 = (content w)(packageJson \<mapsto> d'))"
    by (rule json.replaceVersion_effect [OF assms q, where path = packageJson and w = w]) (rule that)
  obtain r2 w2 where 2: "run (replaceVersion F cargoToml cargoVersionRe bare) w1 = (Done r2, w2)"
      "\<And>p. p \<noteq> cargoToml \<Longrightarrow> content w2 p = content w1 p"
      "\<not> has_version cargo_key (content w1 cargoToml) \<Longrightarrow> r2 \<noteq> None \<and> w2 = w1"
    by (rule cargo.replaceVersion_effect [OF assms q, where path = cargoToml and w = w1]) (rule that)
  have cargo: "content w1 cargoToml = content w cargoToml" by (rule 1(2)) simp
  have "run (SetVersion F version) w = (if r1 = None then (Done r2, w2) else (Done r1, w1))"
    using Some bare(2) 1(1) 2(1) by (cases r1) (simp_all add: run_SetVersion)
  moreover have uniq: "semver version b \<longleftrightarrow> b = bare" for b
    using bare(1) semver_unique [OF bare(1), of b] by (metis (no_types))
  ultimately show ?thesis
  proof (cases r1)
    case None
    then have json: "has_version json_key (content w packageJson)" using 1(3) by blast
    have same: "w2 = w1" "r2 \<noteq> None" if "\<not> has_version cargo_key (content w cargoToml)"
      using that 2(3) cargo by simp_all
    have "run (SetVersion F version) w = (Done r2, w2)" using \<open>run (SetVersion F version) w = _\<close> None by simp
    then show ?thesis unfolding uniq
    proof (intro exI [of _ r2] exI [of _ w2] conjI allI impI; (elim conjE)?)
      fix bare' assume "\<not> has_version cargo_key (content w cargoToml)" "\<forall>d. fst (WriteFile F packageJson d w) = None" "bare' = bare"
      with 1(4) json same(1) show "\<exists>d d'. content w packageJson = Some d \<and> version_set json_key bare' d d' \<and>
          content w2 = (content w)(packageJson \<mapsto> d')" by blast
    qed (use json same cargo 1(2) 2(2) in auto)
  next
    case (Some e)
    with \<open>run (SetVersion F version) w = _\<close> 1(2-4) cargo show ?thesis
      unfolding uniq by (intro exI [of _ r1] exI [of _ w1] conjI) auto
  qed
qed

theorem SetVersion_errors_witness:
  "\<exists>e w. run (SetVersion disk_files ''0.2'') (release_disk []) = (Done (Some e), w) \<and> w = release_disk []"
proof -
  have "FindStringSubmatch semverRe ''0.2'' = None" by code_simp
  then have "\<not> semver ''0.2'' bare" for bare using semver_iff [of "''0.2''"] by auto
  with SetVersion_errors [OF disk.text_files_axioms, of "''0.2''" "release_disk []"] show ?thesis by auto
qed

end
