(* ===== verification/Scanner.thy ===== *)
theory Scanner
  imports Threads
begin

text \<open>
  What \<^verbatim>\<open>examples/consumer/main.go\<close> uses of the standard library: \<^verbatim>\<open>bufio.Scanner\<close> with its
  default split function \<^verbatim>\<open>bufio.ScanLines\<close> and its default limit of 64 KiB for a token, over
  a \<^verbatim>\<open>Reader\<close>; and what any schedule can make of it. The scanner's buffer is its length, the
  position of the first unread byte and the unread bytes.
\<close>

section \<open>The scanner\<close>

record scanner =
  sc_size :: nat
  sc_start :: nat
  sc_pending :: "byte list"
  sc_err :: "gerror option"

definition NewScanner :: scanner where
  "NewScanner = \<lparr>sc_size = 0, sc_start = 0, sc_pending = [], sc_err = None\<rparr>"

abbreviation newline :: byte where "newline \<equiv> 10"

definition maxTokenSize :: nat where "maxTokenSize = 65536"

definition ErrTooLong :: gerror where "ErrTooLong = Errorf ''bufio.Scanner: token too long''"
definition ErrNoProgress :: gerror where "ErrNoProgress = Errorf ''multiple Read calls return no data or error''"

definition dropCR :: "byte list \<Rightarrow> byte list" where
  "dropCR l = (if l \<noteq> [] \<and> last l = 13 then butlast l else l)"

text \<open>\<^verbatim>\<open>ScanLines\<close>: how far to advance and the token, or \<open>None\<close> to ask for more data.\<close>

definition ScanLines :: "byte list \<Rightarrow> bool \<Rightarrow> (nat \<times> byte list) option" where
  "ScanLines d atEOF =
     (let l = takeWhile (\<lambda>b. b \<noteq> newline) d in
      if atEOF \<and> d = [] then None
      else if length l < length d then Some (length l + 1, dropCR l)
      else if atEOF then Some (length d, dropCR d)
      else None)"

text \<open>
  The loop around \<^verbatim>\<open>Read\<close>, which gives up after 100 reads without data or error. The flag is
  \<open>False\<close> if \<^verbatim>\<open>Read\<close> did not return within its fuel \<open>n\<close>.
\<close>

fun fill :: "nat \<Rightarrow> nat \<Rightarrow> scanner \<Rightarrow> 'w reader \<Rightarrow> ('w, bool \<times> scanner \<times> 'w reader) prog" where
  "fill 0 n sc r = Return (True, sc\<lparr>sc_err := Some ErrNoProgress\<rparr>, r)"
| "fill (Suc k) n sc r =
     pbind (Read n r (replicate (sc_size sc - (sc_start sc + length (sc_pending sc))) 0)) (\<lambda>(res, q, r). case res of
         None \<Rightarrow> Return (False, sc, r)
       | Some (m, err) \<Rightarrow>
           let sc = sc\<lparr>sc_pending := sc_pending sc @ take (nat m) q\<rparr> in
           if err \<noteq> None then Return (True, sc\<lparr>sc_err := err\<rparr>, r)
           else if m > 0 then Return (True, sc, r)
           else fill k n sc r)"

text \<open>Making room: the unread bytes are moved to the front of the buffer, or of one twice as long.\<close>

definition compact :: "scanner \<Rightarrow> scanner" where
  "compact sc =
     (if sc_start sc > 0 \<and> (sc_start sc + length (sc_pending sc) = sc_size sc \<or> sc_start sc > sc_size sc div 2)
      then sc\<lparr>sc_start := 0\<rparr> else sc)"

definition enlarge :: "scanner \<Rightarrow> scanner" where
  "enlarge sc = sc\<lparr>sc_size := min (if sc_size sc = 0 then 4096 else 2 * sc_size sc) maxTokenSize, sc_start := 0\<rparr>"

fun Scan :: "nat \<Rightarrow> nat \<Rightarrow> scanner \<Rightarrow> 'w reader \<Rightarrow> ('w, byte list option option \<times> scanner \<times> 'w reader) prog" where
  "Scan 0 n sc r = Return (None, sc, r)"
| "Scan (Suc fuel) n sc r =
     (case (if sc_pending sc \<noteq> [] \<or> sc_err sc \<noteq> None then ScanLines (sc_pending sc) (sc_err sc \<noteq> None) else None) of
        Some (advance, token) \<Rightarrow>
          Return (Some (Some token), sc\<lparr>sc_start := sc_start sc + advance, sc_pending := drop advance (sc_pending sc)\<rparr>, r)
      | None \<Rightarrow>
          if sc_err sc \<noteq> None then Return (Some None, sc\<lparr>sc_start := 0, sc_pending := []\<rparr>, r)
          else
            let sc = compact sc; full = (sc_start sc + length (sc_pending sc) = sc_size sc) in
            if full \<and> sc_size sc \<ge> maxTokenSize then Return (Some None, sc\<lparr>sc_err := Some ErrTooLong\<rparr>, r)
            else pbind (fill 101 n (if full then enlarge sc else sc) r) (\<lambda>(ok, sc, r).
              if ok then Scan fuel n sc r else Return (None, sc, r)))"

text \<open>\<^verbatim>\<open>Err\<close>: \<^verbatim>\<open>io.EOF\<close> is no error.\<close>

definition scanner_Err :: "scanner \<Rightarrow> gerror option" where
  "scanner_Err sc = (if sc_err sc = Some EOF then None else sc_err sc)"

text \<open>\<^verbatim>\<open>for scanner.Scan() { ... scanner.Text() ... }\<close>: the tokens of one scan after the other.\<close>

fun scanAll :: "nat \<Rightarrow> scanner \<Rightarrow> 'w reader \<Rightarrow> ('w, (byte list list \<times> scanner \<times> 'w reader) option) prog" where
  "scanAll 0 sc r = Return None"
| "scanAll (Suc fuel) sc r = pbind (Scan fuel fuel sc r) (\<lambda>(tok, sc, r). case tok of
       None \<Rightarrow> Return None
     | Some None \<Rightarrow> Return (Some ([], sc, r))
     | Some (Some t) \<Rightarrow> pbind (scanAll fuel sc r) (\<lambda>res. Return (map_option (\<lambda>(ts, z). (t # ts, z)) res)))"


section \<open>Under every schedule\<close>

text \<open>The bytes of some lines, each with its end.\<close>

definition joined :: "byte list list \<Rightarrow> byte list" where
  "joined ls = concat (map (\<lambda>l. l @ [newline]) ls)"

lemma joined_simps [simp]: "joined [] = []" "joined (l # ls) = l @ newline # joined ls" "joined (ls @ ls') = joined ls @ joined ls'"
  by (simp_all add: joined_def)

lemma ScanLines_cases:
  assumes "d \<noteq> [] \<or> eof"
  obtains l d' where "ScanLines d eof = Some (length l + 1, dropCR l)" "d = l @ newline # d'" "newline \<notin> set l"
  | "ScanLines d eof = Some (length d, dropCR d)" "newline \<notin> set d" "eof" "d \<noteq> []"
  | "ScanLines d eof = None" "newline \<notin> set d" "eof = (d = [])"
proof -
  let ?l = "takeWhile (\<lambda>b. b \<noteq> newline) d"
  have nl: "newline \<notin> set ?l" by (auto dest: set_takeWhileD)
  show ?thesis
  proof (cases "length ?l < length d")
    case True
    then obtain b d' where d: "dropWhile (\<lambda>b. b \<noteq> newline) d = b # d'"
      by (metis append_Nil2 less_irrefl neq_Nil_conv takeWhile_dropWhile_id)
    then have "b = newline" by (metis (full_types) dropWhile_eq_Cons_conv)
    with d have "d = ?l @ newline # d'" by (metis takeWhile_dropWhile_id)
    moreover have "ScanLines d eof = Some (length ?l + 1, dropCR ?l)" using True by (auto simp: ScanLines_def Let_def)
    ultimately show ?thesis using nl that(1) by blast
  next
    case False
    then have "length ?l = length d" using length_takeWhile_le [of "\<lambda>b. b \<noteq> newline" d] by simp
    then have l: "?l = d" by (metis append_eq_conv_conj take_all_iff order_refl takeWhile_eq_take)
    show ?thesis
    proof (cases "eof \<and> d \<noteq> []")
      case True
      with nl False show ?thesis unfolding l by (intro that(2)) (simp_all add: ScanLines_def Let_def l)
    next
      case False
      then have "eof = (d = [])" using assms by blast
      then show ?thesis using nl by (intro that(3)) (simp_all add: ScanLines_def l del: takeWhile_eq_all_conv)
    qed
  qed
qed

context waking_storage
begin

lemma rg_fill:
  assumes "reader_knows data live wk A cap r co [] w g" "r_st r = S"
    and k: "\<And>ok sc' xs r' w g. reader_knows data live wk A cap r' (co @ xs) [] w g \<Longrightarrow> r_st r' = S \<Longrightarrow>
      (ok \<Longrightarrow> sc_pending sc' = sc_pending sc @ xs) \<Longrightarrow>
      rg (reader_waits data wk cap) (writer_step data live wk A cap) (reader_step data live wk A cap) Q (k (ok, sc', r')) w g"
  shows "rg (reader_waits data wk cap) (writer_step data live wk A cap) (reader_step data live wk A cap) Q (pbind (fill j n sc r) k) w g"
  using assms
proof (induction j arbitrary: sc r co w g)
  case 0
  then show ?case using 0(3) [of r "[]"] by simp
next
  case (Suc j)
  let ?p = "replicate (sc_size sc - (sc_start sc + length (sc_pending sc))) 0 :: byte list"
  let ?k = "\<lambda>(res, q, r). case res of
         None \<Rightarrow> k (False, sc, r)
       | Some (m, err) \<Rightarrow>
           let sc = sc\<lparr>sc_pending := sc_pending sc @ take (nat m) q\<rparr> in
           if err \<noteq> None then k (True, sc\<lparr>sc_err := err\<rparr>, r)
           else if m > 0 then k (True, sc, r)
           else pbind (fill j n sc r) k"
  have after: "rg (reader_waits data wk cap) (writer_step data live wk A cap) (reader_step data live wk A cap) Q (?k (res, q, r')) w g"
    if m: "m \<le> length q" "reader_knows data live wk A cap r' (co @ take m q) [] w g" "r_st r' = S"
      and res: "res = None \<or> (\<exists>err. res = Some (int m, err))" for res m q r' w g
  proof -
    have fin: "rg (reader_waits data wk cap) (writer_step data live wk A cap) (reader_step data live wk A cap) Q (k (ok, sc', r')) w g"
      if "ok \<Longrightarrow> sc_pending sc' = sc_pending sc @ take m q" for ok sc'
      using Suc.prems(3) [OF m(2,3), of ok sc'] that by blast
    have rest: "rg (reader_waits data wk cap) (writer_step data live wk A cap) (reader_step data live wk A cap) Q
        (pbind (fill j n (sc\<lparr>sc_pending := sc_pending sc @ take m q\<rparr>) r') k) w g"
    proof (rule Suc.IH [OF m(2,3)])
      fix ok and sc' :: scanner and xs r'' w g
      assume "reader_knows data live wk A cap r'' ((co @ take m q) @ xs) [] w g" "r_st r'' = S"
        "ok \<Longrightarrow> sc_pending sc' = sc_pending (sc\<lparr>sc_pending := sc_pending sc @ take m q\<rparr>) @ xs"
      then show "rg (reader_waits data wk cap) (writer_step data live wk A cap) (reader_step data live wk A cap) Q (k (ok, sc', r'')) w g"
        using Suc.prems(3) [of r'' "take m q @ xs" w g ok sc'] by simp
    qed
    show ?thesis using res fin rest by (auto simp: Let_def)
  qed
  have "rg (reader_waits data wk cap) (writer_step data live wk A cap) (reader_step data live wk A cap) Q (pbind (ReadContext n Background r ?p) ?k) w g"
  proof (cases "?p = []")
    case True
    then show ?thesis using after [of 0 ?p r w g "Some (0, None)"] Suc.prems(1,2) by (simp add: ReadContext_def)
  next
    case False
    have "rg (reader_waits data wk cap) (writer_step data live wk A cap) (reader_step data live wk A cap) Q
        (pbind (readLoop n Background r ?p (minPoll (r_opt r))) ?k) w g"
    proof (rule rg_readLoop [OF Background_ok Suc.prems(1,2) False])
      fix res :: "(int64 \<times> gerror option) option" and m q r' w g
      assume *: "m \<le> length q" "reader_knows data live wk A cap r' (co @ take m q) [] w g" "r_st r' = S"
        "res = None \<or> (\<exists>err. res = Some (int m, err) \<and> (err = None \<longrightarrow> 0 < m))"
      show "rg (reader_waits data wk cap) (writer_step data live wk A cap) (reader_step data live wk A cap) Q (?k (res, q, r')) w g"
        using after [OF *(1-3)] *(4) by blast
    qed
    with False show ?thesis by (simp add: ReadContext_def)
  qed
  moreover have "pbind (fill (Suc j) n sc r) k = pbind (ReadContext n Background r ?p) ?k"
    by (simp add: Read_def pbind_assoc)
      (auto intro!: arg_cong [where f = "pbind _"] simp: fun_eq_iff Let_def split: option.split)
  ultimately show ?case by simp
qed

end

text \<open>
  How a scan can end when the bytes \<open>co\<close> have been consumed and \<open>pre\<close> are those of the lines
  before: a line and its end, the rest of the stream as the last token, or no token.
\<close>

definition scanned :: "byte list \<Rightarrow> byte list option option \<Rightarrow> scanner \<Rightarrow> byte list \<Rightarrow> bool" where
  "scanned pre res sc co \<longleftrightarrow> (case res of
     None \<Rightarrow> True
   | Some None \<Rightarrow> \<exists>rest. co = pre @ rest \<and> newline \<notin> set rest
   | Some (Some t) \<Rightarrow> \<exists>l. t = dropCR l \<and> newline \<notin> set l \<and>
       (co = pre @ l @ newline # sc_pending sc \<or> co = pre @ l \<and> l \<noteq> [] \<and> sc_pending sc = [] \<and> sc_err sc \<noteq> None))"

lemma compact_pending [simp]: "sc_pending (compact sc) = sc_pending sc" "sc_err (compact sc) = sc_err sc"
  "sc_pending (enlarge sc) = sc_pending sc"
  by (simp_all add: compact_def enlarge_def)

lemma scanAll_ended:
  assumes "sc_pending sc = []" "sc_err sc \<noteq> None"
  shows "scanAll fuel sc r = Return None \<or> (\<exists>sc'. scanAll fuel sc r = Return (Some ([], sc', r)))"
proof (cases fuel)
  case (Suc f)
  with assms show ?thesis by (cases f) (auto simp: ScanLines_def)
qed simp

context waking_storage
begin

lemma rg_Scan:
  assumes "reader_knows data live wk A cap r (pre @ sc_pending sc) [] w g" "r_st r = S"
    and k: "\<And>res sc' co r' w g. reader_knows data live wk A cap r' co [] w g \<Longrightarrow> r_st r' = S \<Longrightarrow> scanned pre res sc' co \<Longrightarrow>
      rg (reader_waits data wk cap) (writer_step data live wk A cap) (reader_step data live wk A cap) Q (k (res, sc', r')) w g"
  shows "rg (reader_waits data wk cap) (writer_step data live wk A cap) (reader_step data live wk A cap) Q (pbind (Scan fuel n sc r) k) w g"
  using assms(1,2)
proof (induction fuel arbitrary: sc r w g)
  case 0
  then show ?case using k [of r _ w g None sc] by (simp add: scanned_def)
next
  case (Suc fuel)
  let ?tok = "if sc_pending sc \<noteq> [] \<or> sc_err sc \<noteq> None then ScanLines (sc_pending sc) (sc_err sc \<noteq> None) else None"
  have more: ?case if none: "?tok = None" and nl: "newline \<notin> set (sc_pending sc)" and err: "sc_err sc = None"
  proof -
    let ?sc = "compact sc"
    let ?full = "sc_start ?sc + length (sc_pending ?sc) = sc_size ?sc"
    show ?thesis
    proof (cases "?full \<and> sc_size ?sc \<ge> maxTokenSize")
      case True
      have "rg (reader_waits data wk cap) (writer_step data live wk A cap) (reader_step data live wk A cap) Q (k (Some None, ?sc\<lparr>sc_err := Some ErrTooLong\<rparr>, r)) w g"
        by (rule k [OF Suc.prems]) (use nl in \<open>simp add: scanned_def\<close>)
      with True none err show ?thesis by (simp add: Let_def)
    next
      case False
      have "rg (reader_waits data wk cap) (writer_step data live wk A cap) (reader_step data live wk A cap) Q
          (pbind (fill 101 n (if ?full then enlarge ?sc else ?sc) r) (\<lambda>(ok, sc, r).
            if ok then pbind (Scan fuel n sc r) k else k (None, sc, r))) w g"
      proof (rule rg_fill [OF Suc.prems])
        fix ok and sc' :: scanner and xs r' w g
        assume *: "reader_knows data live wk A cap r' ((pre @ sc_pending sc) @ xs) [] w g" "r_st r' = S"
          "ok \<Longrightarrow> sc_pending sc' = sc_pending (if ?full then enlarge ?sc else ?sc) @ xs"
        show "rg (reader_waits data wk cap) (writer_step data live wk A cap) (reader_step data live wk A cap) Q
          (case (ok, sc', r') of (ok, sc, r) \<Rightarrow> if ok then pbind (Scan fuel n sc r) k else k (None, sc, r)) w g"
          using Suc.IH [of r' sc' w g] k [OF *(1,2), of None sc'] * by (cases ok) (auto simp: scanned_def split: if_splits)
      qed
      moreover have "pbind (Scan (Suc fuel) n sc r) k =
          pbind (fill 101 n (if ?full then enlarge ?sc else ?sc) r) (\<lambda>(ok, sc, r).
            if ok then pbind (Scan fuel n sc r) k else k (None, sc, r))"
        using False none err
        by (auto simp: Let_def pbind_assoc fun_eq_iff intro!: arg_cong [where f = "pbind _"])
      ultimately show ?thesis by simp
    qed
  qed
  show ?case
  proof (cases "sc_pending sc \<noteq> [] \<or> sc_err sc \<noteq> None")
    case False
    then show ?thesis by (intro more) simp_all
  next
    case True
    then have tok: "?tok = ScanLines (sc_pending sc) (sc_err sc \<noteq> None)" by simp
    from True show ?thesis
    proof (cases rule: ScanLines_cases [of "sc_pending sc" "sc_err sc \<noteq> None"])
      case (1 l d')
      have "rg (reader_waits data wk cap) (writer_step data live wk A cap) (reader_step data live wk A cap) Q
          (k (Some (Some (dropCR l)), sc\<lparr>sc_start := sc_start sc + (length l + 1), sc_pending := d'\<rparr>, r)) w g"
        by (rule k [OF Suc.prems]) (use 1 in \<open>auto simp: scanned_def\<close>)
      with 1 tok show ?thesis by simp
    next
      case 2
      have "rg (reader_waits data wk cap) (writer_step data live wk A cap) (reader_step data live wk A cap) Q
          (k (Some (Some (dropCR (sc_pending sc))), sc\<lparr>sc_start := sc_start sc + length (sc_pending sc), sc_pending := []\<rparr>, r)) w g"
        by (rule k [OF Suc.prems]) (use 2 in \<open>auto simp: scanned_def\<close>)
      with 2 tok show ?thesis by simp
    next
      case 3
      show ?thesis
      proof (cases "sc_err sc = None")
        case True
        with 3 tok show ?thesis by (intro more) simp_all
      next
        case False
        have "rg (reader_waits data wk cap) (writer_step data live wk A cap) (reader_step data live wk A cap) Q
            (k (Some None, sc\<lparr>sc_start := 0, sc_pending := []\<rparr>, r)) w g"
          by (rule k [OF Suc.prems]) (use 3 False in \<open>auto simp: scanned_def\<close>)
        with 3 False tok show ?thesis by simp
      qed
    qed
  qed
qed

end

text \<open>
  What the loop has seen when it ends: lines, each with its end, and a rest without one, which
  may be the last token.
\<close>

definition scanned_all :: "byte list \<Rightarrow> byte list list \<Rightarrow> byte list \<Rightarrow> bool" where
  "scanned_all pre ts co \<longleftrightarrow> (\<exists>ls rest. co = pre @ joined ls @ rest \<and> (\<forall>l \<in> set ls. newline \<notin> set l) \<and> newline \<notin> set rest \<and>
     (ts = map dropCR ls \<or> rest \<noteq> [] \<and> ts = map dropCR ls @ [dropCR rest]))"

lemma scanned_all_end:
  "scanned pre (Some None) sc co \<Longrightarrow> scanned_all pre [] co"
  "newline \<notin> set l \<Longrightarrow> l \<noteq> [] \<Longrightarrow> scanned_all pre [dropCR l] (pre @ l)"
  by (auto simp: scanned_def scanned_all_def intro: exI [of _ "[]"])

lemma scanned_all_step:
  assumes "scanned_all (pre @ l @ [newline]) ts co" "newline \<notin> set l"
  shows "scanned_all pre (dropCR l # ts) co"
proof -
  obtain ls rest where "co = (pre @ l @ [newline]) @ joined ls @ rest" "\<forall>l \<in> set ls. newline \<notin> set l" "newline \<notin> set rest"
      "ts = map dropCR ls \<or> rest \<noteq> [] \<and> ts = map dropCR ls @ [dropCR rest]"
    using assms(1) unfolding scanned_all_def by blast
  with assms(2) show ?thesis
    unfolding scanned_all_def by (intro exI [of _ "l # ls"] exI [of _ rest]) auto
qed

context waking_storage
begin

lemma rg_scanAll:
  assumes "reader_knows data live wk A cap r (pre @ sc_pending sc) [] w g" "r_st r = S"
    and k: "\<And>res co r' w g. reader_knows data live wk A cap r' co [] w g \<Longrightarrow>
      (\<And>ts sc' r''. res = Some (ts, sc', r'') \<Longrightarrow> r'' = r' \<and> r_st r' = S \<and> scanned_all pre ts co) \<Longrightarrow>
      rg (reader_waits data wk cap) (writer_step data live wk A cap) (reader_step data live wk A cap) Q (k res) w g"
  shows "rg (reader_waits data wk cap) (writer_step data live wk A cap) (reader_step data live wk A cap) Q (pbind (scanAll fuel sc r) k) w g"
  using assms
proof (induction fuel arbitrary: pre sc r w g k)
  case 0
  then show ?case using 0(3) [of r _ w g None] by simp
next
  case (Suc fuel)
  let ?next = "\<lambda>(tok, sc, r). case tok of
       None \<Rightarrow> k None
     | Some None \<Rightarrow> k (Some ([], sc, r))
     | Some (Some t) \<Rightarrow> pbind (scanAll fuel sc r) (\<lambda>res. k (map_option (\<lambda>(ts, z). (t # ts, z)) res))"
  have "rg (reader_waits data wk cap) (writer_step data live wk A cap) (reader_step data live wk A cap) Q (pbind (Scan fuel fuel sc r) ?next) w g"
  proof (rule rg_Scan [OF Suc.prems(1,2)])
    fix res sc' co r' w g
    assume kn: "reader_knows data live wk A cap r' co [] w g" "r_st r' = S" and sc: "scanned pre res sc' co"
    consider "res = None" | "res = Some None" | l where "res = Some (Some (dropCR l))" "newline \<notin> set l"
        "co = pre @ l @ newline # sc_pending sc'"
      | l where "res = Some (Some (dropCR l))" "newline \<notin> set l" "co = pre @ l" "sc_pending sc' = []" "sc_err sc' \<noteq> None" "l \<noteq> []"
      using sc by (auto simp: scanned_def split: option.splits)
    then show "rg (reader_waits data wk cap) (writer_step data live wk A cap) (reader_step data live wk A cap) Q (?next (res, sc', r')) w g"
    proof cases
      case 1
      then show ?thesis using Suc.prems(3) [OF kn(1), of None] by simp
    next
      case 2
      then show ?thesis
        using Suc.prems(3) [OF kn(1), of "Some ([], sc', r')"] kn(2) sc scanned_all_end(1) by auto
    next
      case (3 l)
      have "rg (reader_waits data wk cap) (writer_step data live wk A cap) (reader_step data live wk A cap) Q
          (pbind (scanAll fuel sc' r') (\<lambda>res. k (map_option (\<lambda>(ts, z). (dropCR l # ts, z)) res))) w g"
      proof (rule Suc.IH [of _ "pre @ l @ [newline]"])
        show "reader_knows data live wk A cap r' ((pre @ l @ [newline]) @ sc_pending sc') [] w g" using kn(1) 3 by simp
        fix res :: "(byte list list \<times> scanner \<times> 'w reader) option" and co r'' w g
        assume "reader_knows data live wk A cap r'' co [] w g"
          and "\<And>ts sc' ra. res = Some (ts, sc', ra) \<Longrightarrow> ra = r'' \<and> r_st r'' = S \<and> scanned_all (pre @ l @ [newline]) ts co"
        then show "rg (reader_waits data wk cap) (writer_step data live wk A cap) (reader_step data live wk A cap) Q
            (k (map_option (\<lambda>(ts, z). (dropCR l # ts, z)) res)) w g"
          by (intro Suc.prems(3)) (auto intro: scanned_all_step [OF _ 3(2)])
      qed (rule kn(2))
      with 3(1) show ?thesis by simp
    next
      case (4 l)
      have "rg (reader_waits data wk cap) (writer_step data live wk A cap) (reader_step data live wk A cap) Q (k (Some ([dropCR l], sc'', r'))) w g" for sc''
        by (rule Suc.prems(3) [OF kn(1)]) (use 4 kn(2) scanned_all_end(2) in auto)
      moreover have "rg (reader_waits data wk cap) (writer_step data live wk A cap) (reader_step data live wk A cap) Q (k None) w g"
        by (rule Suc.prems(3) [OF kn(1)]) simp
      ultimately show ?thesis using scanAll_ended [OF 4(4,5), of fuel r'] 4(1) by auto
    qed
  qed
  moreover have "pbind (scanAll (Suc fuel) sc r) k = pbind (Scan fuel fuel sc r) ?next"
    by (auto simp: pbind_assoc fun_eq_iff intro!: arg_cong [where f = "pbind _"] split: option.split)
  ultimately show ?case by simp
qed

end

end
