(* ===== verification/Pipeline.thy ===== *)
theory Pipeline
  imports Examples Scanner
begin

text \<open>
  \<^verbatim>\<open>examples/producer/main.go\<close> and \<^verbatim>\<open>examples/consumer/main.go\<close>: the two \<^verbatim>\<open>main\<close> functions,
  with the values of their flags as arguments, and what they do to each other. The log is not
  modelled, except for the lines that the consumer logs as received, which it returns.
  \<open>sleep\<close> is \<^verbatim>\<open>time.Sleep\<close>; the blocking calls have fuel, and \<open>None\<close> is "has not ended within
  the fuel".
\<close>

section \<open>The programs\<close>

text \<open>How a \<^verbatim>\<open>main\<close> ends: \<^verbatim>\<open>log.Fatalf\<close> exits at once, without the deferred calls.\<close>

datatype ended = LogFatal string gerror | MainReturns

text \<open>\<^verbatim>\<open>fmt.Sprintf("message %d\n", i)\<close>\<close>

fun itoa :: "nat \<Rightarrow> byte list" where
  "itoa n = (if n < 10 then [48 + of_nat n] else itoa (n div 10) @ [48 + of_nat (n mod 10)])"

declare itoa.simps [simp del]

definition messageText :: "nat \<Rightarrow> byte list" where
  "messageText i = map of_char ''message '' @ itoa i"

fun produceLoop ::
  "nat \<Rightarrow> (duration \<Rightarrow> ('w, unit) prog) \<Rightarrow> duration \<Rightarrow> nat list \<Rightarrow> 'w writer \<Rightarrow> ('w, gerror option option \<times> 'w writer) prog" where
  "produceLoop fuel sleep interval [] w = Return (Some None, w)"
| "produceLoop fuel sleep interval (i # is) w =
     pbind (Write fuel w (messageText i @ [newline])) (\<lambda>(res, w). case res of
         None \<Rightarrow> Return (None, w)
       | Some (n, Some err) \<Rightarrow> Return (Some (Some err), w)
       | Some (n, None) \<Rightarrow> pbind (sleep interval) (\<lambda>_. produceLoop fuel sleep interval is w))"

definition produce ::
  "nat \<Rightarrow> (duration \<Rightarrow> ('w, unit) prog) \<Rightarrow> int \<Rightarrow> duration \<Rightarrow> 'w writer \<Rightarrow> ('w, ended option \<times> 'w writer) prog" where
  "produce fuel sleep count interval w =
     pbind (produceLoop fuel sleep interval [0..<nat count] w) (\<lambda>(res, w). case res of
         None \<Rightarrow> Return (None, w)
       | Some (Some err) \<Rightarrow> Return (Some (LogFatal ''Write: '' err), w)
       | Some None \<Rightarrow> pbind (CloseWriter w) (\<lambda>(err, w). case err of
             Some err \<Rightarrow> Return (Some (LogFatal ''Close: '' err), w)
           | None \<Rightarrow> pbind (sleep (2 * 1000000000)) (\<lambda>_. Return (Some MainReturns, w))))"

definition producer ::
  "nat \<Rightarrow> (duration \<Rightarrow> ('w, unit) prog) \<Rightarrow> 'w backend_fun \<Rightarrow> string \<Rightarrow> int64 \<Rightarrow> int \<Rightarrow> duration \<Rightarrow> ('w, ended option) prog" where
  "producer fuel sleep create name capacity count interval =
     pbind (CreateShm create name capacity []) (\<lambda>res. case res of
         Inl err \<Rightarrow> Return (Some (LogFatal ''CreateShm: '' err))
       | Inr w \<Rightarrow> pbind (produce fuel sleep count interval w) (\<lambda>(res, w).
           if res = Some MainReturns then pbind (CloseStorage w) (\<lambda>_. Return res) else Return res))"

definition consume :: "nat \<Rightarrow> 'w reader \<Rightarrow> ('w, (byte list list \<times> ended \<times> 'w reader) option) prog" where
  "consume fuel r = pbind (scanAll fuel NewScanner r) (\<lambda>res. case res of
       None \<Rightarrow> Return None
     | Some (lines, sc, r) \<Rightarrow> Return (Some (lines,
         (case scanner_Err sc of
            Some err \<Rightarrow> if errors_Is err EOF then MainReturns else LogFatal ''read: '' err
          | None \<Rightarrow> MainReturns), r)))"

definition consumer ::
  "nat \<Rightarrow> ('w \<Rightarrow> int) \<Rightarrow> (duration \<Rightarrow> ('w, unit) prog) \<Rightarrow> 'w backend_fun \<Rightarrow> string \<Rightarrow> int64 \<Rightarrow>
    ('w, (byte list list \<times> ended) option) prog" where
  "consumer fuel now sleep open name capacity =
     pbind (openWithRetry fuel now sleep open name capacity (5 * 1000000000)) (\<lambda>res. case res of
         None \<Rightarrow> Return None
       | Some (r, Some err) \<Rightarrow> Return (Some ([], LogFatal ''OpenShm: '' err))
       | Some (None, None) \<Rightarrow> Crash (PanicMsg ''nil pointer dereference'')
       | Some (Some r, None) \<Rightarrow> pbind (consume fuel r) (\<lambda>res. case res of
             None \<Rightarrow> Return None
           | Some (lines, MainReturns, r) \<Rightarrow> pbind (CloseReader r) (\<lambda>_. Return (Some (lines, MainReturns)))
           | Some (lines, e, r) \<Rightarrow> Return (Some (lines, e))))"


section \<open>Lines of the stream\<close>







section \<open>Under every schedule\<close>








section \<open>Properties\<close>



end
