(* ===== verification/Mage.thy ===== *)
theory Mage
  imports Options Os
begin

text \<open>
  The build targets under \<^verbatim>\<open>magefiles\<close> (all but the release target, which has its own theory).
  A target is a sequence of calls of other tools that stops at the first error. The tools, the
  environment and the file system are a parameter; the notes that some targets print are left
  out. A namespace's method has the namespace in its name; the methods without one get \<open>Mage\<close>.
\<close>

section \<open>What the targets call\<close>

text \<open>
  \<^verbatim>\<open>sh.RunV\<close>, \<^verbatim>\<open>sh.Rm\<close> and \<^verbatim>\<open>sh.Copy\<close> of the mage library, \<^verbatim>\<open>exec.Cmd\<close> with additions to the
  environment, and what is used of package \<^verbatim>\<open>os\<close>. A copy has its destination first.
\<close>

record 'w tools =
  RunV :: "string list \<Rightarrow> 'w \<Rightarrow> gerror option \<times> 'w"
  Rm :: "string \<Rightarrow> 'w \<Rightarrow> gerror option \<times> 'w"
  CopyFile :: "string \<Rightarrow> string \<Rightarrow> 'w \<Rightarrow> gerror option \<times> 'w"
  CmdRun :: "(string \<times> string) list \<Rightarrow> string list \<Rightarrow> 'w \<Rightarrow> gerror option \<times> 'w"
  CmdStart :: "string list \<Rightarrow> 'w \<Rightarrow> (gerror + nat) \<times> 'w"
  KillProcess :: "nat \<Rightarrow> 'w \<Rightarrow> gerror option \<times> 'w"
  RemovePath :: "string \<Rightarrow> 'w \<Rightarrow> gerror option \<times> 'w"
  MkdirAll :: "string \<Rightarrow> 'w \<Rightarrow> gerror option \<times> 'w"
  LookPath :: "string \<Rightarrow> 'w \<Rightarrow> bool"
  Getenv :: "string \<Rightarrow> 'w \<Rightarrow> string"
  StatOk :: "string \<Rightarrow> 'w \<Rightarrow> bool"
  Glob :: "string \<Rightarrow> 'w \<Rightarrow> string list"
  TempDir :: "'w \<Rightarrow> string"
  GOOS :: string

text \<open>\<^verbatim>\<open>if err := p; err != nil { return err }\<close>, and a loop of such steps.\<close>

definition and_then :: "('w, gerror option) prog \<Rightarrow> ('w, gerror option) prog \<Rightarrow> ('w, gerror option) prog" where
  "and_then p q = pbind p (\<lambda>err. case err of Some e \<Rightarrow> Return (Some e) | None \<Rightarrow> q)"

fun for_each :: "('a \<Rightarrow> ('w, gerror option) prog) \<Rightarrow> 'a list \<Rightarrow> ('w, gerror option) prog" where
  "for_each f [] = Return None"
| "for_each f (x # xs) = and_then (f x) (for_each f xs)"


section \<open>\<^verbatim>\<open>magefile.go\<close> and \<^verbatim>\<open>env.go\<close>\<close>

definition Mage_Build :: "'w tools \<Rightarrow> ('w, gerror option) prog" where
  "Mage_Build T = sys (RunV T [''go'', ''build'', ''./...''])"

definition Mage_Test :: "'w tools \<Rightarrow> ('w, gerror option) prog" where
  "Mage_Test T = sys (RunV T [''go'', ''test'', ''./...''])"

definition Mage_TestRace :: "'w tools \<Rightarrow> ('w, gerror option) prog" where
  "Mage_TestRace T = sys (RunV T [''go'', ''test'', ''-race'', ''-count=1'', ''./...''])"

definition Mage_Vet :: "'w tools \<Rightarrow> ('w, gerror option) prog" where
  "Mage_Vet T = sys (RunV T [''go'', ''vet'', ''./...''])"

definition Mage_Lint :: "'w tools \<Rightarrow> ('w, gerror option) prog" where
  "Mage_Lint T = sys (RunV T [''golangci-lint'', ''run''])"

definition Mage_Tidy :: "'w tools \<Rightarrow> ('w, gerror option) prog" where
  "Mage_Tidy T = sys (RunV T [''go'', ''mod'', ''tidy''])"

definition Mage_Examples :: "'w tools \<Rightarrow> ('w, gerror option) prog" where
  "Mage_Examples T = and_then (sys (RunV T [''go'', ''build'', ''-o'', ''bin/producer'', ''./examples/producer'']))
     (sys (RunV T [''go'', ''build'', ''-o'', ''bin/consumer'', ''./examples/consumer'']))"

definition Mage_Clean :: "'w tools \<Rightarrow> ('w, gerror option) prog" where
  "Mage_Clean T = sys (Rm T ''bin'')"

definition runEnv :: "'w tools \<Rightarrow> (string \<times> string) list \<Rightarrow> string list \<Rightarrow> ('w, gerror option) prog" where
  "runEnv T extraEnv args = sys (CmdRun T extraEnv args)"

definition lookPath :: "'w tools \<Rightarrow> string \<Rightarrow> ('w, bool) prog" where
  "lookPath T name = probe (LookPath T name)"


section \<open>The platforms\<close>

definition Linux_env :: "(string \<times> string) list" where
  "Linux_env = [(''GOOS'', ''linux''), (''GOARCH'', ''amd64''), (''CGO_ENABLED'', ''1'')]"

definition Linux_Build :: "'w tools \<Rightarrow> ('w, gerror option) prog" where
  "Linux_Build T = runEnv T Linux_env [''go'', ''build'', ''./...'']"

definition Linux_Test :: "'w tools \<Rightarrow> ('w, gerror option) prog" where
  "Linux_Test T = runEnv T Linux_env [''go'', ''test'', ''-race'', ''-count=1'', ''./...'']"

definition Linux_Lint :: "'w tools \<Rightarrow> ('w, gerror option) prog" where
  "Linux_Lint T = runEnv T [] [''golangci-lint'', ''run'']"

definition Linux_Clean :: "'w tools \<Rightarrow> ('w, gerror option) prog" where
  "Linux_Clean T = sys (Rm T ''bin/linux-amd64'')"

definition Darwin_env :: "(string \<times> string) list" where
  "Darwin_env = [(''GOOS'', ''darwin''), (''GOARCH'', ''arm64''), (''CGO_ENABLED'', ''1'')]"

definition Darwin_Build :: "'w tools \<Rightarrow> ('w, gerror option) prog" where
  "Darwin_Build T = runEnv T Darwin_env [''go'', ''build'', ''./...'']"

definition Darwin_Test :: "'w tools \<Rightarrow> ('w, gerror option) prog" where
  "Darwin_Test T = runEnv T Darwin_env [''go'', ''test'', ''-race'', ''-count=1'', ''./...'']"

definition Darwin_Lint :: "'w tools \<Rightarrow> ('w, gerror option) prog" where
  "Darwin_Lint T = runEnv T [] [''golangci-lint'', ''run'']"

definition Darwin_Clean :: "'w tools \<Rightarrow> ('w, gerror option) prog" where
  "Darwin_Clean T = sys (Rm T ''bin/darwin-arm64'')"

abbreviation mingw :: string where "mingw \<equiv> ''x86_64-w64-mingw32-gcc''"

definition Windows_env :: "'w tools \<Rightarrow> ('w, (string \<times> string) list) prog" where
  "Windows_env T =
     (let env = [(''GOOS'', ''windows''), (''GOARCH'', ''amd64''), (''CGO_ENABLED'', ''1'')] in
      pbind (lookPath T mingw) (\<lambda>found. Return (if found then env @ [(''CC'', mingw)] else env)))"

definition Windows_Build :: "'w tools \<Rightarrow> ('w, gerror option) prog" where
  "Windows_Build T = pbind (lookPath T mingw) (\<lambda>found.
     if \<not> found then Return (Some (Errorf ''windows:build needs mingw-w64 (x86_64-w64-mingw32-gcc not found on PATH); install it (e.g. `dnf install mingw64-gcc` / `apt install gcc-mingw-w64`)''))
     else pbind (Windows_env T) (\<lambda>env. runEnv T env [''go'', ''build'', ''./...'']))"

definition Windows_Test :: "'w tools \<Rightarrow> ('w, gerror option) prog" where
  "Windows_Test T = pbind (Windows_env T) (\<lambda>env. pbind (lookPath T mingw) (\<lambda>found.
     if \<not> found then Return (Some (Errorf ''windows:test needs mingw-w64 (x86_64-w64-mingw32-gcc not found on PATH)''))
     else pbind (lookPath T ''wine64'') (\<lambda>wine64.
       if wine64 then runEnv T env [''go'', ''test'', ''-race'', ''-count=1'', ''-exec=wine64'', ''./...'']
       else pbind (lookPath T ''wine'') (\<lambda>wine.
         if wine then runEnv T env [''go'', ''test'', ''-race'', ''-count=1'', ''-exec=wine'', ''./...'']
         else runEnv T env [''go'', ''vet'', ''./...'']))))"

definition Windows_Lint :: "'w tools \<Rightarrow> ('w, gerror option) prog" where
  "Windows_Lint T = runEnv T [] [''golangci-lint'', ''run'']"

definition Windows_Clean :: "'w tools \<Rightarrow> ('w, gerror option) prog" where
  "Windows_Clean T = sys (Rm T ''bin/windows-amd64'')"

abbreviation rustManifest :: string where "rustManifest \<equiv> ''rust/Cargo.toml''"

definition Rust_Build :: "'w tools \<Rightarrow> ('w, gerror option) prog" where
  "Rust_Build T = sys (RunV T [''cargo'', ''build'', ''--manifest-path'', rustManifest])"

definition Rust_Test :: "'w tools \<Rightarrow> ('w, gerror option) prog" where
  "Rust_Test T = sys (RunV T [''cargo'', ''test'', ''--manifest-path'', rustManifest])"

definition Rust_Lint :: "'w tools \<Rightarrow> ('w, gerror option) prog" where
  "Rust_Lint T = and_then
     (sys (RunV T [''cargo'', ''clippy'', ''--manifest-path'', rustManifest, ''--all-targets'', ''--'', ''-D'', ''warnings'']))
     (sys (RunV T [''cargo'', ''fmt'', ''--manifest-path'', rustManifest, ''--check'']))"

definition Rust_Clean :: "'w tools \<Rightarrow> ('w, gerror option) prog" where
  "Rust_Clean T = sys (RunV T [''cargo'', ''clean'', ''--manifest-path'', rustManifest])"


section \<open>\<^verbatim>\<open>android.go\<close>\<close>

definition hostTag :: "'w tools \<Rightarrow> string" where
  "hostTag T = (let arch = ''x86_64'' in
     if GOOS T = ''darwin'' then ''darwin-'' @ arch
     else if GOOS T = ''windows'' then ''windows-'' @ arch
     else ''linux-'' @ arch)"

text \<open>\<^verbatim>\<open>filepath.Join\<close> of clean parts.\<close>

definition path_join :: "string \<Rightarrow> string \<Rightarrow> string" where
  "path_join a b = a @ CHR ''/'' # b"

definition sdkRoot :: "'w tools \<Rightarrow> ('w, string) prog" where
  "sdkRoot T = pbind (probe (Getenv T ''ANDROID_SDK_ROOT'')) (\<lambda>root.
     if root = [] then probe (Getenv T ''ANDROID_HOME'') else Return root)"

definition findInstalledNDK :: "'w tools \<Rightarrow> ('w, string) prog" where
  "findInstalledNDK T = pbind (sdkRoot T) (\<lambda>root.
     if root = [] then Return []
     else pbind (probe (Glob T (path_join (path_join root ''ndk'') ''*''))) (\<lambda>matches.
       if matches = [] then Return [] else Return (last matches)))"

definition findAndroidNDK :: "'w tools \<Rightarrow> ('w, string) prog" where
  "findAndroidNDK T = pbind (probe (Getenv T ''ANDROID_NDK_HOME'')) (\<lambda>ndk.
     if ndk \<noteq> [] then pbind (probe (StatOk T ndk)) (\<lambda>ok. if ok then Return ndk else findInstalledNDK T)
     else findInstalledNDK T)"

definition checkToolchain :: "'w tools \<Rightarrow> ('w, gerror option) prog" where
  "checkToolchain T = pbind (lookPath T ''gomobile'') (\<lambda>found.
     if \<not> found then Return (Some (Errorf (''gomobile not found on PATH; install it with:'' @ [CHR 0x0A] @
       ''  go install golang.org/x/mobile/cmd/gomobile@latest'' @ [CHR 0x0A] @ ''  gomobile init'')))
     else pbind (findAndroidNDK T) (\<lambda>ndk.
       if ndk = [] then pbind (sdkRoot T) (\<lambda>root. Return (Some (Errorf ''Android NDK not found (checked ANDROID_NDK_HOME and '')))
       else Return None))"

definition Android_Build :: "'w tools \<Rightarrow> ('w, gerror option) prog" where
  "Android_Build T = and_then (checkToolchain T) (and_then (sys (MkdirAll T ''bin/android''))
     (pbind (findAndroidNDK T) (\<lambda>ndk. runEnv T [(''ANDROID_NDK_HOME'', ndk)]
       [''gomobile'', ''bind'', ''-target=android'', ''-androidapi'', ''26'', ''-o'', ''bin/android/shmring.aar'', ''./mobile''])))"

definition Android_Test :: "'w tools \<Rightarrow> ('w, gerror option) prog" where
  "Android_Test T = pbind (lookPath T ''gomobile'') (\<lambda>found. pbind (findAndroidNDK T) (\<lambda>ndk.
     if ndk = [] then Return (Some (Errorf ''Android NDK not found; see android:build's error for install instructions''))
     else
       let cc = foldl path_join ndk [''toolchains'', ''llvm'', ''prebuilt'', hostTag T, ''bin'', ''aarch64-linux-android26-clang''] in
       runEnv T [(''GOOS'', ''android''), (''GOARCH'', ''arm64''), (''CGO_ENABLED'', ''1''), (''CC'', cc)]
         [''go'', ''vet'', ''./mobile/...'']))"

definition Android_Lint :: "'w tools \<Rightarrow> ('w, gerror option) prog" where
  "Android_Lint T = runEnv T [] [''golangci-lint'', ''run'']"

definition Android_Clean :: "'w tools \<Rightarrow> ('w, gerror option) prog" where
  "Android_Clean T = sys (Rm T ''bin/android'')"


section \<open>\<^verbatim>\<open>web.go\<close>\<close>

text \<open>
  \<^verbatim>\<open>mg.Deps\<close> runs a target, unless it has already run in this process, and ends the process if
  it fails; it is an argument. So is the request of \<^verbatim>\<open>waitForServer\<close>, \<open>get\<close>, which tells whether
  there was a response; the context with the timeout is one of \<^verbatim>\<open>Options\<close>, and \<open>None\<close> is "has
  not returned within the fuel".
\<close>

definition wasmOut :: string where "wasmOut = ''web/example/shmring.wasm''"

definition Web_Build :: "'w tools \<Rightarrow> ('w, gerror option) prog" where
  "Web_Build T = and_then (sys (RunV T [''wasm-pack'', ''build'', ''rust'', ''--target'', ''web'', ''--out-name'', ''shmring_wasm'']))
     (and_then (for_each (\<lambda>name. sys (CopyFile T (path_join ''web'' name) (path_join ''rust/pkg'' name)))
         [''shmring_wasm.js'', ''shmring_wasm_bg.wasm''])
       (sys (CopyFile T wasmOut (path_join ''rust/pkg'' ''shmring_wasm_bg.wasm''))))"

fun waitForServer :: "nat \<Rightarrow> ('w \<Rightarrow> bool \<times> 'w) \<Rightarrow> 'w ctx \<Rightarrow> ('w, gerror option option) prog" where
  "waitForServer 0 get ctx = Return None"
| "waitForServer (Suc fuel) get ctx = pbind (sys get) (\<lambda>ok.
     if ok then Return (Some None)
     else pbind (ctx_Select ctx (100 * 1000000)) (\<lambda>r. case r of
         Some e \<Rightarrow> Return (Some (Some (ErrorfW ''devserver did not become ready at '' e)))
       | None \<Rightarrow> waitForServer fuel get ctx))"

definition Web_Test ::
  "'w tools \<Rightarrow> (('w, gerror option) prog \<Rightarrow> ('w, unit) prog) \<Rightarrow> nat \<Rightarrow> ('w \<Rightarrow> bool \<times> 'w) \<Rightarrow> 'w ctx \<Rightarrow>
    ('w, gerror option option) prog" where
  "Web_Test T Deps fuel get ctx =
     pbind (Deps (Web_Build T)) (\<lambda>_.
     pbind (sys (RunV T [''go'', ''test'', ''-race'', ''-count=1'', ''./...''])) (\<lambda>err. case err of
         Some err \<Rightarrow> Return (Some (Some err))
       | None \<Rightarrow>
     pbind (probe (TempDir T)) (\<lambda>tmp.
     let tmpBin = path_join tmp ''shmring-devserver'' in
     pbind (sys (RunV T [''go'', ''build'', ''-o'', tmpBin, ''./web/devserver''])) (\<lambda>err. case err of
         Some err \<Rightarrow> Return (Some (Some err))
       | None \<Rightarrow>
     pbind (sys (CmdStart T [tmpBin, ''-addr'', ''localhost:8099''])) (\<lambda>srv. case srv of
         Inl err \<Rightarrow> pbind (sys (RemovePath T tmpBin)) (\<lambda>_. Return (Some (Some (ErrorfW ''starting devserver: '' err))))
       | Inr pid \<Rightarrow>
     let deferred = (\<lambda>res. pbind (sys (KillProcess T pid)) (\<lambda>_. pbind (sys (RemovePath T tmpBin)) (\<lambda>_. Return res))) in
     pbind (waitForServer fuel get ctx) (\<lambda>res. case res of
         None \<Rightarrow> Return None
       | Some (Some err) \<Rightarrow> deferred (Some (Some err))
       | Some None \<Rightarrow> pbind (sys (RunV T [''node'', ''web/e2e/test.mjs'', ''http://localhost:8099''])) (\<lambda>err. deferred (Some err))))))))"

definition Web_Lint :: "'w tools \<Rightarrow> ('w, gerror option) prog" where
  "Web_Lint T = and_then
     (sys (RunV T [''cargo'', ''clippy'', ''--manifest-path'', rustManifest, ''--target'', ''wasm32-unknown-unknown'', ''--lib'', ''--'', ''-D'', ''warnings'']))
     (runEnv T [] [''golangci-lint'', ''run''])"

definition Web_Serve :: "'w tools \<Rightarrow> ('w, gerror option) prog" where
  "Web_Serve T = sys (RunV T [''go'', ''run'', ''./web/devserver''])"

definition Web_Clean :: "'w tools \<Rightarrow> ('w, gerror option) prog" where
  "Web_Clean T = and_then (sys (Rm T ''rust/pkg'')) (and_then (sys (Rm T wasmOut))
     (for_each (\<lambda>name. sys (Rm T (path_join ''web'' name))) [''shmring_wasm.js'', ''shmring_wasm_bg.wasm'']))"

definition Npm_Build :: "'w tools \<Rightarrow> (('w, gerror option) prog \<Rightarrow> ('w, unit) prog) \<Rightarrow> ('w, gerror option) prog" where
  "Npm_Build T Deps = pbind (Deps (Web_Build T)) (\<lambda>_.
     and_then (sys (CopyFile T (path_join ''npm'' ''shmring_wasm.js'') (path_join ''web'' ''shmring_wasm.js'')))
     (and_then (sys (CopyFile T (path_join ''npm'' ''shmring_wasm_bg.wasm'') (path_join ''web'' ''shmring_wasm_bg.wasm'')))
       (sys (CopyFile T (path_join ''npm'' ''shmring.js'') (path_join ''web'' ''shmring.js'')))))"




lemma run_and_then [run_simps]:
  "run (and_then p q) w = (case run p w of (Done None, w') \<Rightarrow> run q w' | r \<Rightarrow> r)"
  by (auto simp: and_then_def run_basic split: prod.splits outcome.splits option.splits)


section \<open>Without \<^verbatim>\<open>wine\<close> the Windows tests are only vetted\<close>

lemma Windows_Test_vets:
  assumes "LookPath T mingw w" "\<not> LookPath T ''wine64'' w" "\<not> LookPath T ''wine'' w"
  shows "run (Windows_Test T) w = map_prod Done id
    (CmdRun T [(''GOOS'', ''windows''), (''GOARCH'', ''amd64''), (''CGO_ENABLED'', ''1''), (''CC'', mingw)] [''go'', ''vet'', ''./...''] w)"
  using assms by (simp add: Windows_Test_def Windows_env_def lookPath_def runEnv_def Let_def run_simps map_prod_def split_beta)


section \<open>A small machine to build on\<close>

text \<open>
  Files, the started and killed processes, and a clock that the pauses advance. Every tool
  succeeds; the server answers from the third pause on, and the context gives up after 100.
\<close>

datatype event = Started nat | Killed nat | Removed string

record desk =
  k_file :: "string \<Rightarrow> string option"
  k_log :: "event list"
  k_clock :: nat

definition below :: "string \<Rightarrow> string \<Rightarrow> bool" where
  "below p q \<longleftrightarrow> q = p \<or> take (length p + 1) q = p @ ''/''"

definition desk_rm :: "string \<Rightarrow> desk \<Rightarrow> desk" where
  "desk_rm p w = w\<lparr>k_file := (\<lambda>q. if below p q then None else k_file w q)\<rparr>"

definition desk_tools :: "desk tools" where
  "desk_tools =
     \<lparr>RunV = (\<lambda>args w. (None, if args \<noteq> [] \<and> hd args = ''wasm-pack''
        then w\<lparr>k_file := (k_file w)(''rust/pkg/shmring_wasm.js'' \<mapsto> ''glue'', ''rust/pkg/shmring_wasm_bg.wasm'' \<mapsto> ''wasm'')\<rparr> else w)),
      Rm = (\<lambda>p w. (None, desk_rm p w)),
      CopyFile = (\<lambda>dst src w. case k_file w src of None \<Rightarrow> (Some (Errno 2), w)
        | Some d \<Rightarrow> (None, w\<lparr>k_file := (k_file w)(dst \<mapsto> d)\<rparr>)),
      CmdRun = (\<lambda>env args w. (None, w)),
      CmdStart = (\<lambda>args w. (Inr 7, w\<lparr>k_log := k_log w @ [Started 7]\<rparr>)),
      KillProcess = (\<lambda>pid w. (None, w\<lparr>k_log := k_log w @ [Killed pid]\<rparr>)),
      RemovePath = (\<lambda>p w. (None, w\<lparr>k_log := k_log w @ [Removed p]\<rparr>)),
      MkdirAll = (\<lambda>p w. (None, w)),
      LookPath = (\<lambda>name w. True),
      Getenv = (\<lambda>name w. []),
      StatOk = (\<lambda>p w. k_file w p \<noteq> None),
      Glob = (\<lambda>pat w. []),
      TempDir = (\<lambda>w. ''/tmp''),
      GOOS = ''linux''\<rparr>"

definition desk_get :: "desk \<Rightarrow> bool \<times> desk" where
  "desk_get w = (3 \<le> k_clock w, w)"

definition desk_ctx :: "desk ctx" where
  "desk_ctx = \<lparr>ctx_Err = (\<lambda>w. if k_clock w < 100 then None else Some DeadlineExceeded), ctx_DoneNil = False, ctx_Deadline = None,
     ctx_Select = (\<lambda>d. sys (\<lambda>w. if k_clock w < 100 then (None, w\<lparr>k_clock := k_clock w + 1\<rparr>) else (Some DeadlineExceeded, w)))\<rparr>"

definition desk_Deps :: "('w, gerror option) prog \<Rightarrow> ('w, unit) prog" where
  "desk_Deps p = pbind p (\<lambda>err. case err of None \<Rightarrow> Return () | Some e \<Rightarrow> Crash (PanicMsg ''os.Exit''))"

definition desk0 :: desk where
  "desk0 = \<lparr>k_file = [''web/shmring.js'' \<mapsto> ''wrapper'', ''npm/package.json'' \<mapsto> ''{}''], k_log = [], k_clock = 0\<rparr>"

lemmas desk_defs = desk_tools_def desk_get_def desk_ctx_def desk_Deps_def desk0_def desk_rm_def below_def


section \<open>The server that the browser test starts\<close>

text \<open>
  What has happened to processes and temporary files, in order. \<open>left\<close> bounds the number of
  pauses that the context's timeout still has room for.
\<close>

locale build_log =
  fixes T :: "'w tools" and get :: "'w \<Rightarrow> bool \<times> 'w" and ctx :: "'w ctx"
    and log :: "'w \<Rightarrow> event list" and left :: "'w \<Rightarrow> nat"
  assumes log_RunV: "log (snd (RunV T args w)) = log w"
    and log_CmdStart: "log (snd (CmdStart T args w)) = log w @ (case fst (CmdStart T args w) of Inl e \<Rightarrow> [] | Inr pid \<Rightarrow> [Started pid])"
    and log_Kill: "log (snd (KillProcess T pid w)) = log w @ [Killed pid]"
    and log_Remove: "log (snd (RemovePath T path w)) = log w @ [Removed path]"
    and get_quiet: "log (snd (get w)) = log w" "left (snd (get w)) \<le> left w"
    and select: "\<exists>r w'. run (ctx_Select ctx d) w = (Done r, w') \<and> log w' = log w \<and> (r = None \<longrightarrow> left w' < left w)"
begin

lemma waitForServer_returns:
  assumes "left w < fuel"
  shows "\<exists>res w'. run (waitForServer fuel get ctx) w = (Done (Some res), w') \<and> log w' = log w"
  using assms
proof (induction fuel arbitrary: w)
  case (Suc fuel)
  obtain ok w1 where g: "get w = (ok, w1)" by fastforce
  with get_quiet [of w] have w1: "log w1 = log w" "left w1 \<le> left w" by auto
  obtain r w2 where s: "run (ctx_Select ctx (100 * 1000000)) w1 = (Done r, w2)" "log w2 = log w1" "r = None \<longrightarrow> left w2 < left w1"
    using select [of "100 * 1000000" w1] by blast
  show ?case
  proof (cases "ok \<or> r \<noteq> None")
    case True
    then show ?thesis using g w1 s by (auto simp: run_pbind run_sys)
  next
    case False
    then have "left w2 < fuel" using Suc.prems w1 s by simp
    from Suc.IH [OF this] False show ?thesis using g w1 s by (simp add: run_pbind run_sys)
  qed
qed simp

text \<open>The two deferred calls of \<^verbatim>\<open>Web.Test\<close>.\<close>

lemma log_deferred:
  "\<exists>w'. run (pbind (sys (KillProcess T pid)) (\<lambda>_. pbind (sys (RemovePath T path)) (\<lambda>_. Return res))) w = (Done res, w') \<and>
     log w' = log w @ [Killed pid, Removed path]"
  by (simp add: run_pbind run_sys log_Kill log_Remove)

lemma Web_Test_log:
  assumes "run (Deps (Web_Build T)) w = (Done (), w1)" "\<And>w. left w < fuel"
  shows "\<exists>res w' tmpBin. run (Web_Test T Deps fuel get ctx) w = (Done (Some res), w') \<and>
    (res \<noteq> None \<and> log w' = log w1 \<or>
     (\<exists>e. res = Some (ErrorfW ''starting devserver: '' e)) \<and> log w' = log w1 @ [Removed tmpBin] \<or>
     (\<exists>pid. log w' = log w1 @ [Started pid, Killed pid, Removed tmpBin]))"
proof -
  obtain err2 w2 where r2: "RunV T [''go'', ''test'', ''-race'', ''-count=1'', ''./...''] w1 = (err2, w2)" by fastforce
  define tmpBin where "tmpBin = path_join (TempDir T w2) ''shmring-devserver''"
  obtain err3 w3 where r3: "RunV T [''go'', ''build'', ''-o'', tmpBin, ''./web/devserver''] w2 = (err3, w3)" by fastforce
  obtain srv w4 where r4: "CmdStart T [tmpBin, ''-addr'', ''localhost:8099''] w3 = (srv, w4)" by fastforce
  note steps = run_pbind run_sys run_probe Web_Test_def assms(1) r2 r3 r4 Let_def tmpBin_def [symmetric]
  have w3: "log w2 = log w1" "log w3 = log w1"
    using log_RunV [of _ w1] log_RunV [of _ w2] r2 r3 by (metis snd_conv)+
  have w4: "log w4 = log w1 @ (case srv of Inl e \<Rightarrow> [] | Inr pid \<Rightarrow> [Started pid])"
    using log_CmdStart [of "[tmpBin, ''-addr'', ''localhost:8099'']" w3] r4 w3 by simp
  consider "err2 \<noteq> None \<or> err3 \<noteq> None" | e where "err2 = None" "err3 = None" "srv = Inl e"
    | pid where "err2 = None" "err3 = None" "srv = Inr pid" by (cases srv) auto
  then show ?thesis
  proof cases
    case 1
    then show ?thesis using w3 by (cases err2) (auto simp: steps)
  next
    case 2
    then show ?thesis using w4 log_Remove [of tmpBin w4] by (auto simp: steps)
  next
    case 3
    obtain res w5 where wait: "run (waitForServer fuel get ctx) w4 = (Done (Some res), w5)" "log w5 = log w4"
      using waitForServer_returns [OF assms(2) [of w4]] by blast
    obtain err6 w6 where r6: "RunV T [''node'', ''web/e2e/test.mjs'', ''http://localhost:8099''] w5 = (err6, w6)" by fastforce
    have w6: "log w6 = log w5" using log_RunV [of _ w5] r6 by (metis snd_conv)
    define wl where "wl = (if res = None then w6 else w5)"
    have "log wl = log w1 @ [Started pid]" using w4 3 wait(2) w6 by (simp add: wl_def)
    moreover obtain w7 where "\<And>r. run (pbind (sys (KillProcess T pid)) (\<lambda>_. pbind (sys (RemovePath T tmpBin)) (\<lambda>_. Return r))) wl = (Done r, w7)"
        "log w7 = log wl @ [Killed pid, Removed tmpBin]"
      using log_deferred [of pid tmpBin _ wl] by (auto simp: run_pbind run_sys)
    ultimately show ?thesis
      using 3 wait(1) r6 by (cases res) (auto simp: steps wl_def)
  qed
qed

end

interpretation desk: build_log desk_tools desk_get desk_ctx k_log "\<lambda>w. 100 - k_clock w"
  by unfold_locales (auto simp: desk_defs run_sys)





section \<open>The files of the npm package\<close>

text \<open>
  What the targets rely on the copies and removals for when they succeed; \<^verbatim>\<open>sh.Rm\<close> removes a
  directory with all that is below it.
\<close>

locale build_files =
  fixes T :: "'w tools" and fs :: "'w \<Rightarrow> string \<Rightarrow> string option"
  assumes copy: "CopyFile T dst src w = (None, w') \<Longrightarrow> fs w src \<noteq> None \<and> fs w' = (fs w)(dst := fs w src)"
    and rm: "Rm T p w = (None, w') \<Longrightarrow> fs w' = (\<lambda>q. if below p q then None else fs w q)"
begin

lemma run_copy:
  "run (and_then (sys (CopyFile T dst src)) q) w = (Done None, w') \<longleftrightarrow>
    (\<exists>w1. CopyFile T dst src w = (None, w1) \<and> run q w1 = (Done None, w'))"
  by (auto simp: run_and_then run_sys split: option.splits prod.splits) (metis prod.collapse)+

lemma Rm_all:
  assumes "run (for_each (\<lambda>f. sys (Rm T (path_join d f))) names) w = (Done None, w')"
  shows "fs w' = (\<lambda>q. if \<exists>f\<in>set names. below (path_join d f) q then None else fs w q)"
  using assms
proof (induction names arbitrary: w)
  case (Cons f names)
  obtain w1 where "Rm T (path_join d f) w = (None, w1)" "run (for_each (\<lambda>f. sys (Rm T (path_join d f))) names) w1 = (Done None, w')"
    using Cons.prems by (auto simp: run_and_then run_sys split: option.splits) (metis prod.collapse)
  with Cons.IH [of w1] rm show ?case by auto
qed simp

lemma Npm_Build_files:
  assumes "run (Deps (Web_Build T)) w = (Done (), w1)" "run (Npm_Build T Deps) w = (Done None, w2)"
  defines "js \<equiv> ''shmring_wasm.js''" and "wasm \<equiv> ''shmring_wasm_bg.wasm''" and "wrapper \<equiv> ''shmring.js''"
  shows "fs w1 (path_join ''web'' js) \<noteq> None \<and> fs w1 (path_join ''web'' wasm) \<noteq> None \<and> fs w1 (path_join ''web'' wrapper) \<noteq> None \<and>
    fs w2 = (fs w1)(path_join ''npm'' js := fs w1 (path_join ''web'' js), path_join ''npm'' wasm := fs w1 (path_join ''web'' wasm),
      path_join ''npm'' wrapper := fs w1 (path_join ''web'' wrapper))"
proof -
  obtain v1 v2 where "CopyFile T (path_join ''npm'' js) (path_join ''web'' js) w1 = (None, v1)"
      "CopyFile T (path_join ''npm'' wasm) (path_join ''web'' wasm) v1 = (None, v2)"
      "CopyFile T (path_join ''npm'' wrapper) (path_join ''web'' wrapper) v2 = (None, w2)"
    using assms(1,2) unfolding js_def wasm_def wrapper_def
    by (auto simp: Npm_Build_def run_pbind run_copy run_sys) (metis prod.collapse)
  then have "fs w1 (path_join ''web'' js) \<noteq> None" "fs v1 = (fs w1)(path_join ''npm'' js := fs w1 (path_join ''web'' js))"
      "fs v1 (path_join ''web'' wasm) \<noteq> None" "fs v2 = (fs v1)(path_join ''npm'' wasm := fs v1 (path_join ''web'' wasm))"
      "fs v2 (path_join ''web'' wrapper) \<noteq> None" "fs w2 = (fs v2)(path_join ''npm'' wrapper := fs v2 (path_join ''web'' wrapper))"
    by (meson copy)+
  then show ?thesis by (simp add: path_join_def js_def wasm_def wrapper_def)
qed

end

interpretation desk: build_files desk_tools k_file
  by unfold_locales (auto simp: desk_defs split: option.splits)




end
