(* ===== verification/Wakeups.thy ===== *)
theory Wakeups
  imports ShmNative Android
begin

text \<open>
  Blocking calls over a storage whose \<^verbatim>\<open>Wait\<close> sleeps until it is woken: no wake-up for data is
  lost. \<open>spsc_run\<close> keeps, for each side, whether it has stored its counter and still owes the
  wake-up; from that, a configuration in which neither thread can go on is characterised.
  Linux's and Android's storages keep the contract of waiting wherever the operating system's
  futexes keep theirs (locale \<open>futexes\<close>).
\<close>

section \<open>Where neither side can go on\<close>

definition returned :: "('w, 'a) prog \<Rightarrow> bool" where
  "returned p \<longleftrightarrow> (\<exists>a. p = Return a)"

text \<open>
  A sender that has not finished faces a full ring, and a receiver an empty one. In particular
  they never sleep both.
\<close>

lemma spsc_stuck:
  assumes "waking_storage SW data live (Some f)" "waking_storage SR data live (Some f)"
    and "ctx_ok data live c1" "ctx_ok data live c2"
    and "live s" "w_st w = SW" "r_st r = SR" "pair_inv cap (data s) w r"
    and "par_run ss (send f1 c1 ps w, receive f2 c2 bs r, s) = (p', q', s')"
    and stuck: "tstep p' s' = None" "tstep q' s' = None" "\<not> out_of_fuel p'" "\<not> out_of_fuel q'"
  shows "(returned p' \<or> length (contents cap (data s')) = cap) \<and> (returned q' \<or> contents cap (data s') = []) \<and>
    (returned p' \<or> returned q')"
proof -
  obtain g where g: "ring_ok cap (data s')"
      "returned p' \<and> \<not> wdebt g \<or> writer_asleep data (Some f) cap s' g"
      "returned q' \<and> \<not> rdebt g \<or> reader_asleep data (Some f) cap s' g"
    using spsc_run [OF assms(1-9), of undefined undefined] stuck
    by (auto simp: spsc_inv_def returned_def)
  then have "\<not> wdebt g" "\<not> rdebt g" by (auto simp: writer_asleep_def reader_asleep_def)
  with g have "returned p' \<or> used (data s') = cap" "returned q' \<or> used (data s') = 0"
    by (auto simp: writer_asleep_def reader_asleep_def)
  moreover have "0 < cap" using g(1) cap_ok_bounds by (auto simp: ring_ok_def)
  moreover have "contents cap (data s') = [] \<longleftrightarrow> used (data s') = 0"
    by (metis length_0_conv length_contents)
  ultimately show ?thesis by auto
qed


section \<open>The mapped storages keep the contract of waiting\<close>

context waking_memory
begin

lemma sleeps_futexWait:
  assumes "i + 4 \<le> len"
  shows "sleeps (\<lambda>w. live w \<and> i + 4 \<le> length (data w)) (\<lambda>w w'. live w' \<and> data w' = data w \<and> same_wakes (Some wk) w w')
    (asleep data (Some wk) i v)
    (pbind (query (\<lambda>_. wordAt \<lparr>handle = m, slen = len\<rparr> (int i))) (\<lambda>a.
       futexWaitWord OS \<lparr>handle = m, slen = len\<rparr> a v d)) w"
proof -
  have "sleeps (\<lambda>w. live w \<and> i + 4 \<le> length (data w)) (\<lambda>w w'. live w' \<and> data w' = data w \<and> same_wakes (Some wk) w w')
      (asleep data (Some wk) i v) (FutexWait OS m i v t) w" for t w
    by (rule sleeps_weaken [OF wait_sleeps [OF assms]]) (auto simp: asleep_def same_wakes_def)
  then show ?thesis
    unfolding wordAt_ok [OF assms] query_def call_def
    by (simp add: pbind_Atomic sleeps_Atomic futexWaitWord_def same_wakes_def del: pbind.simps(2))
qed

lemma futexWake_woken:
  "live w \<Longrightarrow> i + 4 \<le> len \<Longrightarrow> woken (Some wk) i w (futexWakeWord OS \<lparr>handle = m, slen = len\<rparr> i w)"
  using wake_wakes [of w i wakeAll] by (simp add: futexWakeWord_def woken_def wakeAll_def)

lemma copyIn_same_wakes: "copyIn OS \<lparr>handle = m, slen = len\<rparr> p off w = (r, w') \<Longrightarrow> same_wakes (Some wk) w w'"
  by (auto simp: copyIn_def Let_def same_wakes_def store_wakes split: if_splits option.splits)

end

lemma shm_waking:
  assumes M: "waking_memory OS m len data live wk" and S: "shm_mapping OS m len data live s"
  shows "waking_storage (shm_storage OS s) data live (Some wk)"
proof -
  note mem = waking_memory.axioms(1) [OF M]
  have s: "sh_mem s = \<lparr>handle = m, slen = len\<rparr>" using S by (simp add: shm_mapping_def shm_mapping_axioms_def)
  show ?thesis
  proof (rule waking_storage.intro [OF shm_mapping.lawful [OF S]], unfold_locales, unfold shm_storage_simps, goal_cases)
    case (1 p off w r w')
    then show ?case using waking_memory.copyIn_same_wakes [OF M, of p off w]
      by (auto simp: shm_WriteAt_def s same_wakes_def split: if_splits prod.splits go.splits)
  next
    case (4 u w i y w')
    then have "i + 4 \<le> len" using mapped_memory.length_data [OF mem] by auto
    with 4 show ?case
      using mapped_memory.wordAt_ok [OF mem, of i] waking_memory.futexWake_woken [OF M, of w i]
      by (auto simp: shm_Wake_def s)
  next
    case (5 u w i v d w0)
    then have "i + 4 \<le> len" using mapped_memory.length_data [OF mem] by auto
    with 5 show ?case
      using waking_memory.sleeps_futexWait [OF M, of i v d w0] by (auto simp: shm_Wait_def s)
  qed auto
qed

lemma android_waking:
  assumes M: "waking_memory OS m len data live wk" and S: "android_mapping OS m len data live s"
  shows "waking_storage (android_storage OS s) data live (Some wk)"
proof -
  note mem = waking_memory.axioms(1) [OF M]
  have s: "a_mem s = \<lparr>handle = m, slen = len\<rparr>" using S by (simp add: android_mapping_def android_mapping_axioms_def)
  show ?thesis
  proof (rule waking_storage.intro [OF android_mapping.lawful [OF S]], unfold_locales, unfold android_storage_simps, goal_cases)
    case (1 p off w r w')
    then show ?case using waking_memory.copyIn_same_wakes [OF M, of p off w]
      by (auto simp: android_WriteAt_def s same_wakes_def split: if_splits prod.splits go.splits)
  next
    case (4 u w i y w')
    then have "i + 4 \<le> len" using mapped_memory.length_data [OF mem] by auto
    with 4 show ?case
      using mapped_memory.wordAt_ok [OF mem, of i] waking_memory.futexWake_woken [OF M, of w i]
      by (auto simp: android_Wake_def s)
  next
    case (5 u w i v d w0)
    then have "i + 4 \<le> len" using mapped_memory.length_data [OF mem] by auto
    with 5 show ?case
      using waking_memory.sleeps_futexWait [OF M, of i v d w0] by (auto simp: android_Wait_def s)
  qed auto
qed

context futexes
begin

lemma shm_live_waking:
  assumes "m \<in> ms" "nat sz = len" "0 \<le> sz"
  shows "waking_storage (shm_storage OS (shm_of m sz own path)) (\<lambda>w. bytes w ino) (backed dir bytes fds maps ms ino len w0)
    (Some (\<lambda>w. wakes w ino))"
proof -
  have "shm_mapping OS m len (\<lambda>w. bytes w ino) (backed dir bytes fds maps ms ino len w0) (shm_of m sz own path)"
    using mapped [OF assms(1)] assms(2,3) by (intro shm_mapping.intro shm_mapping_axioms.intro) auto
  then show ?thesis by (rule shm_waking [OF mapped_waking [OF assms(1)]])
qed

lemma android_live_waking:
  assumes "m \<in> ms" "nat sz = len" "0 \<le> sz"
  shows "waking_storage (android_storage OS (android_of fd m sz)) (\<lambda>w. bytes w ino) (backed dir bytes fds maps ms ino len w0)
    (Some (\<lambda>w. wakes w ino))"
proof -
  have "android_mapping OS m len (\<lambda>w. bytes w ino) (backed dir bytes fds maps ms ino len w0) (android_of fd m sz)"
    using mapped [OF assms(1)] assms(2,3) by (intro android_mapping.intro android_mapping_axioms.intro) auto
  then show ?thesis by (rule android_waking [OF mapped_waking [OF assms(1)]])
qed

end

interpretation kernel_waiting: waking_storage "shm_storage kernel_os (shm_of m (int len) own path)" "\<lambda>k. k_file k ino"
    "backed k_dir k_file k_fd k_map (insert m ms) ino len k0" "Some (\<lambda>k. k_wakes k ino)"
  for m ms ino len k0 own path
  by (rule kernel.shm_live_waking) simp_all


section \<open>Properties\<close>

text \<open>
  C9: on Linux no wake-up for data is lost. Over every operating system that keeps the laws of
  files, mappings and futexes, once \<^verbatim>\<open>CreateShm\<close> and \<^verbatim>\<open>OpenShm\<close> have succeeded, the sending and
  the receiving process never deadlock, for any chunk and buffer sizes and any schedule. If neither can take a step, one of them has finished, and the other, if it has
  not, sleeps on a ring that is full (the sender) or empty (the receiver); unless a loop has used
  up its fuel, which takes as many wake-ups as the fuel has rounds.
\<close>

theorem shm_no_deadlock:
  assumes "futexes OS dir bytes fds maps page wakes"
    and "run (CreateShm (linux_create OS) name c opts) w0 = (Done (Inr w), w1)"
    and "run (OpenShm (linux_open OS) name c opts') w1 = (Done (Inr r), w2)"
    and "par_run ss (send f1 Background ps w, receive f2 Background bs r, w2) = (p', q', w3)"
    and "tstep p' w3 = None" "tstep q' w3 = None" "\<not> out_of_fuel p'" "\<not> out_of_fuel q'"
  shows "\<exists>path ino. shmPath name = Inr path \<and> dir w2 path = Some ino \<and>
    (returned p' \<or> length (contents (nat c) (bytes w3 ino)) = nat c) \<and>
    (returned q' \<or> contents (nat c) (bytes w3 ino) = []) \<and> (returned p' \<or> returned q')"
proof -
  have posix: "posix OS dir bytes fds maps page" using assms(1) by (rule futexes.axioms(1))
  obtain k path m1 m2 ino where c: "c = 2 ^ k" "k \<le> 30" and path: "shmPath name = Inr path" "dir w2 path = Some ino"
    and st: "w_st w = shm_storage OS (shm_of m1 (64 + 2 ^ k) True path)"
      "r_st r = shm_storage OS (shm_of m2 (64 + 2 ^ k) False path)"
    and live: "backed dir bytes fds maps {m1, m2} ino (64 + 2 ^ k) w2 w2" and inv: "pair_inv (2 ^ k) (bytes w2 ino) w r"
    by (rule posix.shm_setup [OF posix assms(2,3)])
  have S: "waking_storage (shm_storage OS (shm_of m1 (64 + 2 ^ k) True path)) (\<lambda>w. bytes w ino)
      (backed dir bytes fds maps {m1, m2} ino (64 + 2 ^ k) w2) (Some (\<lambda>w. wakes w ino))"
    "waking_storage (shm_storage OS (shm_of m2 (64 + 2 ^ k) False path)) (\<lambda>w. bytes w ino)
      (backed dir bytes fds maps {m1, m2} ino (64 + 2 ^ k) w2) (Some (\<lambda>w. wakes w ino))"
    by (rule futexes.shm_live_waking [OF assms(1)]; use segment_size(4) [OF c(2)] in simp)+
  show ?thesis
    using spsc_stuck [OF S Background_ok Background_ok live st inv assms(4-8)] path by (auto simp: c(1) nat_power_eq)
qed

text \<open>A sender of six bytes on a ring of four, and a receiver that reads nothing: the sender sleeps.\<close>

lemma kernel_sender_sleeps:
  obtains w k1 r k2 p' q' k3 where "run (CreateShm (linux_create kernel_os) ''x'' 4 []) kernel0 = (Done (Inr w), k1)"
    "run (OpenShm (linux_open kernel_os) ''x'' 4 []) k1 = (Done (Inr r), k2)"
    "par_run (replicate 20 WriterSide) (send 9 Background [[1, 2, 3], [4, 5, 6]] w, receive 9 Background [] r, k2) = (p', q', k3)"
    "tstep p' k3 = None" "tstep q' k3 = None" "\<not> returned p'" "\<not> out_of_fuel p'" "returned q'"
proof -
  let ?run = "\<lambda>w r k2. par_run (replicate 20 WriterSide)
    (send 9 Background [[1, 2, 3], [4, 5, 6]] w, receive 9 Background [] r, k2)"
  have "case run (CreateShm (linux_create kernel_os) ''x'' 4 []) kernel0 of
      (Done (Inr w), k1) \<Rightarrow> (case run (OpenShm (linux_open kernel_os) ''x'' 4 []) k1 of
        (Done (Inr r), k2) \<Rightarrow> (case ?run w r k2 of
          (Await b p, Return a, k3) \<Rightarrow> \<not> b k3 \<and> b (k3\<lparr>k_wakes := \<lambda>_ _. 9\<rparr>) | _ \<Rightarrow> False) | _ \<Rightarrow> False)
    | _ \<Rightarrow> False"
    by code_simp
  moreover obtain w k1 r k2 where run: "run (CreateShm (linux_create kernel_os) ''x'' 4 []) kernel0 = (Done (Inr w), k1)"
    "run (OpenShm (linux_open kernel_os) ''x'' 4 []) k1 = (Done (Inr r), k2)"
    by (rule kernel_pair)
  moreover obtain p' q' k3 where par: "?run w r k2 = (p', q', k3)" by (metis prod.exhaust)
  ultimately have "case (p', q', k3) of
      (Await b p, Return a, k3) \<Rightarrow> \<not> b k3 \<and> b (k3\<lparr>k_wakes := \<lambda>_ _. 9\<rparr>) | _ \<Rightarrow> False" by simp
  then obtain b p a where "p' = Await b p" "q' = Return a" "\<not> b k3" "b (k3\<lparr>k_wakes := \<lambda>_ _. 9\<rparr>)"
    by (auto split: prog.splits)
  then show ?thesis
    by (cases a) (intro that [OF run par], auto simp: returned_def out_of_fuel_def hopeless_def)
qed

theorem shm_no_deadlock_witness:
  "\<exists>w k1 r k2 p' q' k3 ino. run (CreateShm (linux_create kernel_os) ''x'' 4 []) kernel0 = (Done (Inr w), k1) \<and>
    run (OpenShm (linux_open kernel_os) ''x'' 4 []) k1 = (Done (Inr r), k2) \<and>
    par_run (replicate 20 WriterSide) (send 9 Background [[1, 2, 3], [4, 5, 6]] w, receive 9 Background [] r, k2) = (p', q', k3) \<and>
    \<not> returned p' \<and> length (contents 4 (k_file k3 ino)) = 4"
proof -
  obtain w k1 r k2 p' q' k3 where run: "run (CreateShm (linux_create kernel_os) ''x'' 4 []) kernel0 = (Done (Inr w), k1)"
    "run (OpenShm (linux_open kernel_os) ''x'' 4 []) k1 = (Done (Inr r), k2)"
    "par_run (replicate 20 WriterSide) (send 9 Background [[1, 2, 3], [4, 5, 6]] w, receive 9 Background [] r, k2) = (p', q', k3)"
    and stuck: "tstep p' k3 = None" "tstep q' k3 = None" "\<not> out_of_fuel p'" and p: "\<not> returned p'" and q: "returned q'"
    by (rule kernel_sender_sleeps)
  have "\<not> out_of_fuel q'" using q by (auto simp: returned_def out_of_fuel_def)
  from shm_no_deadlock [OF kernel.futexes_axioms run stuck this] p obtain ino where "length (contents 4 (k_file k3 ino)) = 4" by auto
  with run p show ?thesis by blast
qed

text \<open>The same on Android, where the descriptor is what the processes share.\<close>

theorem android_no_deadlock:
  assumes "futexes OS dir bytes fds maps page wakes"
    and "run (CreateAndroidSharedMemory OS name c opts) w0 = (Done (Inr (w, fd)), w1)"
    and "run (OpenAndroidSharedMemory OS fd c opts') w1 = (Done (Inr r), w2)"
    and "par_run ss (send f1 Background ps w, receive f2 Background bs r, w2) = (p', q', w3)"
    and "tstep p' w3 = None" "tstep q' w3 = None" "\<not> out_of_fuel p'" "\<not> out_of_fuel q'"
  shows "\<exists>ino. (returned p' \<or> length (contents (nat c) (bytes w3 ino)) = nat c) \<and>
    (returned q' \<or> contents (nat c) (bytes w3 ino) = []) \<and> (returned p' \<or> returned q')"
proof -
  have posix: "posix OS dir bytes fds maps page" using assms(1) by (rule futexes.axioms(1))
  obtain j m1 m2 fd2 ino where j: "c = 2 ^ j" "j \<le> 31"
    and st: "w_st w = android_storage OS (android_of fd m1 (64 + 2 ^ j))"
      "r_st r = android_storage OS (android_of fd2 m2 (64 + 2 ^ j))"
    and live: "backed dir bytes fds maps {m1, m2} ino (64 + 2 ^ j) w2 w2" and inv: "pair_inv (2 ^ j) (bytes w2 ino) w r"
    by (rule posix.android_setup [OF posix assms(2,3)])
  have S: "waking_storage (android_storage OS (android_of fd m1 (64 + 2 ^ j))) (\<lambda>w. bytes w ino)
      (backed dir bytes fds maps {m1, m2} ino (64 + 2 ^ j) w2) (Some (\<lambda>w. wakes w ino))"
    "waking_storage (android_storage OS (android_of fd2 m2 (64 + 2 ^ j))) (\<lambda>w. bytes w ino)
      (backed dir bytes fds maps {m1, m2} ino (64 + 2 ^ j) w2) (Some (\<lambda>w. wakes w ino))"
    by (rule futexes.android_live_waking [OF assms(1)]; use android_size(3) [OF j(2)] in simp)+
  show ?thesis
    using spsc_stuck [OF S Background_ok Background_ok live st inv assms(4-8)] by (auto simp: j(1) nat_power_eq)
qed

end
