(* ===== verification/Fairness.thy ===== *)
theory Fairness
  imports Program
begin

text \<open>
  Infinite schedules. Each step of a program goes to one of its parts, so that every fair schedule
  of two programs comes to a point from which neither can take a step: what is left to prove is
  that they have returned there.
\<close>

section \<open>Steps are well founded\<close>

definition part :: "(('w, 'a) prog \<times> ('w, 'a) prog) set" where
  "part = {(fst (f w), Atomic f) | f w. True} \<union> {(p, Await b p) | b p. True}"

lemma wf_part: "wf (part :: (('w, 'a) prog \<times> ('w, 'a) prog) set)"
proof (rule wfUNIVI)
  fix P :: "('w, 'a) prog \<Rightarrow> bool" and p
  assume step: "\<forall>p. (\<forall>q. (q, p) \<in> part \<longrightarrow> P q) \<longrightarrow> P p"
  show "P p"
    by (induction p) (rule step [rule_format], auto simp: part_def)+
qed

lemma tstep_part: "tstep p w = Some (p', w') \<Longrightarrow> (p', p) \<in> part"
  by (cases p) (auto simp: part_def split: if_splits intro: exI [of _ w] dest: arg_cong [of _ _ fst])

section \<open>Fair schedules\<close>

type_synonym schedule = "nat \<Rightarrow> side"

definition fair :: "schedule \<Rightarrow> bool" where
  "fair \<sigma> \<longleftrightarrow> (\<forall>s n. \<exists>m\<ge>n. \<sigma> m = s)"

text \<open>The configuration after the first \<open>n\<close> choices of a schedule.\<close>

definition after ::
  "nat \<Rightarrow> schedule \<Rightarrow> ('w, 'a) prog \<times> ('w, 'b) prog \<times> 'w \<Rightarrow> ('w, 'a) prog \<times> ('w, 'b) prog \<times> 'w" where
  "after n \<sigma> c = par_run (map \<sigma> [0..<n]) c"

definition halted :: "('w, 'a) prog \<times> ('w, 'b) prog \<times> 'w \<Rightarrow> bool" where
  "halted = (\<lambda>(p, q, w). tstep p w = None \<and> tstep q w = None)"

lemma par_run_append: "par_run (ss @ ts) c = par_run ts (par_run ss c)"
  by (induction ss c rule: par_run.induct) (auto split: option.splits)

lemma after_Suc: "after (Suc n) \<sigma> c = par_run [\<sigma> n] (after n \<sigma> c)"
  by (simp add: after_def par_run_append)

lemma after_shift: "after n (\<lambda>i. \<sigma> (m + i)) (after m \<sigma> c) = after (m + n) \<sigma> c"
proof (induction n)
  case 0
  show ?case by (simp add: after_def)
next
  case (Suc n)
  then show ?case by (simp add: after_Suc)
qed

lemma fair_shift: "fair \<sigma> \<Longrightarrow> fair (\<lambda>i. \<sigma> (m + i))"
  unfolding fair_def
proof (intro allI)
  fix s n
  assume "\<forall>s n. \<exists>i\<ge>n. \<sigma> i = s"
  then obtain i where "m + n \<le> i" "\<sigma> i = s" by blast
  then show "\<exists>i\<ge>n. \<sigma> (m + i) = s" by (intro exI [of _ "i - m"]) simp
qed

lemma halted_stays: "halted c \<Longrightarrow> par_run ss c = c"
  by (induction ss c rule: par_run.induct) (auto simp: halted_def)

text \<open>One choice: nothing happens, or one of the two programs goes to a part of it.\<close>

lemma par_run_one:
  assumes "par_run [s] (p, q, w) = (p', q', w')"
  shows "(p', q', w') = (p, q, w) \<or> ((p', q'), (p, q)) \<in> part <*lex*> part"
  using assms by (cases s) (auto split: option.splits dest: tstep_part)

lemma par_run_enabled:
  assumes "par_run [s] (p, q, w) = (p, q, w)"
  shows "(case s of WriterSide \<Rightarrow> tstep p w = None | ReaderSide \<Rightarrow> tstep q w = None)"
proof -
  have "(p, p) \<notin> part" "(q, q) \<notin> part" using wf_part by (meson wf_not_refl)+
  then show ?thesis using assms by (cases s) (auto split: option.splits dest: tstep_part)
qed

theorem fair_halts:
  fixes p :: "('w, 'a) prog" and q :: "('w, 'b) prog"
  assumes "fair \<sigma>"
  shows "\<exists>n. halted (after n \<sigma> (p, q, w))"
  using assms
proof (induction "(p, q)" arbitrary: p q w \<sigma> rule: wf_induct_rule [OF wf_lex_prod [OF wf_part wf_part]])
  case 1
  show ?case
  proof (cases "\<exists>n. after n \<sigma> (p, q, w) \<noteq> (p, q, w)")
    case False
    then have same: "par_run [\<sigma> n] (p, q, w) = (p, q, w)" for n using after_Suc [of n \<sigma> "(p, q, w)"] by simp
    obtain i j where "\<sigma> i = WriterSide" "\<sigma> j = ReaderSide" using 1(2) by (meson fair_def)
    with par_run_enabled [OF same [of i]] par_run_enabled [OF same [of j]] have "halted (after 0 \<sigma> (p, q, w))"
      by (simp add: halted_def after_def)
    then show ?thesis ..
  next
    case True
    define n where "n = (LEAST n. after n \<sigma> (p, q, w) \<noteq> (p, q, w))"
    have n: "after n \<sigma> (p, q, w) \<noteq> (p, q, w)" using LeastI_ex [OF True] by (simp add: n_def)
    then obtain m where m: "n = Suc m" by (cases n) (auto simp: after_def)
    have same: "after m \<sigma> (p, q, w) = (p, q, w)" using not_less_Least [of m "\<lambda>n. after n \<sigma> (p, q, w) \<noteq> (p, q, w)"] m by (auto simp: n_def)
    obtain p' q' w' where c: "after n \<sigma> (p, q, w) = (p', q', w')" by (metis prod.exhaust)
    then have "((p', q'), (p, q)) \<in> part <*lex*> part"
      using n same par_run_one [of "\<sigma> m" p q w p' q' w'] by (auto simp: m after_Suc)
    then obtain k where "halted (after k (\<lambda>i. \<sigma> (n + i)) (p', q', w'))"
      using 1(1) [OF _ fair_shift [OF 1(2), of n]] by blast
    then have "halted (after (n + k) \<sigma> (p, q, w))" by (simp add: c flip: after_shift [of k \<sigma> n])
    then show ?thesis ..
  qed
qed

text \<open>From some choice on it stays there.\<close>

lemma fair_settles:
  assumes "fair \<sigma>"
  obtains n p' q' w' where "\<And>m. n \<le> m \<Longrightarrow> after m \<sigma> (p, q, w) = (p', q', w')" "tstep p' w' = None" "tstep q' w' = None"
    "\<exists>ss. par_run ss (p, q, w) = (p', q', w')"
proof -
  obtain n where n: "halted (after n \<sigma> (p, q, w))" using fair_halts [OF assms, of p q w] by blast
  obtain p' q' w' where c: "after n \<sigma> (p, q, w) = (p', q', w')" by (metis prod.exhaust)
  have "after m \<sigma> (p, q, w) = (p', q', w')" if "n \<le> m" for m
  proof -
    have "after (m - n) (\<lambda>i. \<sigma> (n + i)) (p', q', w') = (p', q', w')"
      using halted_stays [OF n] by (simp add: after_def [of "m - n"] c)
    then show ?thesis using after_shift [of "m - n" \<sigma> n "(p, q, w)"] that by (simp add: c)
  qed
  moreover have "par_run (map \<sigma> [0..<n]) (p, q, w) = (p', q', w')" using c by (simp add: after_def)
  moreover have "tstep p' w' = None" "tstep q' w' = None" using n c by (simp_all add: halted_def)
  ultimately show ?thesis using that [of n p' q' w'] by blast
qed

end
