(* ===== verification/Progress.thy ===== *)
theory Progress
  imports Wakeups Fairness
begin

text \<open>
  Blocking calls return. Over a storage whose \<^verbatim>\<open>Wait\<close> also ends only for a reason (locale
  \<open>prompt_storage\<close>), the rounds of a blocking call are counted: a round that makes no progress
  ends because the other side has moved its counter, or because it has been woken, and each
  byte of the stream pays for one wake-up. So a fuel that grows with the length of the stream is
  enough, and a thread that is given enough fuel stops only where it has finished.
\<close>

section \<open>A stream that is not closed\<close>

definition growing :: "byte list \<Rightarrow> bool \<Rightarrow> byte list \<Rightarrow> bool" where
  "growing xs closed x \<longleftrightarrow> \<not> closed \<and> prefix x xs"

text \<open>
  What each side knows between two calls: beside the ring, how often the other side's counter has
  been woken (at least \<open>n\<close> times), and that each wake-up has been paid for by a byte.
\<close>

definition sender_knows ::
  "('w \<Rightarrow> byte list) \<Rightarrow> ('w \<Rightarrow> bool) \<Rightarrow> ('w \<Rightarrow> nat \<Rightarrow> nat) \<Rightarrow> byte list \<Rightarrow> nat \<Rightarrow> nat \<Rightarrow> nat \<Rightarrow> 'w writer \<Rightarrow>
    byte list \<Rightarrow> 'w \<Rightarrow> hist \<Rightarrow> bool" where
  "sender_knows data live f xs cap H n h pr w g \<longleftrightarrow>
     writer_knows data live (Some f) (growing xs) cap h pr [] w g \<and>
     n \<le> f w offHead \<and> f w offHead + of_bool (rdebt g) \<le> H + length (consumed g)"

definition receiver_knows ::
  "('w \<Rightarrow> byte list) \<Rightarrow> ('w \<Rightarrow> bool) \<Rightarrow> ('w \<Rightarrow> nat \<Rightarrow> nat) \<Rightarrow> byte list \<Rightarrow> nat \<Rightarrow> nat \<Rightarrow> nat \<Rightarrow> 'w reader \<Rightarrow>
    byte list \<Rightarrow> 'w \<Rightarrow> hist \<Rightarrow> bool" where
  "receiver_knows data live f xs cap T n r co w g \<longleftrightarrow>
     reader_knows data live (Some f) (growing xs) cap r co [] w g \<and>
     n \<le> f w offTail \<and> f w offTail + of_bool (wdebt g) \<le> T + length (produced g)"

text \<open>The budgets alone, which the steps of both sides keep.\<close>

definition head_budget ::
  "('w \<Rightarrow> byte list) \<Rightarrow> ('w \<Rightarrow> bool) \<Rightarrow> ('w \<Rightarrow> nat \<Rightarrow> nat) \<Rightarrow> byte list \<Rightarrow> nat \<Rightarrow> nat \<Rightarrow> nat \<Rightarrow> 'w \<Rightarrow> hist \<Rightarrow> bool" where
  "head_budget data live f xs cap H n w g \<longleftrightarrow> spsc_inv data live (growing xs) cap w g \<and>
     n \<le> f w offHead \<and> f w offHead + of_bool (rdebt g) \<le> H + length (consumed g)"

definition tail_budget ::
  "('w \<Rightarrow> byte list) \<Rightarrow> ('w \<Rightarrow> bool) \<Rightarrow> ('w \<Rightarrow> nat \<Rightarrow> nat) \<Rightarrow> byte list \<Rightarrow> nat \<Rightarrow> nat \<Rightarrow> nat \<Rightarrow> 'w \<Rightarrow> hist \<Rightarrow> bool" where
  "tail_budget data live f xs cap T n w g \<longleftrightarrow> spsc_inv data live (growing xs) cap w g \<and>
     n \<le> f w offTail \<and> f w offTail + of_bool (wdebt g) \<le> T + length (produced g)"

lemma sender_knows_eq: "sender_knows data live f xs cap H n h pr w g \<longleftrightarrow>
    writer_knows data live (Some f) (growing xs) cap h pr [] w g \<and> head_budget data live f xs cap H n w g"
  and receiver_knows_eq: "receiver_knows data live f xs cap T n r co w g \<longleftrightarrow>
    reader_knows data live (Some f) (growing xs) cap r co [] w g \<and> tail_budget data live f xs cap T n w g"
  by (auto simp: sender_knows_def receiver_knows_def head_budget_def tail_budget_def writer_knows_def reader_knows_def)

lemma reader_step_counts:
  assumes "reader_step data live (Some f) A cap (w, g) (w', g')" "spsc_inv data live A cap w g"
  shows "spsc_inv data live A cap w' g'" "f w i \<le> f w' i" "f w' offTail = f w offTail"
    and "produced g' = produced g" "wdebt g' = wdebt g"
    and "f w' offHead + of_bool (rdebt g') + length (consumed g) \<le> f w offHead + of_bool (rdebt g) + length (consumed g')"
  using assms by (simp_all add: reader_step_def pays_def spends_def same_wake_def)

lemma writer_step_counts:
  assumes "writer_step data live (Some f) (growing xs) cap (w, g) (w', g')" "spsc_inv data live (growing xs) cap w g"
  shows "spsc_inv data live (growing xs) cap w' g'" "f w i \<le> f w' i" "f w' offHead = f w offHead"
    and "consumed g' = consumed g" "rdebt g' = rdebt g"
    and "f w' offTail + of_bool (wdebt g') + length (produced g) \<le> f w offTail + of_bool (wdebt g) + length (produced g')"
proof -
  show i: "spsc_inv data live (growing xs) cap w' g'" "f w i \<le> f w' i" "f w' offHead = f w offHead"
      "consumed g' = consumed g" "rdebt g' = rdebt g"
    using assms by (simp_all add: writer_step_def pays_def same_wake_def)
  have "\<not> ring_closed (data w')" using i(1) by (simp add: spsc_inv_def growing_def)
  then show "f w' offTail + of_bool (wdebt g') + length (produced g) \<le> f w offTail + of_bool (wdebt g) + length (produced g')"
    using assms by (simp add: writer_step_def spends_def)
qed

lemma head_budget_stable:
  "stable (reader_step data live (Some f) (growing xs) cap) (head_budget data live f xs cap H n)"
  "stable (writer_step data live (Some f) (growing xs) cap) (head_budget data live f xs cap H n)"
proof -
  show "stable (reader_step data live (Some f) (growing xs) cap) (head_budget data live f xs cap H n)"
    unfolding stable_def head_budget_def
  proof (intro allI impI, elim conjE, goal_cases)
    case (1 w g w' g')
    note c = reader_step_counts [OF 1(1,2)]
    show ?case using 1(3,4) c(1,6) c(2) [of offHead] by linarith
  qed
  show "stable (writer_step data live (Some f) (growing xs) cap) (head_budget data live f xs cap H n)"
    unfolding stable_def head_budget_def
  proof (intro allI impI, elim conjE, goal_cases)
    case (1 w g w' g')
    with writer_step_counts [OF 1(1,2)] show ?case by simp
  qed
qed

lemma tail_budget_stable:
  "stable (reader_step data live (Some f) (growing xs) cap) (tail_budget data live f xs cap T n)"
  "stable (writer_step data live (Some f) (growing xs) cap) (tail_budget data live f xs cap T n)"
proof -
  show "stable (writer_step data live (Some f) (growing xs) cap) (tail_budget data live f xs cap T n)"
    unfolding stable_def tail_budget_def
  proof (intro allI impI, elim conjE, goal_cases)
    case (1 w g w' g')
    note c = writer_step_counts [OF 1(1,2)]
    show ?case using 1(3,4) c(1,6) c(2) [of offTail] by linarith
  qed
  show "stable (reader_step data live (Some f) (growing xs) cap) (tail_budget data live f xs cap T n)"
    unfolding stable_def tail_budget_def
  proof (intro allI impI, elim conjE, goal_cases)
    case (1 w g w' g')
    with reader_step_counts [OF 1(1,2)] show ?case by simp
  qed
qed

lemma stable_conj: "stable R I \<Longrightarrow> stable R J \<Longrightarrow> stable R (\<lambda>w g. I w g \<and> J w g)"
  unfolding stable_def by blast

lemma sender_knows_stable:
  "stable (reader_step data live (Some f) (growing xs) cap) (sender_knows data live f xs cap H n h pr)"
  and receiver_knows_stable:
  "stable (writer_step data live (Some f) (growing xs) cap) (receiver_knows data live f xs cap T n r co)"
  using stable_conj [OF writer_knows_stable head_budget_stable(1)] stable_conj [OF reader_knows_stable tail_budget_stable(2)]
  by (simp_all add: stable_def sender_knows_eq receiver_knows_eq)

text \<open>A program's result together with what both sides' steps keep.\<close>

lemma rg_pbind_within:
  assumes "rg B R G Q' m w g" "I w g" "stable R I" "stable G I" "reflp R"
    and "\<And>a w g. Q' a w g \<Longrightarrow> I w g \<Longrightarrow> rg B R G Q (k a) w g"
  shows "rg B R G Q (pbind m k) w g"
proof (rule rg_pbind [OF rg_mono [OF rg_within [where I = I, OF assms(1,2)]] assms(5)])
  show "R (w, g) (w', g') \<and> I w' g'" if "I w g" "R (w, g) (w', g')" for w g w' g'
    using that stableD [OF assms(3)] by blast
  show "G (w, g) (w', g') \<and> I w' g'" if "I w g" "G (w, g) (w', g')" for w g w' g'
    using that stableD [OF assms(4)] by blast
qed (use assms(6) in blast)


section \<open>The calls\<close>

text \<open>Where a thread may be blocked: asleep, with a part of the stream still to come.\<close>

definition sender_asleep ::
  "('w \<Rightarrow> byte list) \<Rightarrow> ('w \<Rightarrow> nat \<Rightarrow> nat) \<Rightarrow> byte list \<Rightarrow> nat \<Rightarrow> ('w \<Rightarrow> bool) \<Rightarrow> 'w \<Rightarrow> hist \<Rightarrow> bool" where
  "sender_asleep data f xs cap b w g \<longleftrightarrow> writer_asleep data (Some f) cap w g \<and> length (produced g) < length xs"

definition receiver_asleep ::
  "('w \<Rightarrow> byte list) \<Rightarrow> ('w \<Rightarrow> nat \<Rightarrow> nat) \<Rightarrow> byte list \<Rightarrow> nat \<Rightarrow> ('w \<Rightarrow> bool) \<Rightarrow> 'w \<Rightarrow> hist \<Rightarrow> bool" where
  "receiver_asleep data f xs cap b w g \<longleftrightarrow> reader_asleep data (Some f) cap w g \<and> length (consumed g) < length xs"

lemma sender_knows_open:
  "sender_knows data live f xs cap H n h pr w g \<Longrightarrow>
    \<not> w_closed h \<and> prefix pr xs \<and> f w offHead \<le> H + length xs"
proof -
  assume "sender_knows data live f xs cap H n h pr w g"
  then have k: "writer_inv cap (data w) h" "produced g = pr" "spsc_inv data live (growing xs) cap w g"
      "f w offHead \<le> H + length (consumed g)"
    by (auto simp: sender_knows_def writer_knows_def)
  then have "growing xs (ring_closed (data w)) pr" "length (consumed g) \<le> length pr" by (auto simp: spsc_inv_def)
  with k show ?thesis by (auto simp: growing_def writer_inv_def dest: prefix_length_le)
qed

lemma receiver_knows_open:
  "receiver_knows data live f xs cap T n r co w g \<Longrightarrow>
    \<not> ring_closed (data w) \<and> length co \<le> length (produced g) \<and> prefix (produced g) xs \<and> f w offTail \<le> T + length xs"
proof -
  assume "receiver_knows data live f xs cap T n r co w g"
  then have k: "spsc_inv data live (growing xs) cap w g" "consumed g = co" "f w offTail \<le> T + length (produced g)"
    by (auto simp: receiver_knows_def reader_knows_def)
  then have "growing xs (ring_closed (data w)) (produced g)" "length co \<le> length (produced g)" by (auto simp: spsc_inv_def)
  with k show ?thesis by (auto simp: growing_def dest: prefix_length_le)
qed

text \<open>Two views of one counter differ in how far it is from the other counter.\<close>

lemma unat_distance:
  fixes t a b :: u32
  shows "unat (t - a) = unat (t - b) \<longleftrightarrow> a = b" "0 < unat (t - a) \<longleftrightarrow> t \<noteq> a"
  by (simp flip: word_unat_eq_iff) (simp add: unat_gt_0)

context prompt_storage
begin

text \<open>Without a cancellable context, a round of waiting is one \<^verbatim>\<open>Wait\<close> without a timeout.\<close>

lemma blockRound_Background:
  assumes "WaiterStorage S = Some u"
  shows "pbind (blockRound S i v opts Background wait) k =
    pbind (pbind (query (\<lambda>_. Ok ())) (\<lambda>_. Wait u (int i) v 0)) (\<lambda>_. k (Inr wait))"
  by (simp add: blockRound_def waitSlice_def assms query_def call_def pbind_assoc)

lemma dozes:
  assumes "WaiterStorage S = Some u" "live w" "i + 4 \<le> length (data w)" "4 dvd i"
  shows "sleeps (\<lambda>w. live w \<and> i + 4 \<le> length (data w) \<and> n \<le> f w i)
      (\<lambda>w w'. live w' \<and> data w' = data w \<and> same_wakes (Some f) w w') (asleep data (Some f) i v)
      (pbind (query (\<lambda>_. Ok ())) (\<lambda>_. Wait u (int i) v 0)) w"
    and "ends (\<lambda>w. live w \<and> i + 4 \<le> length (data w) \<and> n \<le> f w i) (\<lambda>w. u32_at (data w) i \<noteq> v \<or> n < f w i)
      (pbind (query (\<lambda>_. Ok ())) (\<lambda>_. Wait u (int i) v 0)) w"
proof -
  show "sleeps (\<lambda>w. live w \<and> i + 4 \<le> length (data w) \<and> n \<le> f w i)
      (\<lambda>w w'. live w' \<and> data w' = data w \<and> same_wakes (Some f) w w') (asleep data (Some f) i v)
      (pbind (query (\<lambda>_. Ok ())) (\<lambda>_. Wait u (int i) v 0)) w"
    by (rule sleeps_pbind [OF sleeps_query sleeps_weaken [OF wait_sleeps [OF assms]]]) (auto simp: same_wakes_def)
  show "ends (\<lambda>w. live w \<and> i + 4 \<le> length (data w) \<and> n \<le> f w i) (\<lambda>w. u32_at (data w) i \<noteq> v \<or> n < f w i)
      (pbind (query (\<lambda>_. Ok ())) (\<lambda>_. Wait u (int i) v 0)) w"
    by (rule ends_pbind [OF ends_True wait_prompt [OF assms]]) simp
qed

lemma rg_doze_writer:
  assumes "sender_knows data live f xs cap H n h pr w g" "sees_full cap h" "length pr < length xs"
    and k: "\<And>w g. sender_knows data live f xs cap H n h pr w g \<Longrightarrow> used (data w) < cap \<or> n < f w offHead \<Longrightarrow>
      rg (sender_asleep data f xs cap) (reader_step data live (Some f) (growing xs) cap)
        (writer_step data live (Some f) (growing xs) cap) Q (k (Inr wait)) w g"
  shows "rg (sender_asleep data f xs cap) (reader_step data live (Some f) (growing xs) cap)
    (writer_step data live (Some f) (growing xs) cap) Q
    (pbind (blockRound S offHead (w_cachedHead h) opts Background wait) k) w g"
proof -
  obtain u where u: "WaiterStorage S = Some u" using waiter by auto
  have kn: "writer_knows data live (Some f) (growing xs) cap h pr [] w g" using assms(1) by (simp add: sender_knows_def)
  note d = dozes [OF u writer_knows_live [OF kn] writer_knows_word [OF kn word_offsets(4)] word_offsets(1),
      of n "w_cachedHead h"]
  show ?thesis
    unfolding blockRound_Background [OF u]
  proof (rule rg_sleeps_until [OF sender_knows_stable d assms(1)])
    fix w g assume s: "sender_knows data live f xs cap H n h pr w g"
    then have kn: "writer_knows data live (Some f) (growing xs) cap h pr [] w g" by (simp add: sender_knows_def)
    then show "live w \<and> offHead + 4 \<le> length (data w) \<and> n \<le> f w offHead"
      using s writer_knows_live [OF kn] writer_knows_word [OF kn word_offsets(4)] by (simp add: sender_knows_def)
    show "writer_step data live (Some f) (growing xs) cap (w, g) (w', g) \<and> sender_knows data live f xs cap H n h pr w' g"
      if "live w' \<and> data w' = data w \<and> same_wakes (Some f) w w'" for w'
      using writer_knows_same_data [OF kn] that s by (auto simp: sender_knows_def same_wakes_def)
    show "rg (sender_asleep data f xs cap) (reader_step data live (Some f) (growing xs) cap)
        (writer_step data live (Some f) (growing xs) cap) Q (k (Inr wait)) w g"
      if "u32_at (data w) offHead \<noteq> w_cachedHead h \<or> n < f w offHead"
    proof (rule k [OF s])
      have "w_tail h = ring_tail (data w)" "used (data w) \<le> unat (w_tail h - w_cachedHead h)"
        using kn by (auto simp: writer_knows_def writer_inv_def)
      then have "used (data w) < cap" if "ring_head (data w) \<noteq> w_cachedHead h"
        using that assms(2) by (auto simp: sees_full_def used_def le_less unat_distance)
      then show "used (data w) < cap \<or> n < f w offHead" using that by (auto simp: ring_head_def)
    qed
  next
    fix v gv w g b
    assume "sender_knows data live f xs cap H n h pr v gv" "sender_knows data live f xs cap H n h pr w g"
      "reader_step data live (Some f) (growing xs) cap (v, gv) (w, g)" "asleep data (Some f) offHead (w_cachedHead h) v w"
    with writer_falls_asleep [where st = "[]", OF _ _ this(3,4) assms(2)] assms(3) show "sender_asleep data f xs cap b w g"
      by (auto simp: sender_knows_def sender_asleep_def writer_knows_def)
  qed
qed

lemma rg_doze_reader:
  assumes "receiver_knows data live f xs cap T n r co w g" "sees_empty r" "length co < length xs"
    and k: "\<And>w g. receiver_knows data live f xs cap T n r co w g \<Longrightarrow> 0 < used (data w) \<or> n < f w offTail \<Longrightarrow>
      rg (receiver_asleep data f xs cap) (writer_step data live (Some f) (growing xs) cap)
        (reader_step data live (Some f) (growing xs) cap) Q (k (Inr wait)) w g"
  shows "rg (receiver_asleep data f xs cap) (writer_step data live (Some f) (growing xs) cap)
    (reader_step data live (Some f) (growing xs) cap) Q
    (pbind (blockRound S offTail (r_cachedTail r) opts Background wait) k) w g"
proof -
  obtain u where u: "WaiterStorage S = Some u" using waiter by auto
  have kn: "reader_knows data live (Some f) (growing xs) cap r co [] w g" using assms(1) by (simp add: receiver_knows_def)
  note d = dozes [OF u reader_knows_live [OF kn] reader_knows_word [OF kn word_offsets(5)] word_offsets(2),
      of n "r_cachedTail r"]
  show ?thesis
    unfolding blockRound_Background [OF u]
  proof (rule rg_sleeps_until [OF receiver_knows_stable d assms(1)])
    fix w g assume s: "receiver_knows data live f xs cap T n r co w g"
    then have kn: "reader_knows data live (Some f) (growing xs) cap r co [] w g" by (simp add: receiver_knows_def)
    then show "live w \<and> offTail + 4 \<le> length (data w) \<and> n \<le> f w offTail"
      using s reader_knows_live [OF kn] reader_knows_word [OF kn word_offsets(5)] by (simp add: receiver_knows_def)
    show "reader_step data live (Some f) (growing xs) cap (w, g) (w', g) \<and> receiver_knows data live f xs cap T n r co w' g"
      if "live w' \<and> data w' = data w \<and> same_wakes (Some f) w w'" for w'
      using reader_knows_same_data [OF kn] that s by (auto simp: receiver_knows_def same_wakes_def)
    show "rg (receiver_asleep data f xs cap) (writer_step data live (Some f) (growing xs) cap)
        (reader_step data live (Some f) (growing xs) cap) Q (k (Inr wait)) w g"
      if "u32_at (data w) offTail \<noteq> r_cachedTail r \<or> n < f w offTail"
    proof (rule k [OF s])
      have "r_head r = ring_head (data w)" using kn by (auto simp: reader_knows_def reader_inv_def)
      then have "0 < used (data w)" if "ring_tail (data w) \<noteq> r_cachedTail r"
        using that assms(2) by (auto simp: sees_empty_def used_def unat_eq_0 unat_distance)
      then show "0 < used (data w) \<or> n < f w offTail" using that by (auto simp: ring_tail_def)
    qed
  next
    fix v gv w g b
    assume "receiver_knows data live f xs cap T n r co v gv" "receiver_knows data live f xs cap T n r co w g"
      "writer_step data live (Some f) (growing xs) cap (v, gv) (w, g)" "asleep data (Some f) offTail (r_cachedTail r) v w"
    with reader_falls_asleep [where xs = "[]", OF _ _ this(3,4) assms(2)] assms(3) show "receiver_asleep data f xs cap b w g"
      by (auto simp: receiver_knows_def receiver_asleep_def reader_knows_def)
  qed
qed

text \<open>The non-blocking calls, with the budgets.\<close>

lemma rg_TryWrite_sender:
  assumes s: "sender_knows data live f xs cap H n h pr w g" and "w_st h = S" "room \<longrightarrow> used (data w) < cap" "prefix (pr @ p) xs"
    and k: "\<And>m h' w g. m \<le> length p \<Longrightarrow> sender_knows data live f xs cap H n h' (pr @ take m p) w g \<Longrightarrow> w_st h' = S \<Longrightarrow>
      (m = 0 \<Longrightarrow> p \<noteq> [] \<Longrightarrow> sees_full cap h' \<and> \<not> room) \<Longrightarrow>
      rg B (reader_step data live (Some f) (growing xs) cap) (writer_step data live (Some f) (growing xs) cap) Q
        (k ((int m, None), h')) w g"
  shows "rg B (reader_step data live (Some f) (growing xs) cap) (writer_step data live (Some f) (growing xs) cap) Q
    (pbind (TryWrite h p) k) w g"
proof -
  let ?K = "writer_knows data live (Some f) (growing xs) cap"
  let ?Q = "\<lambda>((n', err), h') w g. \<exists>m. n' = int m \<and> err = None \<and> m \<le> length p \<and> ?K h' (pr @ take m p) [] w g \<and>
    w_st h' = S \<and> (m = 0 \<longrightarrow> p \<noteq> [] \<longrightarrow> sees_full cap h' \<and> \<not> room)"
  have kn: "?K h pr [] w g" "head_budget data live f xs cap H n w g" using s by (simp_all add: sender_knows_eq)
  have "\<not> w_closed h" using sender_knows_open [OF s] by simp
  have "rg B (reader_step data live (Some f) (growing xs) cap) (writer_step data live (Some f) (growing xs) cap) ?Q
      (pbind (TryWrite h p) Return) w g"
  proof (rule rg_TryWrite [OF kn(1) assms(2,3)], goal_cases)
    case (1 n)
    show ?case using prefix_order.trans [of "pr @ take n p", OF _ assms(4)] by (simp add: growing_def take_is_prefix)
  next
    case (2 n err h' w g)
    show ?case
      by (rule rg_Return_stable [OF writer_knows_stable 2(2)]) (use 2 \<open>\<not> w_closed h\<close> in auto)
  qed
  then show ?thesis
    unfolding pbind_Return
    by (rule rg_pbind_within [OF _ kn(2) head_budget_stable reflp_reader_step]) (auto simp: sender_knows_eq intro!: k)
qed

lemma rg_TryRead_receiver:
  assumes s: "receiver_knows data live f xs cap T n r co w g" and "r_st r = S" "some \<longrightarrow> 0 < used (data w)"
    and k: "\<And>m q r' w g. m \<le> length q \<Longrightarrow> length q = length p \<Longrightarrow>
      receiver_knows data live f xs cap T n r' (co @ take m q) w g \<Longrightarrow> r_st r' = S \<Longrightarrow>
      (m = 0 \<Longrightarrow> p \<noteq> [] \<Longrightarrow> sees_empty r' \<and> \<not> some) \<Longrightarrow>
      rg B (writer_step data live (Some f) (growing xs) cap) (reader_step data live (Some f) (growing xs) cap) Q
        (k ((int m, None), q, r')) w g"
  shows "rg B (writer_step data live (Some f) (growing xs) cap) (reader_step data live (Some f) (growing xs) cap) Q
    (pbind (TryRead r p) k) w g"
proof -
  let ?K = "reader_knows data live (Some f) (growing xs) cap"
  let ?Q = "\<lambda>((n', err), q, r') w g. \<exists>m. n' = int m \<and> err = None \<and> m \<le> length q \<and> length q = length p \<and>
    ?K r' (co @ take m q) [] w g \<and> r_st r' = S \<and> (m = 0 \<longrightarrow> p \<noteq> [] \<longrightarrow> sees_empty r' \<and> \<not> some)"
  have kn: "?K r co [] w g" "tail_budget data live f xs cap T n w g" using s by (simp_all add: receiver_knows_eq)
  have "rg B (writer_step data live (Some f) (growing xs) cap) (reader_step data live (Some f) (growing xs) cap) ?Q
      (pbind (TryRead r p) Return) w g"
  proof (rule rg_TryRead [OF kn(1) assms(2,3)], goal_cases)
    case (1 n err q r' w g)
    then have "\<not> ring_closed (data w)" by (auto simp: reader_knows_def spsc_inv_def growing_def)
    show ?case
      by (rule rg_Return_stable [OF reader_knows_stable 1(3)]) (use 1 \<open>\<not> ring_closed (data w)\<close> in auto)
  qed
  then show ?thesis
    unfolding pbind_Return
    by (rule rg_pbind_within [OF _ kn(2) tail_budget_stable(2,1) reflp_writer_step]) (auto simp: receiver_knows_eq intro!: k)
qed

text \<open>
  \<^verbatim>\<open>Write\<close> returns, and has written everything. Each round with progress adds at least one byte;
  each one without has found room, so that the next one has progress, or has been woken once more.
\<close>

lemma sender_knows_weaken: "sender_knows data live f xs cap H n h pr w g \<Longrightarrow> n' \<le> n \<Longrightarrow> sender_knows data live f xs cap H n' h pr w g"
  and receiver_knows_weaken:
    "receiver_knows data live f xs cap T n r co w g \<Longrightarrow> n' \<le> n \<Longrightarrow> receiver_knows data live f xs cap T n' r co w g"
  by (auto simp: sender_knows_def receiver_knows_def)

lemma rg_writeLoop_returns:
  assumes "sender_knows data live f xs cap H n h (pr @ take m p) w g" "w_st h = S" "m \<le> length p" "H \<le> n"
    and "room \<longrightarrow> used (data w) < cap" "prefix (pr @ p) xs"
    and "2 * (length p - m) + (H + length xs - n) + (if room then 0 else 1) < fuel"
    and k: "\<And>h' w g. sender_knows data live f xs cap H H h' (pr @ p) w g \<Longrightarrow> w_st h' = S \<Longrightarrow>
      rg (sender_asleep data f xs cap) (reader_step data live (Some f) (growing xs) cap)
        (writer_step data live (Some f) (growing xs) cap) Q (k (Some (int (length p), None), h')) w g"
  shows "rg (sender_asleep data f xs cap) (reader_step data live (Some f) (growing xs) cap)
    (writer_step data live (Some f) (growing xs) cap) Q (pbind (writeLoop fuel Background h p (int m) wait) k) w g"
  using assms(1-5,7)
proof (induction fuel arbitrary: h m n room wait w g)
  case (Suc fuel)
  show ?case
  proof (cases "m < length p")
    case False
    then show ?thesis
      using k [of h w g] Suc.prems(2,3) sender_knows_weaken [OF Suc.prems(1,4)] by simp
  next
    case True
    have tk: "(pr @ take m p) @ take j (drop m p) = pr @ take (m + j) p" for j by (simp add: take_add)
    have len: "length (pr @ take m p) < length xs" using True prefix_length_le [OF assms(6)] by simp
    have step: "pbind (writeLoop (Suc fuel) Background h p (int m) wait) k =
        pbind (TryWrite h (drop m p)) (\<lambda>((n, err), h'). case err of
            Some e \<Rightarrow> k (Some (int m + n, Some e), h')
          | None \<Rightarrow>
              if n > 0 then pbind (writeLoop fuel Background h' p (int m + n) (minPoll (w_opt h'))) k
              else pbind (blockRound (w_st h') offHead (w_cachedHead h') (w_opt h') Background wait) (\<lambda>r. case r of
                  Inl e \<Rightarrow> k (Some (int m + n, Some e), h')
                | Inr wait \<Rightarrow> pbind (writeLoop fuel Background h' p (int m + n) wait) k))"
      using True by (simp add: pbind_assoc Let_def)
        (auto intro!: arg_cong [where f = "pbind _"] simp: fun_eq_iff pbind_assoc split: option.split sum.split)
    show ?thesis
      unfolding step
    proof (rule rg_TryWrite_sender [OF Suc.prems(1,2,5)], goal_cases)
      case 1
      show ?case using tk [of "length p"] assms(6) by (simp add: append_take_drop_id)
    next
      case (2 j h' w g)
      then have s: "sender_knows data live f xs cap H n h' (pr @ take (m + j) p) w g" "m + j \<le> length p"
        using True by (simp_all only: tk length_drop)
      show ?case
      proof (cases "j = 0")
        case False
        have "rg (sender_asleep data f xs cap) (reader_step data live (Some f) (growing xs) cap)
            (writer_step data live (Some f) (growing xs) cap) Q
            (pbind (writeLoop fuel Background h' p (int (m + j)) (minPoll (w_opt h'))) k) w g"
          by (rule Suc.IH [where room = False, OF s(1) 2(3) s(2) Suc.prems(4)])
            (use False s(2) Suc.prems(6) in \<open>auto split: if_splits\<close>)
        with False show ?thesis by simp
      next
        case j: True
        with 2(4) True have full: "sees_full cap h'" "\<not> room" by auto
        have s': "sender_knows data live f xs cap H n h' (pr @ take m p) w g" using s(1) j by simp
        have "rg (sender_asleep data f xs cap) (reader_step data live (Some f) (growing xs) cap)
            (writer_step data live (Some f) (growing xs) cap) Q
            (pbind (blockRound S offHead (w_cachedHead h') (w_opt h') Background wait) (\<lambda>r. case r of
                  Inl e \<Rightarrow> k (Some (int m, Some e), h')
                | Inr wait \<Rightarrow> pbind (writeLoop fuel Background h' p (int m) wait) k)) w g"
        proof (rule rg_doze_writer [OF s' full(1) len], unfold sum.case)
          fix w g assume d: "sender_knows data live f xs cap H n h' (pr @ take m p) w g" "used (data w) < cap \<or> n < f w offHead"
          show "rg (sender_asleep data f xs cap) (reader_step data live (Some f) (growing xs) cap)
            (writer_step data live (Some f) (growing xs) cap) Q (pbind (writeLoop fuel Background h' p (int m) wait) k) w g"
          proof (cases "used (data w) < cap")
            case room: True
            then show ?thesis
              by (intro Suc.IH [where room = True, OF d(1) 2(3) Suc.prems(3,4)]) (use Suc.prems(6) full(2) in auto)
          next
            case False
            have "sender_knows data live f xs cap H (Suc n) h' (pr @ take m p) w g" "Suc n \<le> H + length xs"
              using d False sender_knows_open [OF d(1)] by (auto simp: sender_knows_def)
            then show ?thesis
              by (intro Suc.IH [where room = False and n = "Suc n", OF _ 2(3) Suc.prems(3)])
                (use Suc.prems(4,6) full(2) in auto)
          qed
        qed
        with j 2(3) show ?thesis by simp
      qed
    qed
  qed
qed simp

text \<open>\<^verbatim>\<open>Read\<close> returns with at least one byte while there is one to come.\<close>

lemma rg_readLoop_returns:
  assumes "receiver_knows data live f xs cap T n r co w g" "r_st r = S" "p \<noteq> []" "T \<le> n" "length co < length xs"
    and "some \<longrightarrow> 0 < used (data w)"
    and "T + length xs - n + (if some then 0 else 1) < fuel"
    and k: "\<And>m q r' w g. 0 < m \<Longrightarrow> m \<le> length q \<Longrightarrow> length q = length p \<Longrightarrow>
      receiver_knows data live f xs cap T T r' (co @ take m q) w g \<Longrightarrow> r_st r' = S \<Longrightarrow>
      rg (receiver_asleep data f xs cap) (writer_step data live (Some f) (growing xs) cap)
        (reader_step data live (Some f) (growing xs) cap) Q (k (Some (int m, None), q, r')) w g"
  shows "rg (receiver_asleep data f xs cap) (writer_step data live (Some f) (growing xs) cap)
    (reader_step data live (Some f) (growing xs) cap) Q (pbind (readLoop fuel Background r p wait) k) w g"
  using assms(1-4,6-)
proof (induction fuel arbitrary: r n p some wait w g)
  case (Suc fuel)
  have step: "pbind (readLoop (Suc fuel) Background r p wait) k =
      pbind (TryRead r p) (\<lambda>((n, err), q, r').
        if n > 0 \<or> err \<noteq> None then k (Some (n, err), q, r')
        else pbind (blockRound (r_st r') offTail (r_cachedTail r') (r_opt r') Background wait) (\<lambda>b. case b of
            Inl e \<Rightarrow> k (Some (0, Some e), q, r')
          | Inr wait \<Rightarrow> pbind (readLoop fuel Background r' q wait) k))"
    by (simp add: pbind_assoc)
      (auto intro!: arg_cong [where f = "pbind _"] simp: fun_eq_iff pbind_assoc split: sum.split)
  show ?case
    unfolding step
  proof (rule rg_TryRead_receiver [OF Suc.prems(1,2,5)], goal_cases)
    case (1 m q r' w g)
    show ?case
    proof (cases "m = 0")
      case False
      with 1 Suc.prems(7) [of m q r' w g] receiver_knows_weaken [OF 1(3) Suc.prems(4)] show ?thesis by simp
    next
      case m: True
      with 1(5) Suc.prems(3) have empty: "sees_empty r'" "\<not> some" by auto
      have q: "q \<noteq> []" "receiver_knows data live f xs cap T n r' co w g" using 1(2,3) m Suc.prems(3) by auto
      have "rg (receiver_asleep data f xs cap) (writer_step data live (Some f) (growing xs) cap)
          (reader_step data live (Some f) (growing xs) cap) Q
          (pbind (blockRound S offTail (r_cachedTail r') (r_opt r') Background wait) (\<lambda>b. case b of
            Inl e \<Rightarrow> k (Some (0, Some e), q, r')
          | Inr wait \<Rightarrow> pbind (readLoop fuel Background r' q wait) k)) w g"
      proof (rule rg_doze_reader [OF q(2) empty(1) assms(5)], unfold sum.case)
        fix w g assume d: "receiver_knows data live f xs cap T n r' co w g" "0 < used (data w) \<or> n < f w offTail"
        show "rg (receiver_asleep data f xs cap) (writer_step data live (Some f) (growing xs) cap)
          (reader_step data live (Some f) (growing xs) cap) Q (pbind (readLoop fuel Background r' q wait) k) w g"
        proof (cases "0 < used (data w)")
          case some: True
          then show ?thesis
            by (intro Suc.IH [where some = True, OF d(1) 1(4) q(1) Suc.prems(4)])
              (use Suc.prems(6,7) 1(2) empty(2) in auto)
        next
          case False
          have "receiver_knows data live f xs cap T (Suc n) r' co w g" "Suc n \<le> T + length xs"
            using d False receiver_knows_open [OF d(1)] by (auto simp: receiver_knows_def)
          then show ?thesis
            by (intro Suc.IH [where some = False and n = "Suc n", OF _ 1(4) q(1)])
              (use Suc.prems(4,6,7) 1(2) empty(2) in auto)
        qed
      qed
      with m 1(4) show ?thesis by simp
    qed
  qed
qed simp

end


section \<open>A whole stream\<close>

text \<open>
  A writing thread that calls \<^verbatim>\<open>Write\<close> for each chunk and stops at the first error, as \<open>send\<close> does, but does not close
  the ring; and the standard library's \<^verbatim>\<open>io.ReadFull\<close> on a Reader, from the \<open>n\<close>-th byte of the
  buffer on, with at most \<open>rounds\<close> calls of \<^verbatim>\<open>Read\<close>. (\<^verbatim>\<open>ringbuffer_test.go\<close> and \<^verbatim>\<open>shm_linux_test.go\<close> test
  the package with these two threads.)
\<close>

fun writeAll :: "nat \<Rightarrow> byte list list \<Rightarrow> 'w writer \<Rightarrow> ('w, (int64 \<times> gerror option) option \<times> 'w writer) prog" where
  "writeAll fuel [] w = Return (Some (0, None), w)"
| "writeAll fuel (p # ps) w = pbind (Write fuel w p) (\<lambda>(res, w). case res of
     None \<Rightarrow> Return (None, w)
   | Some (n, Some e) \<Rightarrow> Return (Some (n, Some e), w)
   | Some (n, None) \<Rightarrow> pbind (writeAll fuel ps w) (\<lambda>(res, w). Return (map_option (map_prod ((+) n) id) res, w)))"

fun readFull ::
  "nat \<Rightarrow> nat \<Rightarrow> 'w reader \<Rightarrow> byte list \<Rightarrow> nat \<Rightarrow> ('w, (int64 \<times> gerror option) option \<times> byte list \<times> 'w reader) prog" where
  "readFull 0 fuel r b n =
     Return (if n < length b then None else Some (int n, None), b, r)"
| "readFull (Suc rounds) fuel r b n =
     (if n < length b then pbind (Read fuel r (drop n b)) (\<lambda>(res, q, r). let b = take n b @ q in case res of
        None \<Rightarrow> Return (None, b, r)
      | Some (m, None) \<Rightarrow> readFull rounds fuel r b (n + nat m)
      | Some (m, Some e) \<Rightarrow> let n = n + nat m in
          Return (Some (int n, if length b \<le> n then None else if 0 < n \<and> e = EOF then Some ErrUnexpectedEOF else Some e),
            b, r))
      else Return (Some (int n, None), b, r))"

context prompt_storage
begin

lemma rg_writeAll:
  assumes "sender_knows data live f xs cap H H h pr w g" "w_st h = S" "prefix (pr @ concat ps) xs" "3 * length xs + 1 < fuel"
    and k: "\<And>h' w g. sender_knows data live f xs cap H H h' (pr @ concat ps) w g \<Longrightarrow>
      rg (sender_asleep data f xs cap) (reader_step data live (Some f) (growing xs) cap)
        (writer_step data live (Some f) (growing xs) cap) Q (k (Some (int (length (concat ps)), None), h')) w g"
  shows "rg (sender_asleep data f xs cap) (reader_step data live (Some f) (growing xs) cap)
    (writer_step data live (Some f) (growing xs) cap) Q (pbind (writeAll fuel ps h) k) w g"
  using assms(1-3,5)
proof (induction ps arbitrary: pr h w g k)
  case Nil
  then show ?case by simp
next
  case (Cons p ps)
  have pre: "prefix (pr @ p) xs" using prefix_order.trans [of "pr @ p", OF _ Cons.prems(3)] by simp
  have len: "length p \<le> length xs" using prefix_length_le [OF pre] by simp
  have "rg (sender_asleep data f xs cap) (reader_step data live (Some f) (growing xs) cap)
      (writer_step data live (Some f) (growing xs) cap) Q
      (pbind (writeLoop fuel Background h p (int 0) (minPoll (w_opt h))) (\<lambda>(res, w). case res of
         None \<Rightarrow> k (None, w)
       | Some (n, Some e) \<Rightarrow> k (Some (n, Some e), w)
       | Some (n, None) \<Rightarrow> pbind (writeAll fuel ps w) (\<lambda>(res, w). k (map_option (map_prod ((+) n) id) res, w)))) w g"
  proof (rule rg_writeLoop_returns [where xs = xs and cap = cap and H = H and room = False and n = H and pr = pr], goal_cases)
    case (8 h' w g)
    show ?case
      unfolding prod.case option.case
      by (rule Cons.IH [OF 8]) (use Cons.prems(3,4) in \<open>simp_all add: add.commute\<close>)
  qed (use Cons.prems(1,2) pre len assms(4) in simp_all)
  then show ?case
    by (simp add: Write_def WriteContext_def pbind_assoc case_prod_unfold)
      (erule back_subst [where P = "\<lambda>m. rg _ _ _ _ m _ _"], auto intro!: arg_cong [where f = "pbind _"]
         simp: fun_eq_iff pbind_assoc case_prod_unfold split: option.split)
qed

lemma rg_readFull:
  assumes "receiver_knows data live f xs cap T T r (take n b) w g" "r_st r = S" "n \<le> length b" "length b = length xs"
    and "length xs - n \<le> rounds" "length xs + 1 < fuel"
    and k: "\<And>b' r' w g. receiver_knows data live f xs cap T T r' b' w g \<Longrightarrow> length b' = length xs \<Longrightarrow>
      rg (receiver_asleep data f xs cap) (writer_step data live (Some f) (growing xs) cap)
        (reader_step data live (Some f) (growing xs) cap) Q (k (Some (int (length xs), None), b', r')) w g"
  shows "rg (receiver_asleep data f xs cap) (writer_step data live (Some f) (growing xs) cap)
    (reader_step data live (Some f) (growing xs) cap) Q (pbind (readFull rounds fuel r b n) k) w g"
  using assms(1-5)
proof (induction rounds arbitrary: r b n w g)
  case 0
  then show ?case using k [of r b w g] by simp
next
  case (Suc rounds)
  show ?case
  proof (cases "n < length b")
    case False
    then show ?thesis using k [of r b w g] Suc.prems by simp
  next
    case True
    let ?k = "\<lambda>(res, q, r). let b = take n b @ q in case res of
        None \<Rightarrow> k (None, b, r)
      | Some (m, None) \<Rightarrow> pbind (readFull rounds fuel r b (n + nat m)) k
      | Some (m, Some e) \<Rightarrow> let n = n + nat m in
          k (Some (int n, if length b \<le> n then None else if 0 < n \<and> e = EOF then Some ErrUnexpectedEOF else Some e), b, r)"
    have "rg (receiver_asleep data f xs cap) (writer_step data live (Some f) (growing xs) cap)
        (reader_step data live (Some f) (growing xs) cap) Q
        (pbind (readLoop fuel Background r (drop n b) (minPoll (r_opt r))) ?k) w g"
    proof (rule rg_readLoop_returns [where some = False, OF Suc.prems(1,2)], goal_cases)
      case (6 m q r' w g)
      have take: "take n b @ take m q = take (n + m) (take n b @ q)" using True by simp
      have "rg (receiver_asleep data f xs cap) (writer_step data live (Some f) (growing xs) cap)
          (reader_step data live (Some f) (growing xs) cap) Q (pbind (readFull rounds fuel r' (take n b @ q) (n + m)) k) w g"
        by (rule Suc.IH [OF 6(4) [unfolded take] 6(5)]) (use 6(1-3) True Suc.prems(4,5) in auto)
      then show ?case by simp
    qed (use True Suc.prems(4) assms(6) in auto)
    moreover have "pbind (readFull (Suc rounds) fuel r b n) k =
        pbind (readLoop fuel Background r (drop n b) (minPoll (r_opt r))) ?k"
      using True by (simp add: Read_def ReadContext_def pbind_assoc case_prod_unfold Let_def)
        (auto intro!: arg_cong [where f = "pbind _"] simp: fun_eq_iff pbind_assoc Let_def split: option.split)
    ultimately show ?thesis by simp
  qed
qed

end

text \<open>
  Every fair schedule delivers the stream: the threads come to a point from which neither can take a step,
  and there both have returned, without an error.
\<close>

lemma fair_delivery:
  assumes S: "prompt_storage SW data live f" "prompt_storage SR data live f"
    and init: "live s" "w_st w = SW" "r_st r = SR" "pair_inv cap (data s) w r" "\<not> ring_closed (data s)"
    and xs: "xs = contents cap (data s) @ concat ps" "length b = length xs"
    and fuel: "3 * length xs + 1 < f1" "length xs + 1 < f2" "length xs \<le> rounds" and "fair \<sigma>"
  shows "\<exists>n w' r' s'. \<forall>m\<ge>n. after m \<sigma> (writeAll f1 ps w, readFull rounds f2 r b 0, s) =
    (Return (Some (int (length (concat ps)), None), w'), Return (Some (int (length xs), None), xs, r'), s')"
proof -
  let ?g = "\<lparr>produced = contents cap (data s), consumed = [], wdebt = False, rdebt = False\<rparr>"
  let ?H = "f s offHead" and ?T = "f s offTail"
  let ?R = "reader_step data live (Some f) (growing xs) cap" and ?W = "writer_step data live (Some f) (growing xs) cap"
  let ?QW = "\<lambda>(res, _ :: 'a writer) (w :: 'a) g. res = Some (int (length (concat ps)), None) \<and> produced g = xs \<and> \<not> wdebt g"
  let ?QR = "\<lambda>(res, b', _ :: 'a reader) (w :: 'a) g. res = Some (int (length xs), None) \<and> consumed g = b' \<and>
    length b' = length xs \<and> \<not> rdebt g"
  have i: "spsc_inv data live (growing xs) cap s ?g"
    using init xs(1) by (simp add: spsc_inv_def growing_def pair_inv_def writer_inv_def)
  have kw: "sender_knows data live f xs cap ?H ?H w (contents cap (data s)) s ?g"
    and kr: "receiver_knows data live f xs cap ?T ?T r (take 0 b) s ?g"
    using i init(4) by (simp_all add: sender_knows_def receiver_knows_def writer_knows_def reader_knows_def pair_inv_def)
  have "rg (sender_asleep data f xs cap) ?R ?W ?QW (pbind (writeAll f1 ps w) Return) s ?g"
  proof (rule prompt_storage.rg_writeAll [OF S(1) kw init(2) _ fuel(1)])
    fix h' w g
    assume "sender_knows data live f xs cap ?H ?H h' (contents cap (data s) @ concat ps) w g"
    then have "writer_knows data live (Some f) (growing xs) cap h' xs [] w g" by (simp add: sender_knows_def xs(1))
    then show "rg (sender_asleep data f xs cap) ?R ?W ?QW (Return (Some (int (length (concat ps)), None), h')) w g"
      by (rule rg_Return_stable [OF writer_knows_stable]) (simp add: writer_knows_def)
  qed (simp add: xs(1))
  then have rw: "rg (sender_asleep data f xs cap) ?R ?W ?QW (writeAll f1 ps w) s ?g" by (simp add: pbind_Return)
  have "rg (receiver_asleep data f xs cap) ?W ?R ?QR (pbind (readFull rounds f2 r b 0) Return) s ?g"
  proof (rule prompt_storage.rg_readFull [OF S(2) kr init(3) _ xs(2) _ fuel(2)])
    fix b' r' w g
    assume "receiver_knows data live f xs cap ?T ?T r' b' w g" and len: "length b' = length xs"
    then have "reader_knows data live (Some f) (growing xs) cap r' b' [] w g" by (simp add: receiver_knows_def)
    then show "rg (receiver_asleep data f xs cap) ?W ?R ?QR (Return (Some (int (length xs), None), b', r')) w g"
      by (rule rg_Return_stable [OF reader_knows_stable]) (simp add: reader_knows_def len)
  qed (use fuel(3) in simp_all)
  then have rr: "rg (receiver_asleep data f xs cap) ?W ?R ?QR (readFull rounds f2 r b 0) s ?g" by (simp add: pbind_Return)
  obtain n p' q' s' ss where settled: "\<And>m. n \<le> m \<Longrightarrow> after m \<sigma> (writeAll f1 ps w, readFull rounds f2 r b 0, s) = (p', q', s')"
    and stuck: "tstep p' s' = None" "tstep q' s' = None" and run: "par_run ss (writeAll f1 ps w, readFull rounds f2 r b 0, s) = (p', q', s')"
    using fair_settles [OF assms(13)] by metis
  obtain g where g: "spsc_inv data live (growing xs) cap s' g" "rg (sender_asleep data f xs cap) ?R ?W ?QW p' s' g"
      "rg (receiver_asleep data f xs cap) ?W ?R ?QR q' s' g"
    using spsc.par_run_sound [OF rw rr run spsc_inv_stable i] by blast
  have "produced g = consumed g @ contents cap (data s')" "cap_ok cap" using g(1) by (auto simp: spsc_inv_def ring_ok_def)
  then have pr: "produced g = consumed g @ contents cap (data s')" "0 < cap" using cap_ok_bounds by auto
  have left: "(\<exists>w'. p' = Return (Some (int (length (concat ps)), None), w')) \<and> produced g = xs \<and> \<not> wdebt g \<or>
      \<not> wdebt g \<and> (rdebt g \<or> used (data s') = cap) \<and> length (produced g) < length xs"
    using spsc.blocked_left [OF g(2) stuck(1)] by (fastforce simp: sender_asleep_def writer_asleep_def)
  have right: "(\<exists>r'. q' = Return (Some (int (length xs), None), consumed g, r')) \<and> length (consumed g) = length xs \<and> \<not> rdebt g \<or>
      \<not> rdebt g \<and> (wdebt g \<or> used (data s') = 0) \<and> length (consumed g) < length xs"
    using spsc.blocked_right [OF g(3) stuck(2)] by (fastforce simp: receiver_asleep_def reader_asleep_def)
  have len: "length (produced g) = length (consumed g) + used (data s')" using pr(1) by simp
  then have "(\<exists>w'. p' = Return (Some (int (length (concat ps)), None), w')) \<and> produced g = xs"
      "(\<exists>r'. q' = Return (Some (int (length xs), None), consumed g, r')) \<and> length (consumed g) = length xs"
    using left right pr(2) by auto
  moreover from this have "used (data s') = 0" using len by simp
  then have "contents cap (data s') = []" by (simp flip: length_0_conv)
  ultimately obtain w' r' where "p' = Return (Some (int (length (concat ps)), None), w')"
      "q' = Return (Some (int (length xs), None), xs, r')"
    using pr(1) by auto
  with settled show ?thesis by blast
qed

end
