(* ===== verification/Delivery.thy ===== *)
theory Delivery
  imports Progress
begin

text \<open>
  The segments of Linux and Android deliver: where the operating system's futexes also end a wait
  only for a reason (locale \<open>prompt_futexes\<close>), every fair schedule of a process that writes and one
  that reads as many bytes ends with both having returned, the reader with all the bytes.
\<close>

section \<open>The mapped storages wait only for a reason\<close>

context prompt_memory
begin

lemma ends_futexWait:
  assumes "i + 4 \<le> len" "d \<le> 0"
  shows "ends (\<lambda>w. live w \<and> i + 4 \<le> length (data w) \<and> n \<le> wk w i) (\<lambda>w. u32_at (data w) i \<noteq> v \<or> n < wk w i)
    (pbind (query (\<lambda>_. wordAt \<lparr>handle = m, slen = len\<rparr> (int i))) (\<lambda>a.
       futexWaitWord OS \<lparr>handle = m, slen = len\<rparr> a v d)) w"
proof -
  have "ends (\<lambda>w. live w \<and> i + 4 \<le> length (data w) \<and> n \<le> wk w i) (\<lambda>w. u32_at (data w) i \<noteq> v \<or> n < wk w i)
      (FutexWait OS m i v None) w" for w
    by (rule ends_weaken [OF wait_prompt [OF assms(1)]]) auto
  then show ?thesis
    using assms(2) unfolding wordAt_ok [OF assms(1)] query_def call_def
    by (simp add: pbind_Atomic ends_Atomic futexWaitWord_def del: pbind.simps(2))
qed

end

lemma shm_prompt:
  assumes M: "prompt_memory OS m len data live wk" and S: "shm_mapping OS m len data live s"
  shows "prompt_storage (shm_storage OS s) data live wk"
proof (rule prompt_storage.intro [OF shm_waking [OF prompt_memory.axioms(1) [OF M] S]], unfold_locales, goal_cases)
  case (1 u w i d n v w0)
  have s: "sh_mem s = \<lparr>handle = m, slen = len\<rparr>" using S by (simp add: shm_mapping_def shm_mapping_axioms_def)
  have "i + 4 \<le> len" using 1 mapped_memory.length_data [OF shm_mapping.axioms(1) [OF S]] by auto
  with 1 show ?case
    using prompt_memory.ends_futexWait [OF M, of i d n v w0] by (auto simp: shm_storage_simps shm_Wait_def s)
qed

lemma android_prompt:
  assumes M: "prompt_memory OS m len data live wk" and S: "android_mapping OS m len data live s"
  shows "prompt_storage (android_storage OS s) data live wk"
proof (rule prompt_storage.intro [OF android_waking [OF prompt_memory.axioms(1) [OF M] S]], unfold_locales, goal_cases)
  case (1 u w i d n v w0)
  have s: "a_mem s = \<lparr>handle = m, slen = len\<rparr>" using S by (simp add: android_mapping_def android_mapping_axioms_def)
  have "i + 4 \<le> len" using 1 mapped_memory.length_data [OF android_mapping.axioms(1) [OF S]] by auto
  with 1 show ?case
    using prompt_memory.ends_futexWait [OF M, of i d n v w0] by (auto simp: android_storage_simps android_Wait_def s)
qed

context prompt_futexes
begin

lemma shm_live_prompt:
  assumes "m \<in> ms" "nat sz = len" "0 \<le> sz"
  shows "prompt_storage (shm_storage OS (shm_of m sz own path)) (\<lambda>w. bytes w ino) (backed dir bytes fds maps ms ino len w0)
    (\<lambda>w. wakes w ino)"
proof -
  have "shm_mapping OS m len (\<lambda>w. bytes w ino) (backed dir bytes fds maps ms ino len w0) (shm_of m sz own path)"
    using mapped [OF assms(1)] assms(2,3) by (intro shm_mapping.intro shm_mapping_axioms.intro) auto
  then show ?thesis by (rule shm_prompt [OF mapped_prompt [OF assms(1)]])
qed

lemma android_live_prompt:
  assumes "m \<in> ms" "nat sz = len" "0 \<le> sz"
  shows "prompt_storage (android_storage OS (android_of fd m sz)) (\<lambda>w. bytes w ino) (backed dir bytes fds maps ms ino len w0)
    (\<lambda>w. wakes w ino)"
proof -
  have "android_mapping OS m len (\<lambda>w. bytes w ino) (backed dir bytes fds maps ms ino len w0) (android_of fd m sz)"
    using mapped [OF assms(1)] assms(2,3) by (intro android_mapping.intro android_mapping_axioms.intro) auto
  then show ?thesis by (rule android_prompt [OF mapped_prompt [OF assms(1)]])
qed

end

interpretation kernel_prompt: prompt_storage "shm_storage kernel_os (shm_of m (int len) own path)" "\<lambda>k. k_file k ino"
    "backed k_dir k_file k_fd k_map (insert m ms) ino len k0" "\<lambda>k. k_wakes k ino"
  for m ms ino len k0 own path
  by (rule kernel.shm_live_prompt) simp_all


section \<open>Properties\<close>

text \<open>
  C8: on Linux every byte arrives. Over every operating system that keeps the laws of files,
  mappings and futexes, and whose waits end only for a reason: once \<^verbatim>\<open>CreateShm\<close> and \<^verbatim>\<open>OpenShm\<close> have
  succeeded, under every fair schedule of a process that calls \<^verbatim>\<open>Write\<close> for each chunk and a process that
  calls \<^verbatim>\<open>io.ReadFull\<close> for as many bytes, there is a point from which on both have returned, the
  writer with the full count and the reader with exactly the bytes, without an error. The fuel of the
  blocking loops is linear in the length of the stream.
\<close>

theorem shm_delivers:
  assumes "prompt_futexes OS dir bytes fds maps page wakes"
    and "run (CreateShm (linux_create OS) name c opts) w0 = (Done (Inr w), w1)"
    and "run (OpenShm (linux_open OS) name c opts') w1 = (Done (Inr r), w2)"
    and "fair \<sigma>" "length b = length (concat ps)"
    and "3 * length b + 1 < f1" "length b + 1 < f2" "length b \<le> rounds"
  shows "\<exists>n w' r' w3. \<forall>m\<ge>n. after m \<sigma> (writeAll f1 ps w, readFull rounds f2 r b 0, w2) =
    (Return (Some (int (length b), None), w'), Return (Some (int (length b), None), concat ps, r'), w3)"
proof -
  note futexes = prompt_futexes.axioms(1) [OF assms(1)]
  note posix = futexes.axioms(1) [OF futexes]
  obtain k path m1 m2 ino where c: "c = 2 ^ k" "k \<le> 30"
    and st: "w_st w = shm_storage OS (shm_of m1 (64 + 2 ^ k) True path)"
      "r_st r = shm_storage OS (shm_of m2 (64 + 2 ^ k) False path)"
    and live: "backed dir bytes fds maps {m1, m2} ino (64 + 2 ^ k) w2 w2" and inv: "pair_inv (2 ^ k) (bytes w2 ino) w r"
    and empty: "fifo_of (2 ^ k) (bytes w2 ino) = \<lparr>queue = [], finished = False\<rparr>"
    by (rule posix.shm_setup [OF posix assms(2,3)])
  have S: "prompt_storage (shm_storage OS (shm_of m1 (64 + 2 ^ k) True path)) (\<lambda>w. bytes w ino)
      (backed dir bytes fds maps {m1, m2} ino (64 + 2 ^ k) w2) (\<lambda>w. wakes w ino)"
    "prompt_storage (shm_storage OS (shm_of m2 (64 + 2 ^ k) False path)) (\<lambda>w. bytes w ino)
      (backed dir bytes fds maps {m1, m2} ino (64 + 2 ^ k) w2) (\<lambda>w. wakes w ino)"
    by (rule prompt_futexes.shm_live_prompt [OF assms(1)]; use segment_size(4) [OF c(2)] in simp)+
  have new: "contents (2 ^ k) (bytes w2 ino) = []" "\<not> ring_closed (bytes w2 ino)"
    using empty by (simp_all add: fifo_of_def)
  show ?thesis
    using fair_delivery [OF S live st inv new(2), of "concat ps" ps b f1 f2 rounds \<sigma>] assms(4-8) new(1) by simp
qed

text \<open>
  Six bytes in two chunks through a ring of four, the two processes taking turns: the writer has to
  sleep until the reader makes room.
\<close>

definition turns :: schedule where
  "turns n = (if even n then WriterSide else ReaderSide)"

lemma fair_turns: "fair turns"
  unfolding fair_def
proof (intro allI)
  fix s n
  show "\<exists>m\<ge>n. turns m = s"
    by (cases s) (auto simp: turns_def intro: exI [of _ "2 * n"] exI [of _ "2 * n + 1"])
qed

theorem shm_delivers_witness:
  "\<exists>w k1 r k2 n w' r' k3. run (CreateShm (linux_create kernel_os) ''x'' 4 []) kernel0 = (Done (Inr w), k1) \<and>
    run (OpenShm (linux_open kernel_os) ''x'' 4 []) k1 = (Done (Inr r), k2) \<and>
    after n turns (writeAll 20 [[1, 2, 3], [4, 5, 6]] w, readFull 6 8 r [0, 0, 0, 0, 0, 0] 0, k2) =
      (Return (Some (6, None), w'), Return (Some (6, None), [1, 2, 3, 4, 5, 6], r'), k3)"
proof -
  obtain w k1 r k2 where run: "run (CreateShm (linux_create kernel_os) ''x'' 4 []) kernel0 = (Done (Inr w), k1)"
    "run (OpenShm (linux_open kernel_os) ''x'' 4 []) k1 = (Done (Inr r), k2)"
    by (rule kernel_pair)
  have "\<exists>n w' r' k3. \<forall>m\<ge>n. after m turns
      (writeAll 20 [[1, 2, 3], [4, 5, 6]] w, readFull 6 8 r [0, 0, 0, 0, 0, 0] 0, k2) =
      (Return (Some (int (length [0, 0, 0, 0, 0, 0 :: byte]), None), w'),
       Return (Some (int (length [0, 0, 0, 0, 0, 0 :: byte]), None), concat [[1, 2, 3], [4, 5, 6]], r'), k3)"
    by (rule shm_delivers [OF kernel.prompt_futexes_axioms run fair_turns]) simp_all
  then obtain n w' r' k3 where "after n turns
      (writeAll 20 [[1, 2, 3], [4, 5, 6]] w, readFull 6 8 r [0, 0, 0, 0, 0, 0] 0, k2) =
      (Return (Some (6, None), w'), Return (Some (6, None), [1, 2, 3, 4, 5, 6], r'), k3)"
    by (auto simp del: writeAll.simps readFull.simps)
  with run show ?thesis by blast
qed

text \<open>The same on Android.\<close>

theorem android_delivers:
  assumes "prompt_futexes OS dir bytes fds maps page wakes"
    and "run (CreateAndroidSharedMemory OS name c opts) w0 = (Done (Inr (w, fd)), w1)"
    and "run (OpenAndroidSharedMemory OS fd c opts') w1 = (Done (Inr r), w2)"
    and "fair \<sigma>" "length b = length (concat ps)"
    and "3 * length b + 1 < f1" "length b + 1 < f2" "length b \<le> rounds"
  shows "\<exists>n w' r' w3. \<forall>m\<ge>n. after m \<sigma> (writeAll f1 ps w, readFull rounds f2 r b 0, w2) =
    (Return (Some (int (length b), None), w'), Return (Some (int (length b), None), concat ps, r'), w3)"
proof -
  note futexes = prompt_futexes.axioms(1) [OF assms(1)]
  note posix = futexes.axioms(1) [OF futexes]
  obtain j m1 m2 fd2 ino where j: "c = 2 ^ j" "j \<le> 31"
    and st: "w_st w = android_storage OS (android_of fd m1 (64 + 2 ^ j))"
      "r_st r = android_storage OS (android_of fd2 m2 (64 + 2 ^ j))"
    and live: "backed dir bytes fds maps {m1, m2} ino (64 + 2 ^ j) w2 w2" and inv: "pair_inv (2 ^ j) (bytes w2 ino) w r"
    and empty: "fifo_of (2 ^ j) (bytes w2 ino) = \<lparr>queue = [], finished = False\<rparr>"
    by (rule posix.android_setup [OF posix assms(2,3)])
  have S: "prompt_storage (android_storage OS (android_of fd m1 (64 + 2 ^ j))) (\<lambda>w. bytes w ino)
      (backed dir bytes fds maps {m1, m2} ino (64 + 2 ^ j) w2) (\<lambda>w. wakes w ino)"
    "prompt_storage (android_storage OS (android_of fd2 m2 (64 + 2 ^ j))) (\<lambda>w. bytes w ino)
      (backed dir bytes fds maps {m1, m2} ino (64 + 2 ^ j) w2) (\<lambda>w. wakes w ino)"
    by (rule prompt_futexes.android_live_prompt [OF assms(1)]; use android_size(3) [OF j(2)] in simp)+
  have new: "contents (2 ^ j) (bytes w2 ino) = []" "\<not> ring_closed (bytes w2 ino)"
    using empty by (simp_all add: fifo_of_def)
  show ?thesis
    using fair_delivery [OF S live st inv new(2), of "concat ps" ps b f1 f2 rounds \<sigma>] assms(4-8) new(1) by simp
qed

end
