(* ===== verification/Attach.thy ===== *)
theory Attach
  imports ShmNative
begin

text \<open>
  Starting the two threads: each creates its own handle, \<^verbatim>\<open>NewWriter\<close> and \<^verbatim>\<open>NewReader\<close>, while
  the other is already running. The region holds no header of this capacity at first. A
  Reader that comes before the header has been written is refused; one that comes later, at
  whatever point of the Writer's work, joins the stream at its beginning.
\<close>

section \<open>Threads that create their handles\<close>

definition start_sending ::
  "nat \<Rightarrow> 'w ctx \<Rightarrow> byte list list \<Rightarrow> 'w storage \<Rightarrow> int64 \<Rightarrow> (options \<Rightarrow> options) list \<Rightarrow>
    ('w, gerror + byte list \<times> gerror option \<times> 'w writer) prog" where
  "start_sending fuel ctx ps st c opts = pbind (NewWriter st c opts) (\<lambda>res. case res of
     Inl e \<Rightarrow> Return (Inl e)
   | Inr w \<Rightarrow> pbind (send fuel ctx ps w) (\<lambda>z. Return (Inr z)))"

definition start_receiving ::
  "nat \<Rightarrow> 'w ctx \<Rightarrow> byte list list \<Rightarrow> 'w storage \<Rightarrow> int64 \<Rightarrow> (options \<Rightarrow> options) list \<Rightarrow>
    ('w, gerror + byte list \<times> gerror option \<times> 'w reader) prog" where
  "start_receiving fuel ctx bs st c opts = pbind (NewReader st c opts) (\<lambda>res. case res of
     Inl e \<Rightarrow> Return (Inl e)
   | Inr r \<Rightarrow> pbind (receive fuel ctx bs r) (\<lambda>z. Return (Inr z)))"


section \<open>Before and after the header is written\<close>

lemma header_ok_fixed: "fixed d' = fixed d \<Longrightarrow> header_ok c d' = header_ok c d"
proof -
  have "header_ok c (fixed d) = header_ok c d" for d
    by (simp add: header_ok_def fixed_def layout_defs u32_at_take u64_at_take)
  then show "fixed d' = fixed d \<Longrightarrow> header_ok c d' = header_ok c d" by metis
qed

definition no_history :: hist where
  "no_history = \<lparr>produced = [], consumed = [], wdebt = False, rdebt = False\<rparr>"

definition unset :: "('w \<Rightarrow> byte list) \<Rightarrow> ('w \<Rightarrow> bool) \<Rightarrow> nat \<Rightarrow> 'w \<Rightarrow> hist \<Rightarrow> bool" where
  "unset data live cap w g \<longleftrightarrow> live w \<and> headerSize + cap \<le> length (data w) \<and> \<not> header_ok (int cap) (data w) \<and>
     g = no_history"

definition in_use :: "('w \<Rightarrow> byte list) \<Rightarrow> ('w \<Rightarrow> bool) \<Rightarrow> (bool \<Rightarrow> byte list \<Rightarrow> bool) \<Rightarrow> nat \<Rightarrow> 'w \<Rightarrow> hist \<Rightarrow> bool" where
  "in_use data live A cap w g \<longleftrightarrow> spsc_inv data live A cap w g \<and> header_ok (int cap) (data w)"

text \<open>A ring that nothing has been read from, where a Reader's local head of 0 is right.\<close>

definition unread :: "('w \<Rightarrow> byte list) \<Rightarrow> ('w \<Rightarrow> bool) \<Rightarrow> (bool \<Rightarrow> byte list \<Rightarrow> bool) \<Rightarrow> nat \<Rightarrow> 'w \<Rightarrow> hist \<Rightarrow> bool" where
  "unread data live A cap w g \<longleftrightarrow> in_use data live A cap w g \<and> ring_head (data w) = 0 \<and> consumed g = [] \<and> \<not> rdebt g"

definition starting_step ::
  "('w \<Rightarrow> byte list) \<Rightarrow> ('w \<Rightarrow> bool) \<Rightarrow> ('w \<Rightarrow> nat \<Rightarrow> nat) option \<Rightarrow> (bool \<Rightarrow> byte list \<Rightarrow> bool) \<Rightarrow> nat \<Rightarrow> ('w, hist) interference" where
  "starting_step data live wk A cap = (\<lambda>(w, g) (w', g').
     if unset data live cap w g then unset data live cap w' g' \<or> unread data live A cap w' g'
     else writer_step data live wk A cap (w, g) (w', g') \<and> \<not> unset data live cap w' g')"

definition attaching_step ::
  "('w \<Rightarrow> byte list) \<Rightarrow> ('w \<Rightarrow> bool) \<Rightarrow> ('w \<Rightarrow> nat \<Rightarrow> nat) option \<Rightarrow> (bool \<Rightarrow> byte list \<Rightarrow> bool) \<Rightarrow> nat \<Rightarrow> ('w, hist) interference" where
  "attaching_step data live wk A cap = (\<lambda>(w, g) (w', g').
     if unset data live cap w g then unset data live cap w' g'
     else reader_step data live wk A cap (w, g) (w', g') \<and> \<not> unset data live cap w' g')"

lemma unset_not_in_use: "unset data live cap w g \<Longrightarrow> \<not> in_use data live A cap w g"
  by (simp add: unset_def in_use_def)

lemma unread_in_use: "unread data live A cap w g \<Longrightarrow> in_use data live A cap w g"
  by (simp add: unread_def)

lemma in_use_kept:
  assumes "in_use data live A cap w g"
  shows "writer_step data live wk A cap (w, g) (w', g') \<Longrightarrow> in_use data live A cap w' g'"
    and "reader_step data live wk A cap (w, g) (w', g') \<Longrightarrow> in_use data live A cap w' g'"
  using assms header_ok_fixed [of "data w'" "data w" "int cap"] by (simp_all add: in_use_def step_defs)

lemma unread_kept:
  "unread data live A cap w g \<Longrightarrow> writer_step data live wk A cap (w, g) (w', g') \<Longrightarrow> unread data live A cap w' g'"
  using in_use_kept(1) [of data live A cap w g wk w' g'] by (simp add: unread_def) (simp add: in_use_def writer_step_def)

text \<open>Once the ring is in use, the steps are those of the running threads.\<close>

lemma in_use_steps:
  assumes "in_use data live A cap w g"
  shows "attaching_step data live wk A cap (w, g) (w', g') \<longleftrightarrow> reader_step data live wk A cap (w, g) (w', g')"
    and "starting_step data live wk A cap (w, g) (w', g') \<longleftrightarrow> writer_step data live wk A cap (w, g) (w', g')"
  using assms in_use_kept [OF assms, of wk w' g'] unset_not_in_use [of data live cap _ _ A]
  by (auto simp: attaching_step_def starting_step_def)

lemma start_refl: "reflp (starting_step data live wk A cap)" "reflp (attaching_step data live wk A cap)"
  using reflpD [OF reflp_writer_step] reflpD [OF reflp_reader_step]
  by (auto simp: starting_step_def attaching_step_def intro!: reflpI)

lemma start_trans: "transp (starting_step data live wk A cap)" "transp (attaching_step data live wk A cap)"
proof -
  show "transp (starting_step data live wk A cap)"
  proof (rule transpI, clarify)
    fix u gu v gv w gw
    assume s: "starting_step data live wk A cap (u, gu) (v, gv)" "starting_step data live wk A cap (v, gv) (w, gw)"
    show "starting_step data live wk A cap (u, gu) (w, gw)"
    proof (cases "unread data live A cap v gv")
      case True
      then have "writer_step data live wk A cap (v, gv) (w, gw)" "unread data live A cap w gw"
        using s(2) unfolding in_use_steps(2) [OF unread_in_use [OF True]] by (blast intro: unread_kept)+
      then show ?thesis
        using s(1) transpD [OF transp_writer_step] unset_not_in_use [OF _ ] unread_in_use
        by (fastforce simp: starting_step_def split: if_splits)
    next
      case False
      then show ?thesis
        using s transpD [OF transp_writer_step]
        by (fastforce simp: starting_step_def split: if_splits)
    qed
  qed
  show "transp (attaching_step data live wk A cap)"
    using transpD [OF transp_reader_step]
    by (intro transpI) (fastforce simp: attaching_step_def split: if_splits)
qed

interpretation start: two_sided "attaching_step data live wk A cap" "starting_step data live wk A cap"
    "starting_step data live wk A cap" "attaching_step data live wk A cap"
  for data :: "'w \<Rightarrow> byte list" and live wk A cap
  by unfold_locales (simp_all add: start_refl start_trans)


section \<open>Creating a handle under interference\<close>

context waking_storage
begin

lemma rg_Size:
  assumes "stable R I" "I w g" "reflp G"
    and "\<And>w g. I w g \<Longrightarrow> live w \<and> headerSize + cap \<le> length (data w)"
    and "\<And>w g. I w g \<Longrightarrow> rg B R G Q (k False) w g"
    and "cap_ok cap"
  shows "rg B R G Q (pbind (query (\<lambda>w. Ok (Size S w))) (\<lambda>sz. k (sz < add64 (int headerSize) (int cap)))) w g"
proof (rule rg_query_stable [OF assms(1-3)])
  fix w g assume "I w g"
  with assms(4) have "Size S w = int (length (data w))" "headerSize + cap \<le> length (data w)"
    by (auto simp: size_data)
  moreover have "add64 (int headerSize) (int cap) = int (headerSize + cap)"
    using cap_ok_bounds [OF assms(6)] add64_nat [of headerSize cap] by (simp add: headerSize_def)
  ultimately have "\<not> Size S w < add64 (int headerSize) (int cap)" by simp
  with assms(5) [OF \<open>I w g\<close>] show "\<exists>a. Ok (Size S w) = Ok a \<and> rg B R G Q (k (a < add64 (int headerSize) (int cap))) w g"
    by simp
qed

lemma rg_NewReader:
  assumes I: "stable R I" "I w g" "reflp G"
    and len: "\<And>w g. I w g \<Longrightarrow> live w \<and> headerSize + cap \<le> length (data w)" and cap: "cap_ok cap"
    and bad: "\<And>w g. I w g \<Longrightarrow> \<not> header_ok (int cap) (data w) \<Longrightarrow> rg B R G Q (k (Inl ErrHeaderMismatch)) w g"
    and good: "\<And>w g. I w g \<Longrightarrow> header_ok (int cap) (data w) \<Longrightarrow>
      rg B R G Q (k (Inr \<lparr>r_st = S, r_capacity = int cap, r_mask = sub64 (int cap) 1,
        r_opt = applyOptions opts, r_head = 0, r_cachedTail = 0\<rparr>)) w g"
  shows "rg B R G Q (pbind (NewReader S (int cap) opts) k) w g"
proof -
  let ?r = "\<lparr>r_st = S, r_capacity = int cap, r_mask = sub64 (int cap) 1,
        r_opt = applyOptions opts, r_head = 0, r_cachedTail = 0\<rparr>"
  let ?c = "\<lambda>(buf, n :: int, err). case err of
      Some e \<Rightarrow> k (Inl e)
    | None \<Rightarrow> k (if Uint32 (drop offMagic buf) \<noteq> magic \<or> Uint32 (drop offVersion buf) \<noteq> formatVersion \<or>
        Uint64 (drop offCapacity buf) \<noteq> word_of_int (int cap) then Inl ErrHeaderMismatch else Inr ?r)"
  let ?check = "pbind (query (ReadAt S (replicate headerSize 0) 0)) ?c"
  have check: "rg B R G Q ?check w g" if "I w g" for w g
  proof (rule rg_query_stable [OF I(1) that I(3)])
    fix w g assume i: "I w g"
    with len have w: "live w" "headerSize \<le> length (data w)" by force+
    have "?c (take headerSize (data w), int headerSize, None) =
        k (if header_ok (int cap) (data w) then Inr ?r else Inl ErrHeaderMismatch)"
      by (simp add: read_header [OF w] header_ok_def)
    then show "\<exists>a. ReadAt S (replicate headerSize 0) 0 w = Ok a \<and> rg B R G Q (?c a) w g"
      using good [OF i] bad [OF i] read_header(1) [OF w] by simp
  qed
  have "rg B R G Q (pbind (query (\<lambda>w. Ok (Size S w)))
      (\<lambda>sz. (\<lambda>small. if small then k (Inl ErrStorageTooSmall) else ?check) (sz < add64 (int headerSize) (int cap)))) w g"
    by (rule rg_Size [OF I len _ cap]) (simp_all only: check if_False)
  moreover have "pbind (NewReader S (int cap) opts) k = pbind (query (\<lambda>w. Ok (Size S w)))
      (\<lambda>sz. if sz < add64 (int headerSize) (int cap) then k (Inl ErrStorageTooSmall) else ?check)"
    using cap
    by (auto simp: cap_ok_validate NewReader_def verifyHeader_def pbind_assoc fun_eq_iff
      intro!: arg_cong [where f = "pbind _"] split: option.split)
  ultimately show ?thesis by simp
qed

lemma rg_NewWriter:
  assumes I: "stable R I" "I w g" "reflp G"
    and len: "\<And>w g. I w g \<Longrightarrow> live w \<and> headerSize + cap \<le> length (data w)" and cap: "cap_ok cap"
    and init: "\<And>w g w'. I w g \<Longrightarrow> live w' \<Longrightarrow> data w' = patch (data w) 0 (header_bytes (int cap)) \<Longrightarrow>
      \<exists>g'. G (w, g) (w', g') \<and>
        rg B R G Q (k (Inr \<lparr>w_st = S, w_capacity = int cap, w_mask = sub64 (int cap) 1,
          w_opt = applyOptions opts, w_tail = 0, w_cachedHead = 0, w_closed = False\<rparr>)) w' g'"
  shows "rg B R G Q (pbind (NewWriter S (int cap) opts) k) w g"
proof -
  let ?w = "\<lparr>w_st = S, w_capacity = int cap, w_mask = sub64 (int cap) 1,
        w_opt = applyOptions opts, w_tail = 0, w_cachedHead = 0, w_closed = False\<rparr>"
  let ?c = "\<lambda>(n :: int, err). case err of Some e \<Rightarrow> k (Inl e) | None \<Rightarrow> k (Inr ?w)"
  let ?store = "pbind (call (WriteAt S (header_bytes (int cap)) 0)) ?c"
  have stores: "rg B R G Q ?store w g" if "I w g" for w g
  proof (rule rg_call_stable [OF I(1) that])
    fix w g assume i: "I w g"
    with len have w: "live w" "headerSize \<le> length (data w)" by force+
    with write_ok [OF w(1) header_bytes_ne, of 0] obtain w' where "live w'" "data w' = patch (data w) 0 (header_bytes (int cap))"
      "WriteAt S (header_bytes (int cap)) 0 w = (Ok (int headerSize, None), w')" by auto
    with init [OF i] show "\<exists>a w' g'. WriteAt S (header_bytes (int cap)) 0 w = (Ok a, w') \<and>
        G (w, g) (w', g') \<and> rg B R G Q (?c a) w' g'" by fastforce
  qed
  have "rg B R G Q (pbind (query (\<lambda>w. Ok (Size S w)))
      (\<lambda>sz. (\<lambda>small. if small then k (Inl ErrStorageTooSmall) else ?store) (sz < add64 (int headerSize) (int cap)))) w g"
    by (rule rg_Size [OF I len _ cap]) (simp_all only: stores if_False)
  moreover have "pbind (NewWriter S (int cap) opts) k = pbind (query (\<lambda>w. Ok (Size S w)))
      (\<lambda>sz. if sz < add64 (int headerSize) (int cap) then k (Inl ErrStorageTooSmall) else ?store)"
    using cap
    by (auto simp: cap_ok_validate NewWriter_def initHeader_def pbind_assoc fun_eq_iff
      intro!: arg_cong [where f = "pbind _"] split: option.split)
  ultimately show ?thesis by simp
qed

text \<open>From the header on, the proofs of the running threads apply.\<close>

lemma rg_in_use_sender:
  assumes "rg B (reader_step data live wk A cap) (writer_step data live wk A cap) Q p w g" "in_use data live A cap w g"
  shows "rg B (attaching_step data live wk A cap) (starting_step data live wk A cap)
    (\<lambda>a w g. Q a w g \<and> in_use data live A cap w g) p w g"
  using assms by (rule rg_within) (auto simp: in_use_steps intro: in_use_kept)

lemma rg_in_use_receiver:
  assumes "rg B (writer_step data live wk A cap) (reader_step data live wk A cap) Q p w g" "in_use data live A cap w g"
  shows "rg B (starting_step data live wk A cap) (attaching_step data live wk A cap)
    (\<lambda>a w g. Q a w g \<and> in_use data live A cap w g) p w g"
  using assms by (rule rg_within) (auto simp: in_use_steps intro: in_use_kept)

lemma header_written:
  assumes "unset data live cap w g" "live w'" "data w' = patch (data w) 0 (header_bytes (int cap))" "cap_ok cap" "A False []"
  shows "unread data live A cap w' g"
    and "writer_knows data live wk A cap \<lparr>w_st = S, w_capacity = int cap, w_mask = sub64 (int cap) 1,
      w_opt = applyOptions opts, w_tail = 0, w_cachedHead = 0, w_closed = False\<rparr> [] [] w' g"
proof -
  have len: "headerSize + cap \<le> length (data w)" and g: "g = no_history" using assms(1) by (simp_all add: unset_def)
  note fresh = fresh_ring [OF assms(4) len, folded assms(3)]
  have i: "spsc_inv data live A cap w' g"
    using fresh assms(2,5) by (simp add: spsc_inv_def g no_history_def)
  then show "unread data live A cap w' g"
    using fresh by (simp add: unread_def in_use_def g no_history_def)
  have "sub64 (int cap) 1 = int cap - 1"
    using cap_ok_bounds [OF assms(4)] sub64_nat [of 1 cap] by (simp add: of_nat_diff)
  then show "writer_knows data live wk A cap \<lparr>w_st = S, w_capacity = int cap, w_mask = sub64 (int cap) 1,
      w_opt = applyOptions opts, w_tail = 0, w_cachedHead = 0, w_closed = False\<rparr> [] [] w' g"
    using i fresh by (simp add: writer_knows_def writer_inv_def staged_def g no_history_def)
qed

lemma rg_start_sending:
  assumes ctx: "ctx_ok data live ctx" and A: "\<And>c x. prefix x (concat ps) \<Longrightarrow> A c x"
    and "unset data live cap w g" "cap_ok cap"
  shows "rg (writer_waits data wk cap) (attaching_step data live wk A cap) (starting_step data live wk A cap)
    (\<lambda>res w g. (\<exists>sent e h. res = Inr (sent, e, h) \<and> produced g = sent \<and> prefix sent (concat ps)) \<and> \<not> wdebt g \<and>
      in_use data live A cap w g)
    (start_sending fuel ctx ps S (int cap) opts) w g"
  (is "rg ?B ?R ?G ?Q _ w g")
  unfolding start_sending_def
proof (rule rg_NewWriter [where I = "unset data live cap" and w = w and g = g, OF _ _ start_refl(1) _ assms(4)])
  show "unset data live cap w g" by (rule assms(3))
  show "stable ?R (unset data live cap)" by (simp add: stable_def attaching_step_def)
  show "live w \<and> headerSize + cap \<le> length (data w)" if "unset data live cap w g" for w g
    using that by (simp add: unset_def)
  fix w g w' assume u: "unset data live cap w g" and w': "live w'" "data w' = patch (data w) 0 (header_bytes (int cap))"
  note hw = header_written [where A = A, OF u w' assms(4) A [of "[]" False, simplified]]
  let ?w = "\<lparr>w_st = S, w_capacity = int cap, w_mask = sub64 (int cap) 1,
        w_opt = applyOptions opts, w_tail = 0, w_cachedHead = 0, w_closed = False\<rparr>"
  let ?Qs = "\<lambda>res w g. (\<exists>sent e h. res = Inr (sent, e, h) \<and> produced g = sent \<and> prefix sent (concat ps)) \<and> \<not> wdebt g"
  have "rg ?B (reader_step data live wk A cap) (writer_step data live wk A cap) ?Qs
      (pbind (send fuel ctx ps ?w) (\<lambda>z. Return (Inr z))) w' g"
  proof (rule rg_send [OF ctx _ hw(2)])
    show "rg ?B (reader_step data live wk A cap) (writer_step data live wk A cap) ?Qs (Return (Inr (sent, e, h'))) w g"
      if "prefix sent (concat ps)" "writer_knows data live wk A cap h' ([] @ sent) [] w g" for sent e h' w g
      using that by (intro rg_Return_stable [OF writer_knows_stable that(2)]) (simp add: writer_knows_def)
  qed (simp_all add: A)
  note sends = rg_mono [OF rg_in_use_sender [OF this unread_in_use [OF hw(1)]], of ?Q]
  have "?G (w, g) (w', g)" using u hw(1) by (simp add: starting_step_def)
  moreover have "rg ?B ?R ?G ?Q (pbind (send fuel ctx ps ?w) (\<lambda>z. Return (Inr z))) w' g"
    by (rule sends) simp
  ultimately show "\<exists>g'. ?G (w, g) (w', g') \<and> rg ?B ?R ?G ?Q (case Inr ?w of Inl e \<Rightarrow> Return (Inl e)
      | Inr w \<Rightarrow> pbind (send fuel ctx ps w) (\<lambda>z. Return (Inr z))) w' g'"
    unfolding sum.case by (rule exI [of _ g, OF conjI])
qed

lemma rg_start_receiving:
  assumes ctx: "ctx_ok data live ctx"
    and "unset data live cap w g \<or> unread data live A cap w g" "cap_ok cap"
  shows "rg (reader_waits data wk cap) (starting_step data live wk A cap) (attaching_step data live wk A cap)
    (\<lambda>res w g. (res = Inl ErrHeaderMismatch \<or> (\<exists>got e r. res = Inr (got, e, r) \<and> consumed g = got)) \<and> \<not> rdebt g)
    (start_receiving fuel ctx bs S (int cap) opts) w g"
  (is "rg ?B ?R ?G ?Q _ w g")
proof -
  let ?I = "\<lambda>w g. unset data live cap w g \<or> unread data live A cap w g"
  have I: "stable ?R ?I"
    unfolding stable_def
    by (auto simp: in_use_steps [OF unread_in_use] intro: unread_kept) (simp add: starting_step_def)
  show ?thesis
    unfolding start_receiving_def
  proof (rule rg_NewReader [where I = ?I and w = w and g = g, OF I _ start_refl(2) _ assms(3)])
    show "?I w g" using assms(2) by simp
    show "live w \<and> headerSize + cap \<le> length (data w)" if "?I w g" for w g
      using that by (auto simp: unset_def unread_def in_use_def spsc_inv_def ring_ok_def)
    fix w g assume i: "?I w g"
    show "rg ?B ?R ?G ?Q (case Inl ErrHeaderMismatch of Inl e \<Rightarrow> Return (Inl e)
        | Inr r \<Rightarrow> pbind (receive fuel ctx bs r) (\<lambda>z. Return (Inr z))) w g"
      using i by (auto intro!: rg_Return_stable [OF I] simp: unset_def unread_def no_history_def)
    let ?r = "\<lparr>r_st = S, r_capacity = int cap, r_mask = sub64 (int cap) 1,
        r_opt = applyOptions opts, r_head = 0, r_cachedTail = 0\<rparr>"
    assume "header_ok (int cap) (data w)"
    with i have u: "unread data live A cap w g" by (auto simp: unset_def)
    have "sub64 (int cap) 1 = int cap - 1"
      using cap_ok_bounds [OF assms(3)] sub64_nat [of 1 cap] by (simp add: of_nat_diff)
    then have kn: "reader_knows data live wk A cap ?r [] [] w g"
      using u by (auto simp: reader_knows_def reader_inv_def unread_def in_use_def spsc_inv_def)
    have "rg ?B (writer_step data live wk A cap) (reader_step data live wk A cap) ?Q
        (pbind (receive fuel ctx bs ?r) (\<lambda>z. Return (Inr z))) w g"
    proof (rule rg_receive [OF ctx kn])
      show "rg ?B (writer_step data live wk A cap) (reader_step data live wk A cap) ?Q (Return (Inr (got, e, r'))) w g"
        if "reader_knows data live wk A cap r' ([] @ got) [] w g" for got e r' w g
        by (rule rg_Return_stable [OF reader_knows_stable that]) (simp add: reader_knows_def)
    qed simp
    note receives = rg_mono [OF rg_in_use_receiver [OF this unread_in_use [OF u]], of ?Q]
    show "rg ?B ?R ?G ?Q (case Inr ?r of Inl e \<Rightarrow> Return (Inl e)
        | Inr r \<Rightarrow> pbind (receive fuel ctx bs r) (\<lambda>z. Return (Inr z))) w g"
      unfolding sum.case by (rule receives) simp
  qed
qed

end


section \<open>The two threads together\<close>

lemma start_run:
  assumes S: "waking_storage SW data live wk" "waking_storage SR data live wk"
    and ctx: "ctx_ok data live c1" "ctx_ok data live c2"
    and init: "live s" "cap_ok cap" "headerSize + cap \<le> length (data s)" "\<not> header_ok (int cap) (data s)"
    and run: "par_run ss (start_sending f1 c1 ps SW (int cap) o1, start_receiving f2 c2 bs SR (int cap) o2, s) = (p', q', s')"
  defines "A \<equiv> \<lambda>_ x. prefix x (concat ps)"
  shows "\<exists>g. (unset data live cap s' g \<or> in_use data live A cap s' g) \<and> p' \<noteq> Crash c \<and> q' \<noteq> Crash c' \<and>
    (\<forall>res. p' = Return res \<longrightarrow> in_use data live A cap s' g \<and> (\<exists>e w. res = Inr (produced g, e, w)) \<and>
      prefix (produced g) (concat ps)) \<and>
    (\<forall>res. q' = Return res \<longrightarrow> res = Inl ErrHeaderMismatch \<or> (\<exists>e r. res = Inr (consumed g, e, r))) \<and>
    (tstep p' s' = None \<longrightarrow> (\<exists>a. p' = Return a) \<and> \<not> wdebt g \<or> writer_asleep data wk cap s' g \<or> out_of_fuel p') \<and>
    (tstep q' s' = None \<longrightarrow> (\<exists>a. q' = Return a) \<and> \<not> rdebt g \<or> reader_asleep data wk cap s' g \<or> out_of_fuel q')"
proof -
  let ?W = "attaching_step data live wk A cap" and ?R = "starting_step data live wk A cap"
  let ?QW = "\<lambda>(res :: gerror + byte list \<times> gerror option \<times> _) w g.
      (\<exists>sent e h. res = Inr (sent, e, h) \<and> produced g = sent \<and> prefix sent (concat ps)) \<and> \<not> wdebt g \<and>
      in_use data live A cap w g"
  let ?QR = "\<lambda>(res :: gerror + byte list \<times> gerror option \<times> _) w g.
      (res = Inl ErrHeaderMismatch \<or> (\<exists>got e r. res = Inr (got, e, r) \<and> consumed g = got)) \<and> \<not> rdebt g"
  let ?J = "\<lambda>w g. unset data live cap w g \<or> in_use data live A cap w g"
  have u: "unset data live cap s no_history" using init by (simp add: unset_def)
  have rw: "rg (writer_waits data wk cap) ?W ?R ?QW (start_sending f1 c1 ps SW (int cap) o1) s no_history"
    by (rule waking_storage.rg_start_sending [OF S(1) ctx(1) _ u init(2)]) (simp add: A_def)
  have rr: "rg (reader_waits data wk cap) ?R ?W ?QR (start_receiving f2 c2 bs SR (int cap) o2) s no_history"
    by (rule waking_storage.rg_start_receiving [OF S(2) ctx(2) disjI1 [OF u] init(2)])
  have J: "stable ?W ?J" "stable ?R ?J"
    unfolding stable_def
    by (auto simp: in_use_steps intro: in_use_kept)
      (auto simp: starting_step_def attaching_step_def dest: unread_in_use)
  obtain g where g: "?J s' g" "rg (writer_waits data wk cap) ?W ?R ?QW p' s' g"
      "rg (reader_waits data wk cap) ?R ?W ?QR q' s' g"
    using start.par_run_sound [OF rw rr run J] u by blast
  moreover have "p' \<noteq> Crash c" "q' \<noteq> Crash c'" using g(2,3) by (auto simp: rg_Crash)
  moreover have "tstep p' s' = None \<longrightarrow> (\<exists>a. p' = Return a) \<and> \<not> wdebt g \<or> writer_asleep data wk cap s' g \<or> out_of_fuel p'"
    using start.blocked_left [OF g(2)] by (fastforce simp: out_of_fuel_def writer_waits_def)
  moreover have "tstep q' s' = None \<longrightarrow> (\<exists>a. q' = Return a) \<and> \<not> rdebt g \<or> reader_asleep data wk cap s' g \<or> out_of_fuel q'"
    using start.blocked_right [OF g(3)] by (fastforce simp: out_of_fuel_def reader_waits_def)
  moreover have "?QW a s' g" if "p' = Return a" for a
    by (rule start.returned_left) (use g(2) that in blast)
  moreover have "?QR b s' g" if "q' = Return b" for b
    by (rule start.returned_right) (use g(3) that in blast)
  ultimately show ?thesis by (intro exI [of _ g]) auto
qed

text \<open>
  C10: the two ends may be created in any order. A sending thread that calls \<^verbatim>\<open>NewWriter\<close> and
  a receiving thread that calls \<^verbatim>\<open>NewReader\<close> run under any schedule on a storage that holds
  no header of this capacity. Neither panics; \<^verbatim>\<open>NewWriter\<close> succeeds; \<^verbatim>\<open>NewReader\<close> either is
  refused with \<^verbatim>\<open>ErrHeaderMismatch\<close>, when it came first, or the receiver gets a prefix of what
  the sender was given to send, from its first byte on, however late it attached; and no
  byte is lost between the two ends.
\<close>

theorem concurrent_start:
  assumes "ring_storage SW data live" "ring_storage SR data live"
    and "ctx_ok data live c1" "ctx_ok data live c2"
    and "live s" "cap_ok cap" "headerSize + cap \<le> length (data s)" "\<not> header_ok (int cap) (data s)"
    and "par_run ss (start_sending f1 c1 ps SW (int cap) o1, start_receiving f2 c2 bs SR (int cap) o2, s) = (p', q', s')"
  shows "p' \<noteq> Crash c \<and> q' \<noteq> Crash c' \<and>
    (\<forall>res. p' = Return res \<longrightarrow> (\<exists>sent e w. res = Inr (sent, e, w) \<and> prefix sent (concat ps))) \<and>
    (\<forall>res. q' = Return res \<longrightarrow>
      res = Inl ErrHeaderMismatch \<or> (\<exists>got e r. res = Inr (got, e, r) \<and> prefix got (concat ps))) \<and>
    (\<forall>sent e1 w got e2 r. p' = Return (Inr (sent, e1, w)) \<and> q' = Return (Inr (got, e2, r)) \<longrightarrow>
      sent = got @ contents cap (data s'))"
proof -
  obtain g where g: "unset data live cap s' g \<or> in_use data live (\<lambda>_ x. prefix x (concat ps)) cap s' g"
      "p' \<noteq> Crash c" "q' \<noteq> Crash c'"
      "\<forall>res. p' = Return res \<longrightarrow> in_use data live (\<lambda>_ x. prefix x (concat ps)) cap s' g \<and> (\<exists>e w. res = Inr (produced g, e, w)) \<and> prefix (produced g) (concat ps)"
      "\<forall>res. q' = Return res \<longrightarrow> res = Inl ErrHeaderMismatch \<or> (\<exists>e r. res = Inr (consumed g, e, r))"
    using start_run [OF assms(1,2) [THEN ring_storage.waking_None] assms(3-), of c c'] by blast
  have "prefix (consumed g) (concat ps)"
    using g(1) by (auto simp: unset_def no_history_def in_use_def spsc_inv_def dest: append_prefixD)
  moreover have "sent = got @ contents cap (data s')"
    if "p' = Return (Inr (sent, e, w))" "q' = Return (Inr (got, e', r))" for sent e w got e' r
    using g(4,5) that by (auto simp: in_use_def spsc_inv_def)
  ultimately show ?thesis using g(2-5) by blast
qed

text \<open>The Reader comes in after the Writer has written twice.\<close>

definition late :: "side list" where
  "late = [ReaderSide] @ replicate 8 WriterSide @ replicate 5 ReaderSide @ replicate 9 WriterSide"

theorem concurrent_start_witness:
  "case par_run late (start_sending 2 Background [[1], [2, 3]] mem_storage 4 [],
      start_receiving 2 Background [[0, 0]] mem_storage 4 [], \<lparr>buf = replicate 68 0\<rparr>) of
     (Return (Inr (sent, e1, w)), Return (Inr (got, e2, r)), s) \<Rightarrow> sent = [1, 2, 3] \<and> got = [1, 2] \<and> contents 4 (buf s) = [3]
   | _ \<Rightarrow> False"
proof -
  let ?c = "par_run late (start_sending 2 Background [[1], [2, 3]] mem_storage 4 [],
      start_receiving 2 Background [[0, 0]] mem_storage 4 [], \<lparr>buf = replicate 68 0\<rparr>)"
  have *: "case ?c of (Return (Inr (sent, e1, w)), Return (Inr (got, e2, r)), s) \<Rightarrow> sent = [1, 2, 3] \<and> got = [1, 2]
      | _ \<Rightarrow> False" by code_simp
  obtain p' q' s' where c: "?c = (p', q', s')" by (metis prod.exhaust)
  with * obtain e1 w e2 r where pq: "p' = Return (Inr ([1, 2, 3], e1, w))" "q' = Return (Inr ([1, 2], e2, r))"
    by (auto split: prog.splits sum.splits)
  have "cap_ok 4" unfolding cap_ok_def by (rule exI [of _ 2]) simp
  then have "[1, 2, 3] = [1, 2] @ contents 4 (buf s')"
    using concurrent_start [where cap = 4, unfolded of_nat_numeral, OF mem_ring_storage mem_ring_storage
        Background_ok Background_ok _ _ _ _ c, of undefined undefined]
    by (simp add: pq header_ok_def u32_at_def slice_def Uint32_def layout_defs magic_def)
  then have "contents 4 (buf s') = [3]" by simp
  then show ?thesis unfolding c pq by simp
qed


section \<open>A segment that is still there\<close>

context ring_storage
begin

text \<open>A head ahead of the tail: the difference wraps, and the Reader sees up to \<open>2 ^ 32\<close> bytes.\<close>

lemma run_TryRead_ahead:
  assumes "live s" "r_st r = S" "ring_ok cap (data s)" "r_capacity r = int cap" "r_mask r = int cap - 1"
    and "ring_tail (data s) = 0" "0 < unat (r_head r)" "unat (r_head r) + length p + cap < 2 ^ 32"
    and "p \<noteq> []" "length p \<le> cap"
  shows "\<exists>q r' s'. run (TryRead r p) s = (Done ((int (length p), None), q, r'), s') \<and>
    ring_tail (data s') = 0 \<and> ring_head (data s') = r_head r + of_nat (length p)"
proof -
  have lens: "offHead + 4 \<le> length (data s)" "4 dvd offHead" "offTail + 4 \<le> length (data s)" "4 dvd offTail"
    using assms(3) by (auto simp: ring_ok_def layout_defs)
  obtain s' where s': "run (writeUint32At S offHead (r_head r + of_nat (length p))) s = (Done None, s')"
      "data s' = patch (data s) offHead (le32 (r_head r + of_nat (length p)))"
    using run_write32 [OF assms(1) lens(1,2)] by blast
  have "headerSize \<le> length (data s)" using assms(3) by (simp add: ring_ok_def)
  then have words: "ring_tail (data s') = 0" "ring_head (data s') = r_head r + of_nat (length p)"
    using assms(6) by (simp_all add: s'(2) counter_defs layout_defs u32_at_patch_other le_simps)
  have read: "run (readAvailable r' p) s = (Done ((int (length p), None), cells cap (data s) (unat (r_head r')) (length p),
      r'\<lparr>r_head := r_head r' + of_nat (length p)\<rparr>), s')"
    if "r_st r' = S" "r_capacity r' = int cap" "r_mask r' = int cap - 1" "r_head r' = r_head r"
      "length p \<le> unat (r_cachedTail r' - r_head r')" for r'
    using that assms(9,10) s'(1) run_readRing_cells [OF assms(1) that(1) assms(3) that(2,3), of "length p" p]
    by (simp add: readAvailable_eq min_absorb1 run_basic advanceHead_def Let_def)
  show ?thesis
  proof (cases "unat (r_cachedTail r - r_head r) < length p")
    case False
    then have "run (TryRead r p) s = run (readAvailable r p) s"
      using assms(9) by (simp add: TryRead_def readerAvail_less)
    with False read [of r] words assms(2,4,5) show ?thesis by simp
  next
    case True
    let ?r = "r\<lparr>r_cachedTail := 0\<rparr>"
    have "run (TryRead r p) s = run (readAvailable ?r p) s"
      using True assms(2,6,9) run_read32 [OF assms(1) lens(3,4)]
      by (simp add: TryRead_def readerAvail_less run_basic ring_tail_def)
    moreover have "unat (- r_head r) = 2 ^ 32 - unat (r_head r)"
      using assms(7) by (simp add: unat_neg)
    ultimately show ?thesis using read [of ?r] words assms(2,4,5,8) by simp
  qed
qed

end





end
