(* ===== verification/Frame.thy ===== *)
theory Frame
  imports Attach
begin

text \<open>
  What the calls of a Writer or Reader leave alone. \<open>framed E V p\<close>: each atomic step of \<open>p\<close>, from any
  world, is an \<open>E\<close> step, and a result satisfies \<open>V\<close>. Every call on a handle is framed by what
  its storage's methods are, so a thread that uses a mapping does not touch names, descriptors or mappings.
\<close>

section \<open>Framed programs\<close>

primrec framed :: "('w \<Rightarrow> 'w \<Rightarrow> bool) \<Rightarrow> ('a \<Rightarrow> bool) \<Rightarrow> ('w, 'a) prog \<Rightarrow> bool" where
  "framed E V (Return a) = V a"
| "framed E V (Atomic f) = (\<forall>w. E w (snd (f w)) \<and> fst (map_prod (framed E V) id (f w)))"
| "framed E V (Await b p) = framed E V p"
| "framed E V (Crash c) = True"

lemma framed_Atomic: "framed E V (Atomic f) \<longleftrightarrow> (\<forall>w. E w (snd (f w)) \<and> framed E V (fst (f w)))"
  by (simp add: map_prod_def split_beta)

declare framed.simps(2) [simp del]

lemma framed_pbind: "framed E V m \<Longrightarrow> (\<And>a. V a \<Longrightarrow> framed E V' (k a)) \<Longrightarrow> framed E V' (pbind m k)"
  by (induction m) (simp_all add: framed_Atomic pbind_Atomic del: pbind.simps(2))

lemma framed_weaken: "framed E V m \<Longrightarrow> (\<And>a. V a \<Longrightarrow> V' a) \<Longrightarrow> framed E V' m"
  by (induction m) (simp_all add: framed_Atomic)

lemma framed_call: "(\<And>w. E w (snd (f w))) \<Longrightarrow> framed E (\<lambda>_. True) (call f)"
  unfolding call_def framed_Atomic by (auto split: prod.split go.split) (metis snd_conv)+

lemma framed_query: "reflp E \<Longrightarrow> framed E (\<lambda>_. True) (query f)"
  unfolding query_def by (rule framed_call) (simp add: reflpD)

lemma quiet_framed: "quiet (\<lambda>_. True) E p \<Longrightarrow> framed E (\<lambda>_. True) p"
  by (induction p) (simp_all add: quiet_Atomic framed_Atomic del: quiet.simps(2))

text \<open>
  The steps of a framed program keep what \<open>E\<close> keeps, so its proof over one history lifts to a history with
  more in it: \<open>s\<close> stays as it is, and \<open>I\<close> relates the two.
\<close>

lemma rg_lift:
  assumes "rg B R G Q p w h" "framed E V p" "I w h s"
    and R: "\<And>w h s w' h' s'. I w h s \<Longrightarrow> R' (w, h, s) (w', h', s') \<Longrightarrow> R (w, h) (w', h') \<and> I w' h' s'"
    and G: "\<And>w h s w' h'. I w h s \<Longrightarrow> G (w, h) (w', h') \<Longrightarrow> E w w' \<Longrightarrow> G' (w, h, s) (w', h', s) \<and> I w' h' s"
  shows "rg (\<lambda>_ _ _. True) R' G' (\<lambda>a w (h, s). Q a w h \<and> I w h s) p w (h, s)"
  using assms(1-3)
proof (induction p arbitrary: w h s)
  case (Atomic f)
  show ?case
    unfolding rg_Atomic
  proof (intro allI impI)
    fix w' g' assume r: "R' (w, h, s) (w', g')"
    obtain h' s' where g': "g' = (h', s')" by (cases g')
    from R [OF Atomic.prems(3)] r have "R (w, h) (w', h')" and I': "I w' h' s'" by (auto simp: g')
    then obtain h'' where "G (w', h') (snd (f w'), h'')" and q: "rg B R G Q (fst (f w')) (snd (f w')) h''"
      using Atomic.prems(1) by (auto simp: rg_Atomic)
    moreover have "E w' (snd (f w'))" "framed E V (fst (f w'))" using Atomic.prems(2) by (auto simp: framed_Atomic)
    ultimately have "G' (w', h', s') (snd (f w'), h'', s')" "I (snd (f w')) h'' s'" using G [OF I'] by blast+
    with Atomic.IH [OF q \<open>framed E V (fst (f w'))\<close>] show "\<exists>g''. G' (w', g') (snd (f w'), g'') \<and>
        rg (\<lambda>_ _ _. True) R' G' (\<lambda>a w (h, s). Q a w h \<and> I w h s) (fst (f w')) (snd (f w')) g''"
      by (auto simp: g')
  qed
qed (use R in \<open>fastforce simp: rg_Return rg_Await rg_Crash split: if_splits\<close>)+


section \<open>The calls on a handle\<close>

definition writer_on :: "'w storage \<Rightarrow> 'w writer \<Rightarrow> bool" where
  "writer_on S h \<longleftrightarrow> w_st h = S"

definition reader_on :: "'w storage \<Rightarrow> 'w reader \<Rightarrow> bool" where
  "reader_on S r \<longleftrightarrow> r_st r = S"

lemma handle_on [simp]:
  "writer_on S (h\<lparr>w_tail := t\<rparr>) = writer_on S h" "writer_on S (h\<lparr>w_cachedHead := t\<rparr>) = writer_on S h"
  "writer_on S (h\<lparr>w_closed := b\<rparr>) = writer_on S h" "reader_on S (r\<lparr>r_head := t\<rparr>) = reader_on S r"
  "reader_on S (r\<lparr>r_cachedTail := t\<rparr>) = reader_on S r"
  "writer_on S \<lparr>w_st = S', w_capacity = c, w_mask = m, w_opt = opts, w_tail = t, w_cachedHead = t', w_closed = b\<rparr> = (S' = S)"
  "reader_on S \<lparr>r_st = S', r_capacity = c, r_mask = m, r_opt = opts, r_head = t, r_cachedTail = t'\<rparr> = (S' = S)"
  by (simp_all add: writer_on_def reader_on_def)

locale framed_storage =
  fixes E :: "'w \<Rightarrow> 'w \<Rightarrow> bool" and S :: "'w storage"
  assumes refl: "reflp E"
    and write_frame: "E w (snd (WriteAt S p off w))"
    and store_frame: "AtomicStorage S = Some a \<Longrightarrow> E w (snd (StoreUint32 a off v w))"
    and wake_frame: "WaiterStorage S = Some u \<Longrightarrow> E w (snd (Wake u off w))"
    and wait_frame: "WaiterStorage S = Some u \<Longrightarrow> framed E (\<lambda>_. True) (Wait u off v d)"
begin

lemma st [simp]: "writer_on S h \<Longrightarrow> w_st h = S" "reader_on S r \<Longrightarrow> r_st r = S"
  by (simp_all add: writer_on_def reader_on_def)

lemma framed_accesses:
  shows "framed E (\<lambda>_. True) (query f)" "framed E (\<lambda>_. True) (call (WriteAt S p off))"
    "framed E (\<lambda>_. True) (readUint32At S i)" "framed E (\<lambda>_. True) (writeUint32At S i v)"
    "framed E (\<lambda>_. True) (blockRound S i v opts Background wait)"
proof -
  show q: "framed E (\<lambda>_. True) (query f)" for f by (rule framed_query [OF refl])
  show c: "framed E (\<lambda>_. True) (call (WriteAt S p off))" for p off by (rule framed_call) (rule write_frame)
  have "framed E (\<lambda>_. True) (storeWord S i v)"
    by (auto simp: storeWord_def intro!: framed_call store_frame framed_pbind [OF c] split: option.split)
  moreover have "framed E (\<lambda>_. True) (wakeWord S i)"
    by (auto simp: wakeWord_def intro!: framed_call wake_frame split: option.split)
  ultimately show "framed E (\<lambda>_. True) (writeUint32At S i v)"
    by (auto simp: writeUint32At_def intro!: framed_pbind split: option.split)
  show "framed E (\<lambda>_. True) (readUint32At S i)"
    by (auto simp: readUint32At_def intro!: q framed_pbind [OF q] split: option.split)
  show "framed E (\<lambda>_. True) (blockRound S i v opts Background wait)"
    by (auto simp: blockRound_def waitSlice_def intro!: framed_pbind [OF q] framed_pbind [OF wait_frame] split: option.split)
qed

lemmas then_query = framed_pbind [OF framed_accesses(1)]
  and then_call = framed_pbind [OF framed_accesses(2)]
  and then_load = framed_pbind [OF framed_accesses(3)]
  and then_store = framed_pbind [OF framed_accesses(4)]
  and then_block = framed_pbind [OF framed_accesses(5)]

lemma framed_TryWrite: "writer_on S h \<Longrightarrow> framed E (\<lambda>(_, h). writer_on S h) (TryWrite h p)"
proof -
  assume h: "writer_on S h"
  have "framed E (\<lambda>_. True) (writeRing h' p n)" if "writer_on S h'" for h' n
    using that by (auto simp: writeRing_def Let_def intro!: then_call split: option.split)
  moreover have "framed E (\<lambda>(_, h). writer_on S h) (publishTail h' n)" if "writer_on S h'" for h' n
    using that by (auto simp: publishTail_def Let_def intro!: then_store split: option.split)
  ultimately have "framed E (\<lambda>(_, h). writer_on S h) (writeFreeSpace h' p)" if "writer_on S h'" for h'
    using that by (auto simp: writeFreeSpace_def Let_def intro!: framed_pbind [where V = "\<lambda>_. True"] split: option.split)
  then show ?thesis
    using h by (auto simp: TryWrite_def intro!: then_load split: sum.split)
qed

lemma framed_writeLoop: "writer_on S h \<Longrightarrow> framed E (\<lambda>(_, h). writer_on S h) (writeLoop fuel Background h p m wait)"
proof (induction fuel arbitrary: h m wait)
  case (Suc fuel)
  then show ?case
    by (auto simp: Let_def intro!: framed_pbind [OF framed_TryWrite] then_block split: option.split sum.split)
qed simp

lemma framed_CloseWriter: "writer_on S h \<Longrightarrow> framed E (\<lambda>(_, h). writer_on S h) (CloseWriter h)"
  by (auto simp: CloseWriter_def Let_def intro!: then_store split: option.split)

lemma framed_send: "writer_on S h \<Longrightarrow> framed E (\<lambda>_. True) (send fuel Background ps h)"
proof (induction ps arbitrary: h)
  case Nil
  then show ?case by (auto intro!: framed_pbind [OF framed_CloseWriter])
next
  case (Cons p ps)
  show ?case
    unfolding send.simps WriteContext_def
    by (rule framed_pbind [OF framed_writeLoop [OF Cons.prems]])
      (auto intro!: Cons.IH framed_pbind [where V = "\<lambda>_. True"] split: option.split)
qed

lemma framed_start_sending: "framed E (\<lambda>_. True) (start_sending fuel Background ps S c opts)"
proof -
  have "framed E (\<lambda>r. \<forall>h. r = Inr h \<longrightarrow> writer_on S h) (NewWriter S c opts)"
    by (auto simp: NewWriter_def initHeader_def intro!: then_query then_call framed_pbind [where V = "\<lambda>_. True"] split: option.split)
  then show ?thesis
    unfolding start_sending_def
    by (rule framed_pbind) (auto intro!: framed_pbind [OF framed_send] split: sum.split)
qed

lemma framed_TryRead: "reader_on S r \<Longrightarrow> framed E (\<lambda>(_, _, r). reader_on S r) (TryRead r p)"
proof -
  assume r: "reader_on S r"
  have "framed E (\<lambda>_. True) (readRing r' p n)" for r' n
    by (auto simp: readRing_def Let_def intro!: then_query split: option.split)
  moreover have "framed E (\<lambda>(_, _, r). reader_on S r) (advanceHead r' q n)" if "reader_on S r'" for r' q n
    using that by (auto simp: advanceHead_def Let_def intro!: then_store split: option.split)
  ultimately have "framed E (\<lambda>(_, _, r). reader_on S r) (readAvailable r' p)" if "reader_on S r'" for r'
    using that by (auto simp: readAvailable_def Let_def intro!: then_load framed_pbind [where V = "\<lambda>_. True"] split: option.split sum.split)
  then show ?thesis
    using r by (auto simp: TryRead_def intro!: then_load split: sum.split)
qed

lemma framed_readLoop: "reader_on S r \<Longrightarrow> framed E (\<lambda>(_, _, r). reader_on S r) (readLoop fuel Background r p wait)"
proof (induction fuel arbitrary: r p wait)
  case (Suc fuel)
  then show ?case
    by (auto intro!: framed_pbind [OF framed_TryRead] then_block split: sum.split)
qed simp

lemma framed_receive: "reader_on S r \<Longrightarrow> framed E (\<lambda>_. True) (receive fuel Background bs r)"
proof (induction bs arbitrary: r)
  case (Cons p bs)
  have "framed E (\<lambda>(_, _, r). reader_on S r) (ReadContext fuel Background r p)"
    using framed_readLoop [OF Cons.prems] Cons.prems by (simp add: ReadContext_def)
  then show ?case
    unfolding receive.simps
    by (rule framed_pbind) (auto intro!: Cons.IH framed_pbind [where V = "\<lambda>_. True"] split: option.split)
qed simp

lemma framed_start_receiving: "framed E (\<lambda>_. True) (start_receiving fuel Background bs S c opts)"
proof -
  have "framed E (\<lambda>x. \<forall>r. x = Inr r \<longrightarrow> reader_on S r) (NewReader S c opts)"
    by (auto simp: NewReader_def verifyHeader_def intro!: then_query framed_pbind [where V = "\<lambda>_. True"] split: option.split)
  then show ?thesis
    unfolding start_receiving_def
    by (rule framed_pbind) (auto intro!: framed_pbind [OF framed_receive] split: sum.split)
qed

end

end
