(* ===== verification/Launch.thy ===== *)
theory Launch
  imports Attach Frame
begin

text \<open>
  Two processes that start in any order: one creates a named segment and sends, the other opens it
  and receives, and their system calls interleave. The name does not exist at first. \<^verbatim>\<open>CreateShm\<close>
  creates the file, sizes it, maps it and writes the header; an \<^verbatim>\<open>OpenShm\<close> that comes in between finds no
  file, a file that is too short, or one without a header, and says so.
\<close>

section \<open>The processes\<close>

definition launch_sending ::
  "nat \<Rightarrow> byte list list \<Rightarrow> 'w os \<Rightarrow> string \<Rightarrow> int64 \<Rightarrow> (options \<Rightarrow> options) list \<Rightarrow>
    ('w, gerror + byte list \<times> gerror option \<times> 'w writer) prog" where
  "launch_sending fuel ps OS name c opts = pbind (CreateShm (linux_create OS) name c opts) (\<lambda>r. case r of
     Inl e \<Rightarrow> Return (Inl e)
   | Inr w \<Rightarrow> pbind (send fuel Background ps w) (\<lambda>z. Return (Inr z)))"

definition launch_receiving ::
  "nat \<Rightarrow> byte list list \<Rightarrow> 'w os \<Rightarrow> string \<Rightarrow> int64 \<Rightarrow> (options \<Rightarrow> options) list \<Rightarrow>
    ('w, gerror + byte list \<times> gerror option \<times> 'w reader) prog" where
  "launch_receiving fuel bs OS name c opts = pbind (OpenShm (linux_open OS) name c opts) (\<lambda>r. case r of
     Inl e \<Rightarrow> Return (Inl e)
   | Inr r \<Rightarrow> pbind (receive fuel Background bs r) (\<lambda>z. Return (Inr z)))"

section \<open>What the processes share\<close>

text \<open>
  The history also has the segment's inode, once it exists, and which descriptor and which mapping of it each
  process has. The segment is new (no bytes), unset (sized, without a header), or a ring in use.
\<close>

record 'i owned =
  seg :: "'i option"
  wfd :: "int option"
  rfd :: "int option"
  wmap :: "nat option"
  rmap :: "nat option"

abbreviation sized :: "('w \<Rightarrow> 'i \<Rightarrow> byte list) \<Rightarrow> 'i \<Rightarrow> nat \<Rightarrow> 'w \<Rightarrow> bool" where
  "sized bytes ino cap \<equiv> \<lambda>w. length (bytes w ino) = headerSize + cap"

abbreviation ring_unset :: "('w \<Rightarrow> 'i \<Rightarrow> byte list) \<Rightarrow> 'i \<Rightarrow> nat \<Rightarrow> 'w \<Rightarrow> hist \<Rightarrow> bool" where
  "ring_unset bytes ino cap \<equiv> unset (\<lambda>w. bytes w ino) (sized bytes ino cap) cap"

abbreviation ring_used :: "('w \<Rightarrow> 'i \<Rightarrow> byte list) \<Rightarrow> 'i \<Rightarrow> (bool \<Rightarrow> byte list \<Rightarrow> bool) \<Rightarrow> nat \<Rightarrow> 'w \<Rightarrow> hist \<Rightarrow> bool" where
  "ring_used bytes ino A cap \<equiv> in_use (\<lambda>w. bytes w ino) (sized bytes ino cap) A cap"

abbreviation ring_unread :: "('w \<Rightarrow> 'i \<Rightarrow> byte list) \<Rightarrow> 'i \<Rightarrow> (bool \<Rightarrow> byte list \<Rightarrow> bool) \<Rightarrow> nat \<Rightarrow> 'w \<Rightarrow> hist \<Rightarrow> bool" where
  "ring_unread bytes ino A cap \<equiv> unread (\<lambda>w. bytes w ino) (sized bytes ino cap) A cap"

definition launch_inv ::
  "('w \<Rightarrow> string \<Rightarrow> 'i option) \<Rightarrow> ('w \<Rightarrow> 'i \<Rightarrow> byte list) \<Rightarrow> ('w \<Rightarrow> int \<Rightarrow> 'i option) \<Rightarrow> ('w \<Rightarrow> nat \<Rightarrow> ('i \<times> nat) option) \<Rightarrow>
    string \<Rightarrow> nat \<Rightarrow> (bool \<Rightarrow> byte list \<Rightarrow> bool) \<Rightarrow> 'w \<Rightarrow> hist \<times> 'i owned \<Rightarrow> bool" where
  "launch_inv dir bytes fds maps path cap A w = (\<lambda>(h, s). case seg s of
     None \<Rightarrow> dir w path = None \<and> h = no_history \<and> wfd s = None \<and> rfd s = None \<and> wmap s = None \<and> rmap s = None
   | Some ino \<Rightarrow> (dir w path = None \<or> dir w path = Some ino) \<and>
       (bytes w ino = [] \<and> h = no_history \<or> ring_unset bytes ino cap w h \<or> ring_used bytes ino A cap w h) \<and>
       (\<forall>f. wfd s = Some f \<or> rfd s = Some f \<longrightarrow> fds w f = Some ino) \<and> (wfd s = rfd s \<longrightarrow> wfd s = None) \<and>
       (\<forall>m. wmap s = Some m \<or> rmap s = Some m \<longrightarrow> maps w m = Some (ino, headerSize + cap)) \<and>
       (wmap s = rmap s \<longrightarrow> wmap s = None))"

definition creator_step ::
  "('w \<Rightarrow> string \<Rightarrow> 'i option) \<Rightarrow> ('w \<Rightarrow> 'i \<Rightarrow> byte list) \<Rightarrow> ('w \<Rightarrow> int \<Rightarrow> 'i option) \<Rightarrow> ('w \<Rightarrow> nat \<Rightarrow> ('i \<times> nat) option) \<Rightarrow>
    string \<Rightarrow> nat \<Rightarrow> (bool \<Rightarrow> byte list \<Rightarrow> bool) \<Rightarrow> ('w, hist \<times> 'i owned) interference" where
  "creator_step dir bytes fds maps path cap A = (\<lambda>(w, h, s) (w', h', s').
     launch_inv dir bytes fds maps path cap A w (h, s) \<longrightarrow>
     launch_inv dir bytes fds maps path cap A w' (h', s') \<and> rfd s' = rfd s \<and> rmap s' = rmap s \<and>
     (\<forall>ino. seg s = Some ino \<longrightarrow> seg s' = Some ino \<and> (bytes w ino \<noteq> [] \<longrightarrow> bytes w' ino \<noteq> [])) \<and>
     (\<forall>ino. seg s' = Some ino \<longrightarrow>
       (if seg s = Some ino \<and> ring_used bytes ino A cap w h
        then writer_step (\<lambda>w. bytes w ino) (sized bytes ino cap) None A cap (w, h) (w', h')
        else ring_used bytes ino A cap w' h' \<longrightarrow> ring_unread bytes ino A cap w' h')))"

definition opener_step ::
  "('w \<Rightarrow> string \<Rightarrow> 'i option) \<Rightarrow> ('w \<Rightarrow> 'i \<Rightarrow> byte list) \<Rightarrow> ('w \<Rightarrow> int \<Rightarrow> 'i option) \<Rightarrow> ('w \<Rightarrow> nat \<Rightarrow> ('i \<times> nat) option) \<Rightarrow>
    string \<Rightarrow> nat \<Rightarrow> (bool \<Rightarrow> byte list \<Rightarrow> bool) \<Rightarrow> ('w, hist \<times> 'i owned) interference" where
  "opener_step dir bytes fds maps path cap A = (\<lambda>(w, h, s) (w', h', s').
     launch_inv dir bytes fds maps path cap A w (h, s) \<longrightarrow>
     launch_inv dir bytes fds maps path cap A w' (h', s') \<and> dir w' path = dir w path \<and>
     seg s' = seg s \<and> wfd s' = wfd s \<and> wmap s' = wmap s \<and>
     (\<forall>ino. seg s = Some ino \<longrightarrow>
       (if ring_used bytes ino A cap w h
        then reader_step (\<lambda>w. bytes w ino) (sized bytes ino cap) None A cap (w, h) (w', h')
        else (bytes w' ino = [] \<longleftrightarrow> bytes w ino = []) \<and> \<not> ring_used bytes ino A cap w' h')))"

lemma used_not_empty: "ring_used bytes ino A cap w h \<Longrightarrow> bytes w ino \<noteq> []"
  and unset_not_empty: "ring_unset bytes ino cap w h \<Longrightarrow> bytes w ino \<noteq> []"
  by (auto simp: in_use_def spsc_inv_def unset_def headerSize_def)

lemma launch_refl: "reflp (creator_step dir bytes fds maps path cap A)" "reflp (opener_step dir bytes fds maps path cap A)"
  using reflpD [OF reflp_writer_step] reflpD [OF reflp_reader_step]
  by (auto simp: creator_step_def opener_step_def intro!: reflpI)

lemma creator_trans: "transp (creator_step dir bytes fds maps path cap A)"
proof (rule transpI, clarify)
  fix u hu su v hv sv w hw sw
  assume 1: "creator_step dir bytes fds maps path cap A (u, hu, su) (v, hv, sv)"
    and 2: "creator_step dir bytes fds maps path cap A (v, hv, sv) (w, hw, sw)"
  show "creator_step dir bytes fds maps path cap A (u, hu, su) (w, hw, sw)"
    unfolding creator_step_def prod.case
  proof (intro impI conjI allI)
    assume i: "launch_inv dir bytes fds maps path cap A u (hu, su)"
    note 1 = 1 [unfolded creator_step_def prod.case, rule_format, OF i]
    then have iv: "launch_inv dir bytes fds maps path cap A v (hv, sv)" by blast
    note 2 = 2 [unfolded creator_step_def prod.case, rule_format, OF iv]
    show "launch_inv dir bytes fds maps path cap A w (hw, sw)" "rfd sw = rfd su" "rmap sw = rmap su"
      using 1 2 by auto
    show "seg sw = Some ino" "bytes u ino \<noteq> [] \<Longrightarrow> bytes w ino \<noteq> []" if "seg su = Some ino" for ino
      using that 1 2 by auto
    fix ino assume s: "seg sw = Some ino"
    show "if seg su = Some ino \<and> ring_used bytes ino A cap u hu
        then writer_step (\<lambda>w. bytes w ino) (sized bytes ino cap) None A cap (u, hu) (w, hw)
        else ring_used bytes ino A cap w hw \<longrightarrow> ring_unread bytes ino A cap w hw"
    proof (cases "seg su = Some ino \<and> ring_used bytes ino A cap u hu")
      case True
      then have v: "writer_step (\<lambda>w. bytes w ino) (sized bytes ino cap) None A cap (u, hu) (v, hv)" "seg sv = Some ino"
        using 1 by auto
      have "ring_used bytes ino A cap v hv" by (rule in_use_kept(1) [OF conjunct2 [OF True] v(1)])
      then have "writer_step (\<lambda>w. bytes w ino) (sized bytes ino cap) None A cap (v, hv) (w, hw)" using 2 s v(2) by auto
      from transpD [OF transp_writer_step v(1) this] True show ?thesis by simp
    next
      case False
      have "\<forall>ino. seg sv = Some ino \<longrightarrow> (if seg su = Some ino \<and> ring_used bytes ino A cap u hu
          then writer_step (\<lambda>w. bytes w ino) (sized bytes ino cap) None A cap (u, hu) (v, hv)
          else ring_used bytes ino A cap v hv \<longrightarrow> ring_unread bytes ino A cap v hv)" using 1 by blast
      from this [rule_format, of ino, unfolded if_not_P [OF False]]
      have unread: "ring_unread bytes ino A cap v hv" if "seg sv = Some ino" "ring_used bytes ino A cap v hv"
        using that by blast
      show ?thesis
      proof (cases "seg sv = Some ino \<and> ring_used bytes ino A cap v hv")
        case True
        then have "writer_step (\<lambda>w. bytes w ino) (sized bytes ino cap) None A cap (v, hv) (w, hw)" using 2 s by auto
        then have "ring_unread bytes ino A cap w hw"
          by (rule unread_kept [OF unread [OF conjunct1 [OF True] conjunct2 [OF True]]])
        then show ?thesis unfolding if_not_P [OF False] by blast
      next
        case not_used: False
        have "\<forall>ino. seg sw = Some ino \<longrightarrow> (if seg sv = Some ino \<and> ring_used bytes ino A cap v hv
            then writer_step (\<lambda>w. bytes w ino) (sized bytes ino cap) None A cap (v, hv) (w, hw)
            else ring_used bytes ino A cap w hw \<longrightarrow> ring_unread bytes ino A cap w hw)" using 2 by blast
        from this [rule_format, OF s, unfolded if_not_P [OF not_used]] show ?thesis
          unfolding if_not_P [OF False] by blast
      qed
    qed
  qed
qed

lemma opener_trans: "transp (opener_step dir bytes fds maps path cap A)"
proof (rule transpI, clarify)
  fix u hu su v hv sv w hw sw
  assume 1: "opener_step dir bytes fds maps path cap A (u, hu, su) (v, hv, sv)"
    and 2: "opener_step dir bytes fds maps path cap A (v, hv, sv) (w, hw, sw)"
  show "opener_step dir bytes fds maps path cap A (u, hu, su) (w, hw, sw)"
    unfolding opener_step_def prod.case
  proof (intro impI conjI allI)
    assume i: "launch_inv dir bytes fds maps path cap A u (hu, su)"
    note 1 = 1 [unfolded opener_step_def prod.case, rule_format, OF i]
    then have iv: "launch_inv dir bytes fds maps path cap A v (hv, sv)" by blast
    note 2 = 2 [unfolded opener_step_def prod.case, rule_format, OF iv]
    show "launch_inv dir bytes fds maps path cap A w (hw, sw)" "dir w path = dir u path" "seg sw = seg su" "wfd sw = wfd su" "wmap sw = wmap su"
      using 1 2 by auto
    fix ino assume s: "seg su = Some ino"
    show "if ring_used bytes ino A cap u hu
        then reader_step (\<lambda>w. bytes w ino) (sized bytes ino cap) None A cap (u, hu) (w, hw)
        else (bytes w ino = [] \<longleftrightarrow> bytes u ino = []) \<and> \<not> ring_used bytes ino A cap w hw"
    proof (cases "ring_used bytes ino A cap u hu")
      case True
      then have v: "reader_step (\<lambda>w. bytes w ino) (sized bytes ino cap) None A cap (u, hu) (v, hv)" "seg sv = Some ino"
        using 1 s by auto
      have "ring_used bytes ino A cap v hv" by (rule in_use_kept(2) [OF True v(1)])
      then have "reader_step (\<lambda>w. bytes w ino) (sized bytes ino cap) None A cap (v, hv) (w, hw)" using 2 v(2) by auto
      from transpD [OF transp_reader_step v(1) this] True show ?thesis by simp
    qed (use 1 2 s in auto)
  qed
qed

interpretation launch: two_sided "opener_step dir bytes fds maps path cap A" "creator_step dir bytes fds maps path cap A"
    "creator_step dir bytes fds maps path cap A" "opener_step dir bytes fds maps path cap A"
  for dir :: "'w \<Rightarrow> string \<Rightarrow> 'i option" and bytes fds maps path cap A
  by unfold_locales (simp_all add: launch_refl creator_trans opener_trans)


section \<open>What each process knows\<close>

definition creator_knows ::
  "('w \<Rightarrow> string \<Rightarrow> 'i option) \<Rightarrow> ('w \<Rightarrow> 'i \<Rightarrow> byte list) \<Rightarrow> ('w \<Rightarrow> int \<Rightarrow> 'i option) \<Rightarrow> ('w \<Rightarrow> nat \<Rightarrow> ('i \<times> nat) option) \<Rightarrow>
    string \<Rightarrow> nat \<Rightarrow> (bool \<Rightarrow> byte list \<Rightarrow> bool) \<Rightarrow> 'i option \<Rightarrow> int option \<Rightarrow> nat option \<Rightarrow> bool \<Rightarrow> bool \<Rightarrow> 'w \<Rightarrow> hist \<times> 'i owned \<Rightarrow> bool" where
  "creator_knows dir bytes fds maps path cap A x y z full named w = (\<lambda>(h, s).
     launch_inv dir bytes fds maps path cap A w (h, s) \<and> seg s = x \<and> wfd s = y \<and> wmap s = z \<and>
     (\<forall>ino. x = Some ino \<longrightarrow> (bytes w ino \<noteq> [] \<longleftrightarrow> full) \<and> \<not> ring_used bytes ino A cap w h \<and>
       (named \<longrightarrow> dir w path = Some ino)))"

definition opener_knows ::
  "('w \<Rightarrow> string \<Rightarrow> 'i option) \<Rightarrow> ('w \<Rightarrow> 'i \<Rightarrow> byte list) \<Rightarrow> ('w \<Rightarrow> int \<Rightarrow> 'i option) \<Rightarrow> ('w \<Rightarrow> nat \<Rightarrow> ('i \<times> nat) option) \<Rightarrow>
    string \<Rightarrow> nat \<Rightarrow> (bool \<Rightarrow> byte list \<Rightarrow> bool) \<Rightarrow> int option \<Rightarrow> nat option \<Rightarrow> bool \<Rightarrow> 'w \<Rightarrow> hist \<times> 'i owned \<Rightarrow> bool" where
  "opener_knows dir bytes fds maps path cap A y z full w = (\<lambda>(h, s).
     launch_inv dir bytes fds maps path cap A w (h, s) \<and> rfd s = y \<and> rmap s = z \<and> (full \<longrightarrow> seg s \<noteq> None) \<and>
     (\<forall>ino. seg s = Some ino \<longrightarrow>
       (ring_used bytes ino A cap w h \<longrightarrow> ring_unread bytes ino A cap w h) \<and> (full \<longrightarrow> bytes w ino \<noteq> [])))"

lemma creator_knows_stable:
  "stable (opener_step dir bytes fds maps path cap A) (creator_knows dir bytes fds maps path cap A x y z full named)"
  unfolding stable_def creator_knows_def opener_step_def by (auto split: if_splits)

lemma opener_knows_stable:
  "stable (creator_step dir bytes fds maps path cap A) (opener_knows dir bytes fds maps path cap A y z full)"
  unfolding stable_def
proof (intro allI impI)
  fix w g w' g'
  assume k: "opener_knows dir bytes fds maps path cap A y z full w g"
    and st: "creator_step dir bytes fds maps path cap A (w, g) (w', g')"
  obtain h s h' s' where g: "g = (h, s)" "g' = (h', s')" by (cases g; cases g')
  note k = k [unfolded g opener_knows_def prod.case]
  have st: "launch_inv dir bytes fds maps path cap A w' (h', s')" "rfd s' = rfd s" "rmap s' = rmap s"
      "\<And>ino. seg s = Some ino \<Longrightarrow> seg s' = Some ino \<and> (bytes w ino \<noteq> [] \<longrightarrow> bytes w' ino \<noteq> [])"
      "\<And>ino. seg s' = Some ino \<Longrightarrow> if seg s = Some ino \<and> ring_used bytes ino A cap w h
        then writer_step (\<lambda>w. bytes w ino) (sized bytes ino cap) None A cap (w, h) (w', h')
        else ring_used bytes ino A cap w' h' \<longrightarrow> ring_unread bytes ino A cap w' h'"
    using st k unfolding g creator_step_def prod.case by blast+
  have "ring_unread bytes ino A cap w' h'" if "seg s' = Some ino" "ring_used bytes ino A cap w' h'" for ino
  proof (cases "seg s = Some ino \<and> ring_used bytes ino A cap w h")
    case True
    then have "ring_unread bytes ino A cap w h" using k by blast
    then show ?thesis by (rule unread_kept) (use st(5) [OF that(1), unfolded if_P [OF True]] in assumption)
  next
    case False
    from st(5) [OF that(1), unfolded if_not_P [OF False]] that(2) show ?thesis by blast
  qed
  moreover have "bytes w' ino \<noteq> []" if "seg s' = Some ino" full for ino
    using k st(4) that by fastforce
  ultimately show "opener_knows dir bytes fds maps path cap A y z full w' g'"
    unfolding g opener_knows_def prod.case using k st(1-4) by auto
qed

text \<open>A step that leaves the segment's bytes alone.\<close>

lemma same_bytes:
  assumes "bytes w' ino = bytes w ino"
  shows "ring_used bytes ino A cap w' h = ring_used bytes ino A cap w h"
    and "ring_unset bytes ino cap w' h = ring_unset bytes ino cap w h"
    and "ring_unread bytes ino A cap w' h = ring_unread bytes ino A cap w h"
    and "writer_step (\<lambda>w. bytes w ino) (sized bytes ino cap) None A cap (w, h) (w', h)"
    and "reader_step (\<lambda>w. bytes w ino) (sized bytes ino cap) None A cap (w, h) (w', h)"
proof -
  have "spsc_inv (\<lambda>w. bytes w ino) (sized bytes ino cap) A cap w' h = spsc_inv (\<lambda>w. bytes w ino) (sized bytes ino cap) A cap w h"
    by (simp add: spsc_inv_def assms)
  then show "ring_used bytes ino A cap w' h = ring_used bytes ino A cap w h"
    "ring_unset bytes ino cap w' h = ring_unset bytes ino cap w h"
    "ring_unread bytes ino A cap w' h = ring_unread bytes ino A cap w h"
    "writer_step (\<lambda>w. bytes w ino) (sized bytes ino cap) None A cap (w, h) (w', h)"
    "reader_step (\<lambda>w. bytes w ino) (sized bytes ino cap) None A cap (w, h) (w', h)"
    by (simp_all add: in_use_def unset_def unread_def step_defs assms)
qed

lemma launch_inv_keeps:
  assumes "launch_inv dir bytes fds maps path cap A w (h, s)" "seg s' = seg s"
    and "dir w' path = dir w path \<or> dir w' path = None" "\<And>ino. seg s = Some ino \<Longrightarrow> bytes w' ino = bytes w ino"
    and "\<And>f. wfd s' = Some f \<or> rfd s' = Some f \<Longrightarrow> \<exists>ino. seg s = Some ino \<and> fds w' f = Some ino"
    and "\<And>m. wmap s' = Some m \<or> rmap s' = Some m \<Longrightarrow> \<exists>ino. seg s = Some ino \<and> maps w' m = Some (ino, headerSize + cap)"
    and "wfd s' = rfd s' \<longrightarrow> wfd s' = None" "wmap s' = rmap s' \<longrightarrow> wmap s' = None"
  shows "launch_inv dir bytes fds maps path cap A w' (h, s')"
proof (cases "seg s")
  case None
  then have "wfd s' = None" "rfd s' = None" "wmap s' = None" "rmap s' = None"
    using assms(5,6) by (metis not_None_eq option.distinct(1))+
  with None show ?thesis using assms(1-3) by (auto simp: launch_inv_def)
next
  case (Some ino)
  note b = same_bytes [where bytes = bytes, OF assms(4) [OF Some]]
  have "\<forall>f. wfd s' = Some f \<or> rfd s' = Some f \<longrightarrow> fds w' f = Some ino"
      "\<forall>m. wmap s' = Some m \<or> rmap s' = Some m \<longrightarrow> maps w' m = Some (ino, headerSize + cap)"
    using assms(5,6) Some by fastforce+
  then show ?thesis
    using assms(1,3,7,8) Some assms(4) [OF Some] by (auto simp: launch_inv_def assms(2) b)
qed

text \<open>What the invariant says of the two processes' descriptors and mappings.\<close>

lemma launch_inv_owned:
  assumes "launch_inv dir bytes fds maps path cap A w (h, s)"
  shows "wfd s = Some f \<or> rfd s = Some f \<Longrightarrow> \<exists>ino. seg s = Some ino \<and> fds w f = Some ino"
    and "wmap s = Some m \<or> rmap s = Some m \<Longrightarrow> \<exists>ino. seg s = Some ino \<and> maps w m = Some (ino, headerSize + cap)"
    and "wfd s = rfd s \<longrightarrow> wfd s = None" "wmap s = rmap s \<longrightarrow> wmap s = None"
  using assms by (auto simp: launch_inv_def split: option.splits)

lemma creator_moves:
  assumes "launch_inv dir bytes fds maps path cap A w' (h, s')" "rfd s' = rfd s" "rmap s' = rmap s" "seg s' = seg s"
    and "\<And>ino. seg s = Some ino \<Longrightarrow> bytes w' ino = bytes w ino"
  shows "creator_step dir bytes fds maps path cap A (w, h, s) (w', h, s')"
  unfolding creator_step_def prod.case
proof (intro impI conjI allI)
  fix ino assume s: "seg s' = Some ino"
  then have b: "bytes w' ino = bytes w ino" using assms(4,5) by simp
  show "if seg s = Some ino \<and> ring_used bytes ino A cap w h
      then writer_step (\<lambda>w. bytes w ino) (sized bytes ino cap) None A cap (w, h) (w', h)
      else ring_used bytes ino A cap w' h \<longrightarrow> ring_unread bytes ino A cap w' h"
    using s assms(4) same_bytes [where bytes = bytes, OF b] by simp
qed (use assms in auto)

lemma opener_moves:
  assumes "launch_inv dir bytes fds maps path cap A w' (h, s')" "seg s' = seg s" "wfd s' = wfd s" "wmap s' = wmap s"
      "dir w' path = dir w path"
    and "\<And>ino. seg s = Some ino \<Longrightarrow> bytes w' ino = bytes w ino"
  shows "opener_step dir bytes fds maps path cap A (w, h, s) (w', h, s')"
  unfolding opener_step_def prod.case
proof (intro impI conjI allI)
  fix ino assume s: "seg s = Some ino"
  note b = same_bytes [where bytes = bytes, OF assms(6) [OF s]]
  show "if ring_used bytes ino A cap w h
      then reader_step (\<lambda>w. bytes w ino) (sized bytes ino cap) None A cap (w, h) (w', h)
      else (bytes w' ino = [] \<longleftrightarrow> bytes w ino = []) \<and> \<not> ring_used bytes ino A cap w' h"
    using b assms(6) [OF s] by simp
qed (use assms in auto)

lemma rg_sys:
  assumes "stable R I" "I w g"
    and "\<And>w g a w'. I w g \<Longrightarrow> f w = (a, w') \<Longrightarrow> \<exists>g'. G (w, g) (w', g') \<and> rg B R G Q (k a) w' g'"
  shows "rg B R G Q (pbind (sys f) k) w g"
  unfolding sys_def by (rule rg_call_stable [OF assms(1,2)]) (use assms(3) in \<open>simp add: Let_def split_beta\<close>)

lemma rg_probe:
  assumes "stable R I" "I w g" "reflp G" "\<And>w g. I w g \<Longrightarrow> rg B R G Q (k (f w)) w g"
  shows "rg B R G Q (pbind (probe f) k) w g"
  unfolding probe_def by (rule rg_query_stable [OF assms(1-3)]) (use assms(4) in blast)


section \<open>The system calls\<close>

text \<open>A call by which a process gains or gives up a descriptor or a mapping, and no more.\<close>

lemma rg_creator_sys:
  assumes "creator_knows dir bytes fds maps path cap A x y z full b w g"
    and call: "\<And>w h s a w'. creator_knows dir bytes fds maps path cap A x y z full b w (h, s) \<Longrightarrow>
      launch_inv dir bytes fds maps path cap A w (h, s) \<Longrightarrow> seg s = x \<Longrightarrow> wfd s = y \<Longrightarrow> wmap s = z \<Longrightarrow> f w = (a, w') \<Longrightarrow>
      \<exists>y' z'. launch_inv dir bytes fds maps path cap A w' (h, s\<lparr>wfd := y', wmap := z'\<rparr>) \<and> bytes w' = bytes w \<and> (b' \<longrightarrow> b \<and> dir w' path = dir w path) \<and>
        (\<forall>w g. creator_knows dir bytes fds maps path cap A x y' z' full b' w g \<longrightarrow>
          rg B (opener_step dir bytes fds maps path cap A) (creator_step dir bytes fds maps path cap A) Q (k a) w g)"
  shows "rg B (opener_step dir bytes fds maps path cap A) (creator_step dir bytes fds maps path cap A) Q (pbind (sys f) k) w g"
proof (rule rg_sys [OF creator_knows_stable assms(1)])
  fix w g a w'
  assume k: "creator_knows dir bytes fds maps path cap A x y z full b w g" and f: "f w = (a, w')"
  obtain h s where g: "g = (h, s)" by (cases g)
  have i: "launch_inv dir bytes fds maps path cap A w (h, s)" "seg s = x" "wfd s = y" "wmap s = z"
    using k by (auto simp: g creator_knows_def)
  obtain y' z' where inv: "launch_inv dir bytes fds maps path cap A w' (h, s\<lparr>wfd := y', wmap := z'\<rparr>)" "bytes w' = bytes w" "b' \<longrightarrow> b \<and> dir w' path = dir w path"
    and rest: "\<And>w g. creator_knows dir bytes fds maps path cap A x y' z' full b' w g \<Longrightarrow>
          rg B (opener_step dir bytes fds maps path cap A) (creator_step dir bytes fds maps path cap A) Q (k a) w g"
    using call [OF k [unfolded g] i f] by blast
  have "creator_step dir bytes fds maps path cap A (w, h, s) (w', h, s\<lparr>wfd := y', wmap := z'\<rparr>)"
    by (rule creator_moves [OF inv(1)]) (use inv(2) in simp_all)
  moreover have "creator_knows dir bytes fds maps path cap A x y' z' full b' w' (h, s\<lparr>wfd := y', wmap := z'\<rparr>)"
    using k inv same_bytes(1) [of bytes w' _ w] by (simp add: g creator_knows_def)
  ultimately show "\<exists>g'. creator_step dir bytes fds maps path cap A (w, g) (w', g') \<and>
      rg B (opener_step dir bytes fds maps path cap A) (creator_step dir bytes fds maps path cap A) Q (k a) w' g'"
    using rest unfolding g by blast
qed

lemma rg_opener_sys:
  assumes "opener_knows dir bytes fds maps path cap A y z full w g"
    and call: "\<And>w h s a w'. opener_knows dir bytes fds maps path cap A y z full w (h, s) \<Longrightarrow>
      launch_inv dir bytes fds maps path cap A w (h, s) \<Longrightarrow> rfd s = y \<Longrightarrow> rmap s = z \<Longrightarrow> f w = (a, w') \<Longrightarrow>
      \<exists>y' z'. launch_inv dir bytes fds maps path cap A w' (h, s\<lparr>rfd := y', rmap := z'\<rparr>) \<and> dir w' = dir w \<and> bytes w' = bytes w \<and>
        (\<forall>w g. opener_knows dir bytes fds maps path cap A y' z' full w g \<longrightarrow>
          rg B (creator_step dir bytes fds maps path cap A) (opener_step dir bytes fds maps path cap A) Q (k a) w g)"
  shows "rg B (creator_step dir bytes fds maps path cap A) (opener_step dir bytes fds maps path cap A) Q (pbind (sys f) k) w g"
proof (rule rg_sys [OF opener_knows_stable assms(1)])
  fix w g a w'
  assume k: "opener_knows dir bytes fds maps path cap A y z full w g" and f: "f w = (a, w')"
  obtain h s where g: "g = (h, s)" by (cases g)
  have i: "launch_inv dir bytes fds maps path cap A w (h, s)" "rfd s = y" "rmap s = z"
    using k by (auto simp: g opener_knows_def)
  obtain y' z' where inv: "launch_inv dir bytes fds maps path cap A w' (h, s\<lparr>rfd := y', rmap := z'\<rparr>)" "dir w' = dir w" "bytes w' = bytes w"
    and rest: "\<And>w g. opener_knows dir bytes fds maps path cap A y' z' full w g \<Longrightarrow>
          rg B (creator_step dir bytes fds maps path cap A) (opener_step dir bytes fds maps path cap A) Q (k a) w g"
    using call [OF k [unfolded g] i f] by blast
  have "opener_step dir bytes fds maps path cap A (w, h, s) (w', h, s\<lparr>rfd := y', rmap := z'\<rparr>)"
    by (rule opener_moves [OF inv(1)]) (use inv(2,3) in simp_all)
  moreover have "opener_knows dir bytes fds maps path cap A y' z' full w' (h, s\<lparr>rfd := y', rmap := z'\<rparr>)"
    using k inv same_bytes(1,3) [of bytes w' _ w] by (simp add: g opener_knows_def)
  ultimately show "\<exists>g'. opener_step dir bytes fds maps path cap A (w, g) (w', g') \<and>
      rg B (creator_step dir bytes fds maps path cap A) (opener_step dir bytes fds maps path cap A) Q (k a) w' g'"
    using rest unfolding g by blast
qed

context steady_posix
begin

lemma rg_creator_closes:
  assumes "creator_knows dir bytes fds maps path cap A x (Some f) z full b w g"
    and "\<And>w g. creator_knows dir bytes fds maps path cap A x None z full b w g \<Longrightarrow>
      rg B (opener_step dir bytes fds maps path cap A) (creator_step dir bytes fds maps path cap A) Q k w g"
  shows "rg B (opener_step dir bytes fds maps path cap A) (creator_step dir bytes fds maps path cap A) Q
    (pbind (sys (CloseFd OS f)) (\<lambda>_. k)) w g"
proof (rule rg_creator_sys [where b' = b, OF assms(1)])
  fix w h s r w'
  assume i: "launch_inv dir bytes fds maps path cap A w (h, s)" "wfd s = Some f" "wmap s = z" and "CloseFd OS f w = (r, w')"
  note close = close_fd [OF \<open>CloseFd OS f w = (r, w')\<close>] and own = launch_inv_owned [OF i(1)]
  have "launch_inv dir bytes fds maps path cap A w' (h, s\<lparr>wfd := None, wmap := z\<rparr>)"
    by (rule launch_inv_keeps [OF i(1)]) (use own i(2,3) close in fastforce)+
  then show "\<exists>y' z'. launch_inv dir bytes fds maps path cap A w' (h, s\<lparr>wfd := y', wmap := z'\<rparr>) \<and> bytes w' = bytes w \<and>
      (b \<longrightarrow> b \<and> dir w' path = dir w path) \<and>
      (\<forall>w g. creator_knows dir bytes fds maps path cap A x y' z' full b w g \<longrightarrow>
        rg B (opener_step dir bytes fds maps path cap A) (creator_step dir bytes fds maps path cap A) Q k w g)"
    using close assms(2) by (intro exI [of _ None] exI [of _ z]) simp
qed

lemma rg_opener_closes:
  assumes "opener_knows dir bytes fds maps path cap A (Some f) z full w g"
    and "\<And>w g. opener_knows dir bytes fds maps path cap A None z full w g \<Longrightarrow>
      rg B (creator_step dir bytes fds maps path cap A) (opener_step dir bytes fds maps path cap A) Q k w g"
  shows "rg B (creator_step dir bytes fds maps path cap A) (opener_step dir bytes fds maps path cap A) Q
    (pbind (sys (CloseFd OS f)) (\<lambda>_. k)) w g"
proof (rule rg_opener_sys [OF assms(1)])
  fix w h s r w'
  assume i: "launch_inv dir bytes fds maps path cap A w (h, s)" "rfd s = Some f" "rmap s = z" and "CloseFd OS f w = (r, w')"
  note close = close_fd [OF \<open>CloseFd OS f w = (r, w')\<close>] and own = launch_inv_owned [OF i(1)]
  have "launch_inv dir bytes fds maps path cap A w' (h, s\<lparr>rfd := None, rmap := z\<rparr>)"
    by (rule launch_inv_keeps [OF i(1)]) (use own i(2,3) close in fastforce)+
  then show "\<exists>y' z'. launch_inv dir bytes fds maps path cap A w' (h, s\<lparr>rfd := y', rmap := z'\<rparr>) \<and> dir w' = dir w \<and> bytes w' = bytes w \<and>
      (\<forall>w g. opener_knows dir bytes fds maps path cap A y' z' full w g \<longrightarrow>
        rg B (creator_step dir bytes fds maps path cap A) (opener_step dir bytes fds maps path cap A) Q k w g)"
    using close assms(2) by (intro exI [of _ None] exI [of _ z]) simp
qed

lemma rg_creator_removes:
  assumes "creator_knows dir bytes fds maps path cap A x y z full b w g"
    and "\<And>w g. creator_knows dir bytes fds maps path cap A x y z full False w g \<Longrightarrow>
      rg B (opener_step dir bytes fds maps path cap A) (creator_step dir bytes fds maps path cap A) Q k w g"
  shows "rg B (opener_step dir bytes fds maps path cap A) (creator_step dir bytes fds maps path cap A) Q
    (pbind (sys (RemoveFile OS path)) (\<lambda>_. k)) w g"
proof (rule rg_creator_sys [where b' = False, OF assms(1)])
  fix w h s r w'
  assume i: "launch_inv dir bytes fds maps path cap A w (h, s)" "wfd s = y" "wmap s = z" and r: "RemoveFile OS path w = (r, w')"
  note rem = remove [OF r] and own = launch_inv_owned [OF i(1)]
  have "dir w' path = dir w path \<or> dir w' path = None"
    using rem remove_fails r by (cases r) auto
  then have "launch_inv dir bytes fds maps path cap A w' (h, s\<lparr>wfd := y, wmap := z\<rparr>)"
    by (intro launch_inv_keeps [OF i(1)]) (use own i(2,3) rem in fastforce)+
  then show "\<exists>y' z'. launch_inv dir bytes fds maps path cap A w' (h, s\<lparr>wfd := y', wmap := z'\<rparr>) \<and> bytes w' = bytes w \<and>
      (False \<longrightarrow> b \<and> dir w' path = dir w path) \<and>
      (\<forall>w g. creator_knows dir bytes fds maps path cap A x y' z' full False w g \<longrightarrow>
        rg B (opener_step dir bytes fds maps path cap A) (creator_step dir bytes fds maps path cap A) Q k w g)"
    using rem assms(2) by (intro exI [of _ y] exI [of _ z]) simp
qed

text \<open>The system calls by which a process comes to a descriptor, a sized file and a mapping.\<close>

lemma rg_creator_opens:
  assumes "creator_knows dir bytes fds maps path cap A None None None False True w g"
    and bad: "\<And>e w g. rg B (opener_step dir bytes fds maps path cap A) (creator_step dir bytes fds maps path cap A) Q (k (Inl e)) w g"
    and good: "\<And>ino f w g. creator_knows dir bytes fds maps path cap A (Some ino) (Some f) None False True w g \<Longrightarrow>
      rg B (opener_step dir bytes fds maps path cap A) (creator_step dir bytes fds maps path cap A) Q (k (Inr f)) w g"
  shows "rg B (opener_step dir bytes fds maps path cap A) (creator_step dir bytes fds maps path cap A) Q
    (pbind (sys (OpenFile OS path True)) k) w g"
  (is "rg B ?R ?W Q _ w g")
proof (rule rg_sys [OF creator_knows_stable assms(1)])
  fix w g r w'
  assume k: "creator_knows dir bytes fds maps path cap A None None None False True w g" and r: "OpenFile OS path True w = (r, w')"
  obtain h s where g: "g = (h, s)" by (cases g)
  have i: "launch_inv dir bytes fds maps path cap A w (h, s)" "seg s = None" using k by (auto simp: g creator_knows_def)
  then have none: "dir w path = None" "h = no_history" "wfd s = None" "rfd s = None" "wmap s = None" "rmap s = None"
    by (auto simp: launch_inv_def)
  show "\<exists>g'. ?W (w, g) (w', g') \<and> rg B ?R ?W Q (k r) w' g'"
  proof (cases r)
    case (Inl e)
    note same = open_fails [OF r [unfolded Inl]]
    have "launch_inv dir bytes fds maps path cap A w' (h, s)" using i(2) none same by (simp add: launch_inv_def)
    then have "?W (w, h, s) (w', h, s)" by (rule creator_moves) (use same in simp_all)
    then show ?thesis using bad Inl unfolding g by auto
  next
    case (Inr f)
    obtain ino where new: "fds w' = (fds w)(f \<mapsto> ino)" "dir w' path = Some ino" "maps w' = maps w"
      using open_new [OF r [unfolded Inr] none(1)] by auto
    have b: "bytes w' ino = []" by (rule open_empty [OF r [unfolded Inr] none(1) new(2)])
    have used: "\<not> ring_used bytes ino A cap w' h" using used_not_empty [of bytes ino cap A w' h] b by blast
    let ?s = "s\<lparr>seg := Some ino, wfd := Some f\<rparr>"
    have inv: "launch_inv dir bytes fds maps path cap A w' (h, ?s)" using none new b by (simp add: launch_inv_def)
    then have "?W (w, h, s) (w', h, ?s)" using i(2) used by (simp add: creator_step_def)
    moreover have "creator_knows dir bytes fds maps path cap A (Some ino) (Some f) None False True w' (h, ?s)"
      using inv b used none new(2) by (simp add: creator_knows_def)
    ultimately show ?thesis using good unfolding g Inr by blast
  qed
qed

lemma rg_creator_truncates:
  assumes "creator_knows dir bytes fds maps path cap A (Some ino) (Some f) None False True w g" and sz: "nat sz = headerSize + cap"
    and bad: "\<And>e w g. creator_knows dir bytes fds maps path cap A (Some ino) (Some f) None False True w g \<Longrightarrow>
      rg B (opener_step dir bytes fds maps path cap A) (creator_step dir bytes fds maps path cap A) Q (k (Some e)) w g"
    and good: "\<And>w g. creator_knows dir bytes fds maps path cap A (Some ino) (Some f) None True True w g \<Longrightarrow>
      rg B (opener_step dir bytes fds maps path cap A) (creator_step dir bytes fds maps path cap A) Q (k None) w g"
  shows "rg B (opener_step dir bytes fds maps path cap A) (creator_step dir bytes fds maps path cap A) Q
    (pbind (sys (Truncate OS f sz)) k) w g"
  (is "rg B ?R ?W Q _ w g")
proof (rule rg_sys [OF creator_knows_stable assms(1)])
  fix w g r w'
  assume k: "creator_knows dir bytes fds maps path cap A (Some ino) (Some f) None False True w g" and r: "Truncate OS f sz w = (r, w')"
  obtain h s where g: "g = (h, s)" by (cases g)
  have i: "launch_inv dir bytes fds maps path cap A w (h, s)" "seg s = Some ino" "wfd s = Some f" "wmap s = None" "bytes w ino = []"
      "dir w path = Some ino"
    using k by (auto simp: g creator_knows_def)
  note own = launch_inv_owned [OF i(1)]
  have empty: "h = no_history" "\<not> ring_used bytes ino A cap w h"
    using i used_not_empty [of bytes ino cap A w h] by (auto simp: launch_inv_def unset_def headerSize_def)
  have f: "fds w f = Some ino" using own(1) [of f] i(2,3) by simp
  have pos: "0 \<le> sz" using sz by (cases "0 \<le> sz") (simp_all add: headerSize_def)
  show "\<exists>g'. ?W (w, g) (w', g') \<and> rg B ?R ?W Q (k r) w' g'"
  proof (cases r)
    case (Some e)
    note same = truncate_fails [OF r [unfolded Some]]
    have inv: "launch_inv dir bytes fds maps path cap A w' (h, s)"
      by (rule launch_inv_keeps [OF i(1)]) (use own i(3,4) same in fastforce)+
    then have "?W (w, h, s) (w', h, s)" by (rule creator_moves) (use same in simp_all)
    moreover have "creator_knows dir bytes fds maps path cap A (Some ino) (Some f) None False True w' (h, s)"
      using k inv same same_bytes(1) [of bytes w' _ w] by (simp add: g creator_knows_def)
    ultimately show ?thesis using bad unfolding g Some by blast
  next
    case None
    have new: "bytes w' = (bytes w)(ino := resize (nat sz) [])" "dir w' = dir w" "fds w' = fds w" "maps w' = maps w"
      using truncate [OF r [unfolded None] f pos] i(5) by auto
    have b: "bytes w' ino = replicate (headerSize + cap) 0" using new(1) sz by (simp add: resize_def)
    have "u32_at (replicate (headerSize + cap) 0) offMagic = 0"
      by (simp add: u32_at_def slice_def Uint32_def headerSize_def offMagic_def)
    then have unset: "ring_unset bytes ino cap w' h" using b empty(1) by (simp add: unset_def header_ok_def magic_def)
    then have used: "\<not> ring_used bytes ino A cap w' h" by (rule unset_not_in_use)
    have inv: "launch_inv dir bytes fds maps path cap A w' (h, s)" using i new(2-4) unset by (auto simp: launch_inv_def)
    then have "?W (w, h, s) (w', h, s)" using i(2,5) used empty(2) by (auto simp: creator_step_def)
    moreover have "creator_knows dir bytes fds maps path cap A (Some ino) (Some f) None True True w' (h, s)"
      using inv i b used new(2) by (simp add: creator_knows_def headerSize_def)
    ultimately show ?thesis using good unfolding g None by blast
  qed
qed

lemma rg_creator_mmaps:
  assumes "creator_knows dir bytes fds maps path cap A (Some ino) (Some f) None True True w g" and sz: "nat sz = headerSize + cap"
    and bad: "\<And>e w g. creator_knows dir bytes fds maps path cap A (Some ino) (Some f) None True True w g \<Longrightarrow>
      rg B (opener_step dir bytes fds maps path cap A) (creator_step dir bytes fds maps path cap A) Q (k (Inl e)) w g"
    and good: "\<And>m w g. creator_knows dir bytes fds maps path cap A (Some ino) (Some f) (Some m) True True w g \<Longrightarrow>
      rg B (opener_step dir bytes fds maps path cap A) (creator_step dir bytes fds maps path cap A) Q (k (Inr m)) w g"
  shows "rg B (opener_step dir bytes fds maps path cap A) (creator_step dir bytes fds maps path cap A) Q
    (pbind (sys (Mmap OS f sz)) k) w g"
proof (rule rg_creator_sys [where b' = True, OF assms(1)])
  fix w h s r w'
  assume i: "launch_inv dir bytes fds maps path cap A w (h, s)" "seg s = Some ino" "wfd s = Some f" "wmap s = None"
    and r: "Mmap OS f sz w = (r, w')"
  note own = launch_inv_owned [OF i(1)]
  have f: "fds w f = Some ino" using own(1) [of f] i(2,3) by simp
  have pos: "0 < sz" using sz by (cases "0 < sz") (simp_all add: headerSize_def)
  show "\<exists>y' z'. launch_inv dir bytes fds maps path cap A w' (h, s\<lparr>wfd := y', wmap := z'\<rparr>) \<and> bytes w' = bytes w \<and>
    (True \<longrightarrow> True \<and> dir w' path = dir w path) \<and>
    (\<forall>w g. creator_knows dir bytes fds maps path cap A (Some ino) y' z' True True w g \<longrightarrow>
      rg B (opener_step dir bytes fds maps path cap A) (creator_step dir bytes fds maps path cap A) Q (k r) w g)"
  proof (cases r)
    case (Inl e)
    note same = mmap_fails [OF r [unfolded Inl]]
    have "launch_inv dir bytes fds maps path cap A w' (h, s\<lparr>wfd := Some f, wmap := None\<rparr>)"
      by (rule launch_inv_keeps [OF i(1)]) (use own i(3,4) same in fastforce)+
    then show ?thesis
      using same bad Inl by (intro exI [of _ "Some f"] exI [of _ None]) simp
  next
    case (Inr m)
    have new: "maps w m = None" "maps w' = (maps w)(m \<mapsto> (ino, headerSize + cap))" "dir w' = dir w" "bytes w' = bytes w"
        "fds w' = fds w"
      using mmap [OF r [unfolded Inr] f pos] sz by auto
    have "launch_inv dir bytes fds maps path cap A w' (h, s\<lparr>wfd := Some f, wmap := Some m\<rparr>)"
      by (rule launch_inv_keeps [OF i(1)]) (use own i(2,3) new in fastforce)+
    then show ?thesis
      using new good Inr by (intro exI [of _ "Some f"] exI [of _ "Some m"]) simp
  qed
qed

lemma rg_opener_opens:
  assumes "opener_knows dir bytes fds maps path cap A None None False w g"
    and bad: "\<And>e w g. opener_knows dir bytes fds maps path cap A None None False w g \<Longrightarrow>
      rg B (creator_step dir bytes fds maps path cap A) (opener_step dir bytes fds maps path cap A) Q (k (Inl e)) w g"
    and good: "\<And>f w g. opener_knows dir bytes fds maps path cap A (Some f) None False w g \<Longrightarrow>
      rg B (creator_step dir bytes fds maps path cap A) (opener_step dir bytes fds maps path cap A) Q (k (Inr f)) w g"
  shows "rg B (creator_step dir bytes fds maps path cap A) (opener_step dir bytes fds maps path cap A) Q
    (pbind (sys (OpenFile OS path False)) k) w g"
proof (rule rg_opener_sys [OF assms(1)])
  fix w h s r w'
  assume i: "launch_inv dir bytes fds maps path cap A w (h, s)" "rfd s = None" "rmap s = None"
    and r: "OpenFile OS path False w = (r, w')"
  note own = launch_inv_owned [OF i(1)]
  show "\<exists>y' z'. launch_inv dir bytes fds maps path cap A w' (h, s\<lparr>rfd := y', rmap := z'\<rparr>) \<and> dir w' = dir w \<and> bytes w' = bytes w \<and>
    (\<forall>w g. opener_knows dir bytes fds maps path cap A y' z' False w g \<longrightarrow>
      rg B (creator_step dir bytes fds maps path cap A) (opener_step dir bytes fds maps path cap A) Q (k r) w g)"
  proof (cases r)
    case (Inl e)
    note same = open_fails [OF r [unfolded Inl]]
    have "launch_inv dir bytes fds maps path cap A w' (h, s\<lparr>rfd := None, rmap := None\<rparr>)"
      by (rule launch_inv_keeps [OF i(1)]) (use own i(2,3) same in fastforce)+
    then show ?thesis using same bad Inl by (intro exI [of _ None] exI [of _ None]) simp
  next
    case (Inr f)
    obtain ino where d: "dir w path = Some ino" using open_new [OF r [unfolded Inr]] by (cases "dir w path") auto
    then have s: "seg s = Some ino" using i(1) by (auto simp: launch_inv_def split: option.splits)
    have new: "fds w' = (fds w)(f \<mapsto> ino)" "dir w' = dir w" "bytes w' = bytes w" "maps w' = maps w"
      using open_old [OF r [unfolded Inr] d] by auto
    have "fds w f = None" by (rule open_fresh [OF r [unfolded Inr]])
    then have "wfd s \<noteq> Some f" using own(1) [of f] by fastforce
    then have "launch_inv dir bytes fds maps path cap A w' (h, s\<lparr>rfd := Some f, rmap := None\<rparr>)"
      by (intro launch_inv_keeps [OF i(1)]) (use own i(2,3) s new in fastforce)+
    then show ?thesis using new good Inr by (intro exI [of _ "Some f"] exI [of _ None]) simp
  qed
qed

lemma rg_opener_mmaps:
  assumes "opener_knows dir bytes fds maps path cap A (Some f) None True w g" and sz: "nat sz = headerSize + cap"
    and bad: "\<And>e w g. opener_knows dir bytes fds maps path cap A (Some f) None True w g \<Longrightarrow>
      rg B (creator_step dir bytes fds maps path cap A) (opener_step dir bytes fds maps path cap A) Q (k (Inl e)) w g"
    and good: "\<And>m w g. opener_knows dir bytes fds maps path cap A (Some f) (Some m) True w g \<Longrightarrow>
      rg B (creator_step dir bytes fds maps path cap A) (opener_step dir bytes fds maps path cap A) Q (k (Inr m)) w g"
  shows "rg B (creator_step dir bytes fds maps path cap A) (opener_step dir bytes fds maps path cap A) Q
    (pbind (sys (Mmap OS f sz)) k) w g"
proof (rule rg_opener_sys [OF assms(1)])
  fix w h s r w'
  assume i: "launch_inv dir bytes fds maps path cap A w (h, s)" "rfd s = Some f" "rmap s = None"
    and r: "Mmap OS f sz w = (r, w')"
  note own = launch_inv_owned [OF i(1)]
  obtain ino where f: "seg s = Some ino" "fds w f = Some ino" using own(1) [of f] i(2) by blast
  have pos: "0 < sz" using sz by (cases "0 < sz") (simp_all add: headerSize_def)
  show "\<exists>y' z'. launch_inv dir bytes fds maps path cap A w' (h, s\<lparr>rfd := y', rmap := z'\<rparr>) \<and> dir w' = dir w \<and> bytes w' = bytes w \<and>
    (\<forall>w g. opener_knows dir bytes fds maps path cap A y' z' True w g \<longrightarrow>
      rg B (creator_step dir bytes fds maps path cap A) (opener_step dir bytes fds maps path cap A) Q (k r) w g)"
  proof (cases r)
    case (Inl e)
    note same = mmap_fails [OF r [unfolded Inl]]
    have "launch_inv dir bytes fds maps path cap A w' (h, s\<lparr>rfd := Some f, rmap := None\<rparr>)"
      by (rule launch_inv_keeps [OF i(1)]) (use own i(2,3) same in fastforce)+
    then show ?thesis
      using same bad Inl by (intro exI [of _ "Some f"] exI [of _ None]) simp
  next
    case (Inr m)
    have new: "maps w m = None" "maps w' = (maps w)(m \<mapsto> (ino, headerSize + cap))" "dir w' = dir w" "bytes w' = bytes w"
        "fds w' = fds w"
      using mmap [OF r [unfolded Inr] f(2) pos] sz by auto
    have "launch_inv dir bytes fds maps path cap A w' (h, s\<lparr>rfd := Some f, rmap := Some m\<rparr>)"
      by (rule launch_inv_keeps [OF i(1)]) (use own i(2) f new in fastforce)+
    then show ?thesis
      using new good Inr by (intro exI [of _ "Some f"] exI [of _ "Some m"]) simp
  qed
qed

text \<open>What \<^verbatim>\<open>Stat\<close> tells each: the creator's file has its size by then, and the opener's has bytes if it is long enough.\<close>

lemma creator_stat:
  assumes "creator_knows dir bytes fds maps path cap A (Some ino) (Some f) None True True w g" and sz: "nat sz = headerSize + cap"
    and "StatSize OS f w = Inr n"
  shows "n = sz"
proof -
  obtain h s where g: "g = (h, s)" by (cases g)
  have i: "launch_inv dir bytes fds maps path cap A w (h, s)" "seg s = Some ino" "wfd s = Some f" "bytes w ino \<noteq> []"
      "\<not> ring_used bytes ino A cap w h"
    using assms(1) by (auto simp: g creator_knows_def)
  then have "ring_unset bytes ino cap w h" by (auto simp: launch_inv_def)
  then have "length (bytes w ino) = headerSize + cap" by (simp add: unset_def)
  moreover have "fds w f = Some ino" using launch_inv_owned(1) [OF i(1), of f] i(2,3) by simp
  ultimately show ?thesis using stat [OF assms(3)] sz by (simp add: headerSize_def)
qed

lemma opener_stat:
  assumes "opener_knows dir bytes fds maps path cap A (Some f) None False w g" and sz: "nat sz = headerSize + cap"
    and "StatSize OS f w = Inr n" "sz \<le> n"
  shows "opener_knows dir bytes fds maps path cap A (Some f) None True w g"
proof -
  obtain h s where g: "g = (h, s)" by (cases g)
  have i: "launch_inv dir bytes fds maps path cap A w (h, s)" "rfd s = Some f"
    using assms(1) by (auto simp: g opener_knows_def)
  obtain ino where f: "seg s = Some ino" "fds w f = Some ino" using launch_inv_owned(1) [OF i(1), of f] i(2) by blast
  have "bytes w ino \<noteq> []" using stat [OF assms(3) f(2)] assms(4) sz by (auto simp: headerSize_def)
  then show ?thesis using assms(1) f(1) by (auto simp: g opener_knows_def)
qed

text \<open>\<^verbatim>\<open>mapShm\<close>, and \<^verbatim>\<open>CreateShm\<close> and \<^verbatim>\<open>OpenShm\<close> of package \<^verbatim>\<open>backend\<close>.\<close>

lemma rg_creator_maps:
  assumes "creator_knows dir bytes fds maps path cap A (Some ino) (Some f) None True True w g" and sz: "nat sz = headerSize + cap"
    and bad: "\<And>e w g. creator_knows dir bytes fds maps path cap A (Some ino) (Some f) None True False w g \<Longrightarrow>
      rg B (opener_step dir bytes fds maps path cap A) (creator_step dir bytes fds maps path cap A) Q (k (Inl e)) w g"
    and good: "\<And>m w g. creator_knows dir bytes fds maps path cap A (Some ino) (Some f) (Some m) True True w g \<Longrightarrow>
      rg B (opener_step dir bytes fds maps path cap A) (creator_step dir bytes fds maps path cap A) Q
        (k (Inr (shm_of m sz True path))) w g"
  shows "rg B (opener_step dir bytes fds maps path cap A) (creator_step dir bytes fds maps path cap A) Q
    (pbind (mapShm OS f path sz True) k) w g"
  unfolding mapShm_def Let_def if_True pbind_assoc
proof (rule rg_probe [OF creator_knows_stable assms(1) launch_refl(1)])
  fix w g assume k: "creator_knows dir bytes fds maps path cap A (Some ino) (Some f) None True True w g"
  note clean = rg_creator_removes [OF _ bad]
  show "rg B (opener_step dir bytes fds maps path cap A) (creator_step dir bytes fds maps path cap A) Q
    (pbind (case StatSize OS f w of
        Inl err \<Rightarrow> pbind (sys (RemoveFile OS path)) (\<lambda>_. pbind (Return ()) (\<lambda>_. Return (Inl (ErrorfW ''backend: stat '' err))))
      | Inr n \<Rightarrow>
          if n < sz then pbind (sys (RemoveFile OS path)) (\<lambda>_. pbind (Return ())
            (\<lambda>_. Return (Inl (ErrorfW ''backend: '' ErrIncompleteSegment))))
          else pbind (sys (Mmap OS f sz)) (\<lambda>r. case r of
              Inl err \<Rightarrow> pbind (sys (RemoveFile OS path)) (\<lambda>_. pbind (Return ()) (\<lambda>_. Return (Inl (ErrorfW ''backend: mmap '' err))))
            | Inr mem \<Rightarrow> Return (Inr (shm_of mem sz True path)))) k) w g"
    using creator_stat [OF k sz]
    by (auto simp: pbind_assoc split: sum.split intro!: clean [OF k] rg_creator_mmaps [OF k sz] clean good)
qed

lemma rg_opener_maps:
  assumes "opener_knows dir bytes fds maps path cap A (Some f) None False w g" and sz: "nat sz = headerSize + cap"
    and bad: "\<And>e full w g. opener_knows dir bytes fds maps path cap A (Some f) None full w g \<Longrightarrow>
      rg B (creator_step dir bytes fds maps path cap A) (opener_step dir bytes fds maps path cap A) Q (k (Inl e)) w g"
    and good: "\<And>m w g. opener_knows dir bytes fds maps path cap A (Some f) (Some m) True w g \<Longrightarrow>
      rg B (creator_step dir bytes fds maps path cap A) (opener_step dir bytes fds maps path cap A) Q
        (k (Inr (shm_of m sz False path))) w g"
  shows "rg B (creator_step dir bytes fds maps path cap A) (opener_step dir bytes fds maps path cap A) Q
    (pbind (mapShm OS f path sz False) k) w g"
  unfolding mapShm_def Let_def if_False pbind_assoc pbind.simps(1) if_cancel
proof (rule rg_probe [OF opener_knows_stable assms(1) launch_refl(2)])
  fix w g assume k: "opener_knows dir bytes fds maps path cap A (Some f) None False w g"
  show "rg B (creator_step dir bytes fds maps path cap A) (opener_step dir bytes fds maps path cap A) Q
    (pbind (case StatSize OS f w of
        Inl err \<Rightarrow> Return (Inl (ErrorfW ''backend: stat '' err))
      | Inr n \<Rightarrow>
          if n < sz then Return (Inl (ErrorfW ''backend: '' ErrIncompleteSegment))
          else pbind (sys (Mmap OS f sz)) (\<lambda>r. case r of
              Inl err \<Rightarrow> Return (Inl (ErrorfW ''backend: mmap '' err))
            | Inr mem \<Rightarrow> Return (Inr (shm_of mem sz False path)))) k) w g"
    using opener_stat [OF k sz]
    by (auto simp: pbind_assoc split: sum.split intro!: bad [OF k] rg_opener_mmaps [OF _ sz] bad good)
qed

lemma rg_backend_CreateShm:
  assumes "creator_knows dir bytes fds maps path cap A None None None False True w g" "shmPath name = Inr path"
    and sz: "nat sz = headerSize + cap"
    and bad: "\<And>e w g. rg B (opener_step dir bytes fds maps path cap A) (creator_step dir bytes fds maps path cap A) Q (k (Inl e)) w g"
    and good: "\<And>ino m w g. creator_knows dir bytes fds maps path cap A (Some ino) None (Some m) True True w g \<Longrightarrow>
      rg B (opener_step dir bytes fds maps path cap A) (creator_step dir bytes fds maps path cap A) Q
        (k (Inr (shm_of m sz True path))) w g"
  shows "rg B (opener_step dir bytes fds maps path cap A) (creator_step dir bytes fds maps path cap A) Q
    (pbind (backend_CreateShm OS name sz) k) w g"
proof (cases "validateShmSize sz")
  case (Some e)
  then show ?thesis using bad by (simp add: backend_CreateShm_def)
next
  case None
  note failed = rg_creator_closes [OF _ bad]
  show ?thesis
    unfolding backend_CreateShm_def None assms(2) option.case sum.case pbind_assoc
    by (rule rg_creator_opens [OF assms(1)])
      (auto simp: pbind_assoc intro!: bad rg_creator_truncates [OF _ sz] rg_creator_removes failed
        rg_creator_maps [OF _ sz] rg_creator_closes [OF _ good])
qed

lemma rg_backend_OpenShm:
  assumes "opener_knows dir bytes fds maps path cap A None None False w g" "shmPath name = Inr path"
    and sz: "nat sz = headerSize + cap"
    and bad: "\<And>e full w g. opener_knows dir bytes fds maps path cap A None None full w g \<Longrightarrow>
      rg B (creator_step dir bytes fds maps path cap A) (opener_step dir bytes fds maps path cap A) Q (k (Inl e)) w g"
    and good: "\<And>m w g. opener_knows dir bytes fds maps path cap A None (Some m) True w g \<Longrightarrow>
      rg B (creator_step dir bytes fds maps path cap A) (opener_step dir bytes fds maps path cap A) Q
        (k (Inr (shm_of m sz False path))) w g"
  shows "rg B (creator_step dir bytes fds maps path cap A) (opener_step dir bytes fds maps path cap A) Q
    (pbind (backend_OpenShm OS name sz) k) w g"
proof (cases "validateShmSize sz")
  case (Some e)
  then show ?thesis using bad [OF assms(1)] by (simp add: backend_OpenShm_def)
next
  case None
  show ?thesis
    unfolding backend_OpenShm_def None assms(2) option.case sum.case pbind_assoc
    by (rule rg_opener_opens [OF assms(1)])
      (auto simp: pbind_assoc intro!: bad rg_opener_maps [OF _ sz] rg_opener_closes [OF _ bad] rg_opener_closes [OF _ good])
qed

end

end
