(* ===== verification/LaunchRun.thy ===== *)
theory LaunchRun
  imports Launch
begin

text \<open>
  The ring that the creator and the opener of a named segment share. Once a process has its mapping, the proofs
  of the theory \<open>Attach\<close> apply to it; they are lifted here to the invariant of \<open>Launch\<close>, which also
  has the names, descriptors and mappings that the calls on a handle leave alone.
\<close>

section \<open>A mapping of a whole file\<close>

definition whole ::
  "('w \<Rightarrow> 'i \<Rightarrow> byte list) \<Rightarrow> ('w \<Rightarrow> nat \<Rightarrow> ('i \<times> nat) option) \<Rightarrow> nat \<Rightarrow> 'i \<Rightarrow> nat \<Rightarrow> 'w \<Rightarrow> bool" where
  "whole bytes maps m ino len w \<longleftrightarrow> maps w m = Some (ino, len) \<and> length (bytes w ino) = len \<and> len < 2 ^ 62"

definition same_tables ::
  "('w \<Rightarrow> string \<Rightarrow> 'i option) \<Rightarrow> ('w \<Rightarrow> int \<Rightarrow> 'i option) \<Rightarrow> ('w \<Rightarrow> nat \<Rightarrow> ('i \<times> nat) option) \<Rightarrow> 'w \<Rightarrow> 'w \<Rightarrow> bool" where
  "same_tables dir fds maps w w' \<longleftrightarrow> dir w' = dir w \<and> fds w' = fds w \<and> maps w' = maps w"

context steady_posix
begin

lemma mapped_whole: "mapped_memory OS m len (\<lambda>w. bytes w ino) (whole bytes maps m ino len)"
proof (unfold_locales, goal_cases)
  case (3 w n i)
  then show ?case by (intro load) (auto simp: whole_def)
next
  case (4 w xs i)
  then have "maps w m = Some (ino, len)" "length (bytes w ino) = len" by (auto simp: whole_def)
  then show ?case using 4 store [of w m ino len xs i] by (auto simp: whole_def patch_simps)
next
  case (6 i v d)
  show ?case by (rule quiet_weaken [OF wait]) (auto simp: whole_def)
qed (use wake in \<open>auto simp: whole_def\<close>)

lemma whole_storage:
  assumes "nat sz = len" "0 \<le> sz"
  shows "waking_storage (shm_storage OS (shm_of m sz own path)) (\<lambda>w. bytes w ino) (whole bytes maps m ino len) None"
proof -
  have "shm_mapping OS m len (\<lambda>w. bytes w ino) (whole bytes maps m ino len) (shm_of m sz own path)"
    using mapped_whole assms by (intro shm_mapping.intro shm_mapping_axioms.intro) auto
  then show ?thesis by (intro ring_storage.waking_None shm_mapping.lawful)
qed

lemma framed_shm: "framed_storage (same_tables dir fds maps) (shm_storage OS s)"
proof (unfold_locales, unfold shm_storage_simps, goal_cases)
  case 1
  show ?case by (simp add: reflp_def same_tables_def)
next
  case (2 p off w)
  show ?case
    using store_tables
    by (auto simp: shm_WriteAt_def copyIn_def Let_def same_tables_def split: option.split prod.split go.split if_splits)
next
  case (4 u off w)
  then show ?case
    using wake by (auto simp: shm_Wake_def futexWakeWord_def same_tables_def split: go.split)
next
  case (5 u off v d)
  then have u: "Wait u = shm_Wait OS s" by auto
  have "framed (same_tables dir fds maps) (\<lambda>_. True) (FutexWait OS m i v d)" for m i d
    by (rule quiet_framed, rule quiet_weaken [OF wait]) (auto simp: same_tables_def)
  then show ?case
    unfolding u shm_Wait_def futexWaitWord_def
    by (intro framed_pbind [OF framed_query]) (auto simp: reflp_def same_tables_def)
qed auto

end

interpretation kernel_frame: framed_storage "same_tables k_dir k_fd k_map" "shm_storage kernel_os s" for s
  by (rule kernel.framed_shm)

text \<open>Two notions of a live mapping that agree on a world say the same of its ring.\<close>

lemma spsc_inv_cong: "live w = live' w \<Longrightarrow> spsc_inv data live A cap w g = spsc_inv data live' A cap w g"
  by (simp add: spsc_inv_def)

lemma whole_ring:
  assumes "whole bytes maps m ino (headerSize + cap) w = sized bytes ino cap w"
  shows "unset (\<lambda>w. bytes w ino) (whole bytes maps m ino (headerSize + cap)) cap w h = ring_unset bytes ino cap w h"
    and "in_use (\<lambda>w. bytes w ino) (whole bytes maps m ino (headerSize + cap)) A cap w h = ring_used bytes ino A cap w h"
    and "unread (\<lambda>w. bytes w ino) (whole bytes maps m ino (headerSize + cap)) A cap w h = ring_unread bytes ino A cap w h"
  using assms spsc_inv_cong [where live = "whole bytes maps m ino (headerSize + cap)" and live' = "sized bytes ino cap"]
  by (simp_all add: unset_def unread_def in_use_def)

lemma whole_steps:
  assumes "whole bytes maps m ino (headerSize + cap) w = sized bytes ino cap w"
    and "whole bytes maps m ino (headerSize + cap) w' = sized bytes ino cap w'"
  shows "writer_step (\<lambda>w. bytes w ino) (whole bytes maps m ino (headerSize + cap)) None A cap (w, h) (w', h') =
      writer_step (\<lambda>w. bytes w ino) (sized bytes ino cap) None A cap (w, h) (w', h')"
    and "reader_step (\<lambda>w. bytes w ino) (whole bytes maps m ino (headerSize + cap)) None A cap (w, h) (w', h') =
      reader_step (\<lambda>w. bytes w ino) (sized bytes ino cap) None A cap (w, h) (w', h')"
  using assms spsc_inv_cong [where live = "whole bytes maps m ino (headerSize + cap)" and live' = "sized bytes ino cap"]
  by (simp_all add: step_defs)

text \<open>The steps between a ring that is unset or in use and one that is, for each side.\<close>

definition creates :: "('w \<Rightarrow> 'i \<Rightarrow> byte list) \<Rightarrow> 'i \<Rightarrow> (bool \<Rightarrow> byte list \<Rightarrow> bool) \<Rightarrow> nat \<Rightarrow> ('w, hist) interference" where
  "creates bytes ino A cap = (\<lambda>(w, h) (w', h').
     if ring_used bytes ino A cap w h then writer_step (\<lambda>w. bytes w ino) (sized bytes ino cap) None A cap (w, h) (w', h')
     else ring_used bytes ino A cap w' h' \<longrightarrow> ring_unread bytes ino A cap w' h')"

definition opens :: "('w \<Rightarrow> 'i \<Rightarrow> byte list) \<Rightarrow> 'i \<Rightarrow> (bool \<Rightarrow> byte list \<Rightarrow> bool) \<Rightarrow> nat \<Rightarrow> ('w, hist) interference" where
  "opens bytes ino A cap = (\<lambda>(w, h) (w', h').
     if ring_used bytes ino A cap w h then reader_step (\<lambda>w. bytes w ino) (sized bytes ino cap) None A cap (w, h) (w', h')
     else (bytes w' ino = [] \<longleftrightarrow> bytes w ino = []) \<and> \<not> ring_used bytes ino A cap w' h')"

lemma creates_starts:
  assumes "ring_unset bytes ino cap w h \<noteq> ring_used bytes ino A cap w h"
    and "whole bytes maps m ino (headerSize + cap) w = sized bytes ino cap w"
    and "whole bytes maps m ino (headerSize + cap) w' = sized bytes ino cap w'"
  shows "starting_step (\<lambda>w. bytes w ino) (whole bytes maps m ino (headerSize + cap)) None A cap (w, h) (w', h') \<longleftrightarrow>
    creates bytes ino A cap (w, h) (w', h') \<and> (ring_unset bytes ino cap w' h' \<or> ring_used bytes ino A cap w' h')"
proof (cases "ring_used bytes ino A cap w h")
  case True
  then show ?thesis
    using assms in_use_steps(2) [where live = "whole bytes maps m ino (headerSize + cap)" and A = A and data = "\<lambda>w. bytes w ino"]
      in_use_kept(1) [OF True, of None w' h']
    by (auto simp: whole_ring whole_steps creates_def)
next
  case False
  then show ?thesis
    using assms(1) unread_in_use [of "\<lambda>w. bytes w ino" "sized bytes ino cap" A cap w' h']
      unset_not_in_use [of "\<lambda>w. bytes w ino" "sized bytes ino cap" cap w' h' A]
    by (auto simp: starting_step_def whole_ring [OF assms(2)] whole_ring [OF assms(3)] creates_def)
qed

lemma opens_attaches:
  assumes "ring_unset bytes ino cap w h \<noteq> ring_used bytes ino A cap w h"
    and "whole bytes maps m ino (headerSize + cap) w = sized bytes ino cap w"
    and "whole bytes maps m ino (headerSize + cap) w' = sized bytes ino cap w'"
  shows "attaching_step (\<lambda>w. bytes w ino) (whole bytes maps m ino (headerSize + cap)) None A cap (w, h) (w', h') \<longleftrightarrow>
    opens bytes ino A cap (w, h) (w', h') \<and> (ring_unset bytes ino cap w' h' \<or> ring_used bytes ino A cap w' h')"
proof (cases "ring_used bytes ino A cap w h")
  case True
  then show ?thesis
    using assms in_use_steps(1) [where live = "whole bytes maps m ino (headerSize + cap)" and A = A and data = "\<lambda>w. bytes w ino"]
      in_use_kept(2) [OF True, of None w' h']
    by (auto simp: whole_ring whole_steps opens_def)
next
  case False
  then have u: "ring_unset bytes ino cap w h" using assms(1) by blast
  have "bytes w' ino \<noteq> [] \<and> \<not> ring_used bytes ino A cap w' h'" if "ring_unset bytes ino cap w' h'"
    using that unset_not_in_use unset_not_empty by metis
  then show ?thesis
    using u False unset_not_empty [where bytes = bytes and ino = ino, OF u]
    by (auto simp: attaching_step_def whole_ring [OF assms(2)] whole_ring [OF assms(3)] opens_def)
qed

text \<open>
  A process that has its mapping and has closed its descriptor: the segment has been sized, and is unset or in use.
\<close>

definition creator_has ::
  "('w \<Rightarrow> string \<Rightarrow> 'i option) \<Rightarrow> ('w \<Rightarrow> 'i \<Rightarrow> byte list) \<Rightarrow> ('w \<Rightarrow> int \<Rightarrow> 'i option) \<Rightarrow> ('w \<Rightarrow> nat \<Rightarrow> ('i \<times> nat) option) \<Rightarrow>
    string \<Rightarrow> nat \<Rightarrow> (bool \<Rightarrow> byte list \<Rightarrow> bool) \<Rightarrow> 'i \<Rightarrow> nat \<Rightarrow> 'w \<Rightarrow> hist \<Rightarrow> 'i owned \<Rightarrow> bool" where
  "creator_has dir bytes fds maps path cap A ino m w h s \<longleftrightarrow> launch_inv dir bytes fds maps path cap A w (h, s) \<and>
     seg s = Some ino \<and> wfd s = None \<and> wmap s = Some m \<and> bytes w ino \<noteq> [] \<and> dir w path = Some ino"

definition opener_has ::
  "('w \<Rightarrow> string \<Rightarrow> 'i option) \<Rightarrow> ('w \<Rightarrow> 'i \<Rightarrow> byte list) \<Rightarrow> ('w \<Rightarrow> int \<Rightarrow> 'i option) \<Rightarrow> ('w \<Rightarrow> nat \<Rightarrow> ('i \<times> nat) option) \<Rightarrow>
    string \<Rightarrow> nat \<Rightarrow> (bool \<Rightarrow> byte list \<Rightarrow> bool) \<Rightarrow> 'i \<Rightarrow> nat \<Rightarrow> 'w \<Rightarrow> hist \<Rightarrow> 'i owned \<Rightarrow> bool" where
  "opener_has dir bytes fds maps path cap A ino m w h s \<longleftrightarrow> launch_inv dir bytes fds maps path cap A w (h, s) \<and>
     seg s = Some ino \<and> rfd s = None \<and> rmap s = Some m \<and> bytes w ino \<noteq> []"

lemma launch_ring:
  assumes "launch_inv dir bytes fds maps path cap A w (h, s)" "seg s = Some ino" "bytes w ino \<noteq> []"
  shows "ring_unset bytes ino cap w h \<or> ring_used bytes ino A cap w h"
    and "ring_unset bytes ino cap w h \<noteq> ring_used bytes ino A cap w h"
proof -
  show "ring_unset bytes ino cap w h \<or> ring_used bytes ino A cap w h"
    using assms by (simp add: launch_inv_def)
  then show "ring_unset bytes ino cap w h \<noteq> ring_used bytes ino A cap w h"
    using unset_not_in_use [of "\<lambda>w. bytes w ino" "sized bytes ino cap" cap w h A] by blast
qed

lemma ring_not_empty:
  "ring_unset bytes ino cap w h \<or> ring_used bytes ino A cap w h \<Longrightarrow> bytes w ino \<noteq> []"
  using used_not_empty unset_not_empty by metis

lemma launch_inv_ring:
  assumes "launch_inv dir bytes fds maps path cap A w (h, s)" "seg s = Some ino" "same_tables dir fds maps w w'"
    and "ring_unset bytes ino cap w' h' \<or> ring_used bytes ino A cap w' h'"
  shows "launch_inv dir bytes fds maps path cap A w' (h', s)"
  using assms by (simp add: launch_inv_def same_tables_def)

lemma launch_whole:
  assumes "launch_inv dir bytes fds maps path cap A w (h, s)" "seg s = Some ino" "wmap s = Some m \<or> rmap s = Some m"
    and "headerSize + cap < 2 ^ 62"
  shows "whole bytes maps m ino (headerSize + cap) w = sized bytes ino cap w"
    and "same_tables dir fds maps w w' \<Longrightarrow> whole bytes maps m ino (headerSize + cap) w' = sized bytes ino cap w'"
  using launch_inv_owned(2) [OF assms(1,3)] assms(2,4) by (simp_all add: whole_def same_tables_def)

lemma opener_step_attaches:
  assumes "creator_has dir bytes fds maps path cap A ino m w h s" "headerSize + cap < 2 ^ 62"
    and "opener_step dir bytes fds maps path cap A (w, h, s) (w', h', s')"
  shows "attaching_step (\<lambda>w. bytes w ino) (whole bytes maps m ino (headerSize + cap)) None A cap (w, h) (w', h') \<and>
    creator_has dir bytes fds maps path cap A ino m w' h' s'"
proof -
  have i: "launch_inv dir bytes fds maps path cap A w (h, s)" "seg s = Some ino" "wfd s = None" "wmap s = Some m" "bytes w ino \<noteq> []"
      "dir w path = Some ino"
    using assms(1) by (auto simp: creator_has_def)
  have st: "launch_inv dir bytes fds maps path cap A w' (h', s')" "seg s' = Some ino" "wfd s' = None" "wmap s' = Some m"
      "dir w' path = Some ino" "opens bytes ino A cap (w, h) (w', h')"
    using assms(3) i by (auto simp: opener_step_def opens_def)
  have ne: "bytes w' ino \<noteq> []"
  proof (cases "ring_used bytes ino A cap w h")
    case True
    then have "ring_used bytes ino A cap w' h'" using st(6) by (intro in_use_kept(2) [OF True]) (simp add: opens_def)
    then show ?thesis by (rule used_not_empty)
  qed (use st(6) i(5) in \<open>simp add: opens_def\<close>)
  then have "creator_has dir bytes fds maps path cap A ino m w' h' s'" using st by (simp add: creator_has_def)
  then show ?thesis
    using opens_attaches [OF launch_ring(2) [OF i(1,2,5)] launch_whole(1) [OF i(1,2) disjI1 [OF i(4)] assms(2)]
        launch_whole(1) [OF st(1,2) disjI1 [OF st(4)] assms(2)], of h'] st(6) launch_ring(1) [OF st(1,2) ne] by blast
qed

lemma starting_step_creates:
  assumes "creator_has dir bytes fds maps path cap A ino m w h s" "headerSize + cap < 2 ^ 62"
    and "starting_step (\<lambda>w. bytes w ino) (whole bytes maps m ino (headerSize + cap)) None A cap (w, h) (w', h')"
    and "same_tables dir fds maps w w'"
  shows "creator_step dir bytes fds maps path cap A (w, h, s) (w', h', s) \<and> creator_has dir bytes fds maps path cap A ino m w' h' s"
proof -
  have i: "launch_inv dir bytes fds maps path cap A w (h, s)" "seg s = Some ino" "wmap s = Some m" "bytes w ino \<noteq> []"
    using assms(1) by (auto simp: creator_has_def)
  note whole = launch_whole [OF i(1,2) disjI1 [OF i(3)] assms(2)]
  have st: "creates bytes ino A cap (w, h) (w', h')" "ring_unset bytes ino cap w' h' \<or> ring_used bytes ino A cap w' h'"
    using assms(3) creates_starts [OF launch_ring(2) [OF i(1,2,4)] whole(1) whole(2) [OF assms(4)], of h'] by blast+
  then show ?thesis
    using assms(4) launch_inv_ring [OF i(1,2) assms(4) st(2)] i(2) assms(1) ring_not_empty [where bytes = bytes and ino = ino, OF st(2)]
    by (simp add: creator_step_def creator_has_def creates_def same_tables_def)
qed

lemma creator_step_starts:
  assumes "opener_has dir bytes fds maps path cap A ino m w h s" "headerSize + cap < 2 ^ 62"
    and "creator_step dir bytes fds maps path cap A (w, h, s) (w', h', s')"
  shows "starting_step (\<lambda>w. bytes w ino) (whole bytes maps m ino (headerSize + cap)) None A cap (w, h) (w', h') \<and>
    opener_has dir bytes fds maps path cap A ino m w' h' s'"
proof -
  have i: "launch_inv dir bytes fds maps path cap A w (h, s)" "seg s = Some ino" "rmap s = Some m" "bytes w ino \<noteq> []"
    using assms(1) by (auto simp: opener_has_def)
  have has: "opener_has dir bytes fds maps path cap A ino m w' h' s'"
    using assms(1,3) by (auto simp: opener_has_def creator_step_def)
  then have st: "launch_inv dir bytes fds maps path cap A w' (h', s')" "seg s' = Some ino" "rmap s' = Some m" "bytes w' ino \<noteq> []"
    by (auto simp: opener_has_def)
  have "creates bytes ino A cap (w, h) (w', h')"
    using assms(3) i(1,2) st(2) by (simp add: creator_step_def creates_def)
  then show ?thesis
    using creates_starts [OF launch_ring(2) [OF i(1,2,4)] launch_whole(1) [OF i(1,2) disjI2 [OF i(3)] assms(2)]
        launch_whole(1) [OF st(1,2) disjI2 [OF st(3)] assms(2)], of h'] launch_ring(1) [OF st(1,2,4)] has by blast
qed

lemma attaching_step_opens:
  assumes "opener_has dir bytes fds maps path cap A ino m w h s" "headerSize + cap < 2 ^ 62"
    and "attaching_step (\<lambda>w. bytes w ino) (whole bytes maps m ino (headerSize + cap)) None A cap (w, h) (w', h')"
    and "same_tables dir fds maps w w'"
  shows "opener_step dir bytes fds maps path cap A (w, h, s) (w', h', s) \<and> opener_has dir bytes fds maps path cap A ino m w' h' s"
proof -
  have i: "launch_inv dir bytes fds maps path cap A w (h, s)" "seg s = Some ino" "rmap s = Some m" "bytes w ino \<noteq> []"
    using assms(1) by (auto simp: opener_has_def)
  note whole = launch_whole [OF i(1,2) disjI2 [OF i(3)] assms(2)]
  have st: "opens bytes ino A cap (w, h) (w', h')" "ring_unset bytes ino cap w' h' \<or> ring_used bytes ino A cap w' h'"
    using assms(3) opens_attaches [OF launch_ring(2) [OF i(1,2,4)] whole(1) whole(2) [OF assms(4)], of h'] by blast+
  then show ?thesis
    using assms(4) launch_inv_ring [OF i(1,2) assms(4) st(2)] i(2) assms(1) ring_not_empty [where bytes = bytes and ino = ino, OF st(2)]
    by (simp add: opener_step_def opener_has_def opens_def same_tables_def)
qed

lemma creator_lift:
  assumes "rg B (attaching_step (\<lambda>w. bytes w ino) (whole bytes maps m ino (headerSize + cap)) None A cap)
      (starting_step (\<lambda>w. bytes w ino) (whole bytes maps m ino (headerSize + cap)) None A cap) Q p w h"
    and "framed (same_tables dir fds maps) V p" "creator_has dir bytes fds maps path cap A ino m w h s" "headerSize + cap < 2 ^ 62"
  shows "rg (\<lambda>_ _ _. True) (opener_step dir bytes fds maps path cap A) (creator_step dir bytes fds maps path cap A)
    (\<lambda>a w (h, s). Q a w h \<and> creator_has dir bytes fds maps path cap A ino m w h s) p w (h, s)"
  by (rule rg_lift [where I = "creator_has dir bytes fds maps path cap A ino m", OF assms(1-3)])
    (rule opener_step_attaches [OF _ assms(4)] starting_step_creates [OF _ assms(4)]; assumption)+

lemma opener_lift:
  assumes "rg B (starting_step (\<lambda>w. bytes w ino) (whole bytes maps m ino (headerSize + cap)) None A cap)
      (attaching_step (\<lambda>w. bytes w ino) (whole bytes maps m ino (headerSize + cap)) None A cap) Q p w h"
    and "framed (same_tables dir fds maps) V p" "opener_has dir bytes fds maps path cap A ino m w h s" "headerSize + cap < 2 ^ 62"
  shows "rg (\<lambda>_ _ _. True) (creator_step dir bytes fds maps path cap A) (opener_step dir bytes fds maps path cap A)
    (\<lambda>a w (h, s). Q a w h \<and> opener_has dir bytes fds maps path cap A ino m w h s) p w (h, s)"
  by (rule rg_lift [where I = "opener_has dir bytes fds maps path cap A ino m", OF assms(1-3)])
    (rule creator_step_starts [OF _ assms(4)] attaching_step_opens [OF _ assms(4)]; assumption)+


section \<open>The two processes\<close>

lemma creator_done_stable:
  "stable (opener_step dir bytes fds maps path cap A) (\<lambda>w (h, s). creator_has dir bytes fds maps path cap A ino m w h s \<and>
     ring_used bytes ino A cap w h \<and> produced h = sent)"
  unfolding stable_def creator_has_def
proof (clarify, intro conjI)
  fix w h s w' h' s'
  assume i: "launch_inv dir bytes fds maps path cap A w (h, s)" "seg s = Some ino" "wfd s = None" "wmap s = Some m"
      "bytes w ino \<noteq> []" "dir w path = Some ino" "ring_used bytes ino A cap w h"
    and st: "opener_step dir bytes fds maps path cap A (w, h, s) (w', h', s')"
  have r: "reader_step (\<lambda>w. bytes w ino) (sized bytes ino cap) None A cap (w, h) (w', h')"
    using st i(1,2,7) by (simp add: opener_step_def)
  show used: "ring_used bytes ino A cap w' h'" by (rule in_use_kept(2) [OF i(7) r])
  show "bytes w' ino \<noteq> []" by (rule used_not_empty [where bytes = bytes and ino = ino, OF used])
  show "produced h' = produced h" using r i(7) by (simp add: reader_step_def in_use_def)
qed (auto simp: opener_step_def)

lemma opener_done_stable:
  "stable (creator_step dir bytes fds maps path cap A) (\<lambda>w (h, s). opener_has dir bytes fds maps path cap A ino m w h s \<and>
     consumed h = got)"
  unfolding stable_def opener_has_def
proof (clarify, intro conjI)
  fix w h s w' h' s'
  assume i: "launch_inv dir bytes fds maps path cap A w (h, s)" "seg s = Some ino" "rfd s = None" "rmap s = Some m"
      "bytes w ino \<noteq> []"
    and st: "creator_step dir bytes fds maps path cap A (w, h, s) (w', h', s')"
  have inv: "launch_inv dir bytes fds maps path cap A w' (h', s')" "seg s' = Some ino" "bytes w' ino \<noteq> []"
      "creates bytes ino A cap (w, h) (w', h')"
    using st i by (auto simp: creator_step_def creates_def)
  then show "launch_inv dir bytes fds maps path cap A w' (h', s')" "seg s' = Some ino" "bytes w' ino \<noteq> []" by blast+
  show "rfd s' = None" "rmap s' = Some m" using st i by (auto simp: creator_step_def)
  show "consumed h' = consumed h"
    using launch_ring(2) [OF i(1,2,5)] launch_ring(1) [OF inv(1,2,3)] inv(4)
    by (auto simp: creates_def unset_def in_use_def unread_def writer_step_def no_history_def split: if_splits)
qed

context steady_posix
begin

lemma rg_creator_starts:
  assumes "creator_knows dir bytes fds maps path cap A (Some ino) None (Some m) True True w g" "cap_ok cap"
    and sz: "nat sz = headerSize + cap" and A: "\<And>c x. prefix x (concat ps) \<Longrightarrow> A c x"
  shows "rg (\<lambda>_ _ _. True) (opener_step dir bytes fds maps path cap A) (creator_step dir bytes fds maps path cap A)
    (\<lambda>res w (h, s). (\<exists>sent e u. res = Inr (sent, e, u) \<and> produced h = sent \<and> prefix sent (concat ps)) \<and>
      ring_used bytes ino A cap w h \<and> creator_has dir bytes fds maps path cap A ino m w h s)
    (start_sending fuel Background ps (shm_storage OS (shm_of m sz True path)) (int cap) opts) w g"
proof -
  have pos: "0 \<le> sz" using sz by (cases "0 \<le> sz") (simp_all add: headerSize_def)
  have big: "headerSize + cap < 2 ^ 62" using cap_ok_bounds [OF assms(2)] by (simp add: headerSize_def)
  obtain h s where g: "g = (h, s)" by (cases g)
  have has: "creator_has dir bytes fds maps path cap A ino m w h s" "\<not> ring_used bytes ino A cap w h"
    using assms(1) by (auto simp: g creator_knows_def creator_has_def)
  then have i: "launch_inv dir bytes fds maps path cap A w (h, s)" "seg s = Some ino" "wmap s = Some m" "bytes w ino \<noteq> []"
    by (auto simp: creator_has_def)
  have unset: "unset (\<lambda>w. bytes w ino) (whole bytes maps m ino (headerSize + cap)) cap w h"
    using launch_ring(1) [OF i(1,2,4)] has(2) whole_ring(1) [OF launch_whole(1) [OF i(1,2) disjI1 [OF i(3)] big]] by blast
  note starts = waking_storage.rg_start_sending [where A = A and ps = ps, OF whole_storage [OF sz pos] Background_ok A unset assms(2)]
  note framed = framed_storage.framed_start_sending [OF framed_shm]
  have whole: "whole bytes maps m ino (headerSize + cap) w = sized bytes ino cap w"
    if "creator_has dir bytes fds maps path cap A ino m w h s" for w h s
    using that big by (intro launch_whole(1)) (auto simp: creator_has_def)
  show ?thesis
    unfolding g
    by (rule rg_mono [OF creator_lift [OF starts framed has(1) big]]) (auto simp: whole_ring(2) [OF whole])
qed

lemma rg_opener_starts:
  assumes "opener_knows dir bytes fds maps path cap A None (Some m) True w (h, s)" "seg s = Some ino" "cap_ok cap"
    and sz: "nat sz = headerSize + cap"
  shows "rg (\<lambda>_ _ _. True) (creator_step dir bytes fds maps path cap A) (opener_step dir bytes fds maps path cap A)
    (\<lambda>res w (h, s). ((\<exists>e. res = Inl e) \<or> (\<exists>got e r. res = Inr (got, e, r) \<and> consumed h = got)) \<and>
      opener_has dir bytes fds maps path cap A ino m w h s)
    (start_receiving fuel Background bs (shm_storage OS (shm_of m sz False path)) (int cap) opts) w (h, s)"
proof -
  have pos: "0 \<le> sz" using sz by (cases "0 \<le> sz") (simp_all add: headerSize_def)
  have big: "headerSize + cap < 2 ^ 62" using cap_ok_bounds [OF assms(3)] by (simp add: headerSize_def)
  have has: "opener_has dir bytes fds maps path cap A ino m w h s" "ring_used bytes ino A cap w h \<Longrightarrow> ring_unread bytes ino A cap w h"
    using assms(1,2) by (auto simp: opener_knows_def opener_has_def)
  then have i: "launch_inv dir bytes fds maps path cap A w (h, s)" "rmap s = Some m" "bytes w ino \<noteq> []"
    by (auto simp: opener_has_def)
  have ring: "unset (\<lambda>w. bytes w ino) (whole bytes maps m ino (headerSize + cap)) cap w h \<or>
      unread (\<lambda>w. bytes w ino) (whole bytes maps m ino (headerSize + cap)) A cap w h"
    using launch_ring(1) [OF i(1) assms(2) i(3)] has(2)
      whole_ring(1,3) [OF launch_whole(1) [OF i(1) assms(2) disjI2 [OF i(2)] big]] by blast
  note starts = waking_storage.rg_start_receiving [OF whole_storage [OF sz pos] Background_ok ring assms(3)]
  note framed = framed_storage.framed_start_receiving [OF framed_shm]
  show ?thesis
    by (rule rg_mono [OF opener_lift [OF starts framed has(1) big]]) auto
qed

lemma launch_sending_eq:
  assumes "validateCapacity c = None"
  shows "launch_sending fuel ps OS name c opts = pbind (backend_CreateShm OS name (add64 (int headerSize) c)) (\<lambda>r. case r of
      Inl e \<Rightarrow> Return (Inl e)
    | Inr s \<Rightarrow> pbind (start_sending fuel Background ps (shm_storage OS s) c opts) (\<lambda>res. case res of
        Inl e \<Rightarrow> pbind (call (shm_Close OS s)) (\<lambda>_. Return (Inl e))
      | Inr z \<Rightarrow> Return (Inr z)))"
  unfolding launch_sending_def CreateShm_def linux_create_def start_sending_def assms option.case pbind_assoc pbind.simps(1)
  by (auto intro!: arg_cong [where f = "pbind _"] simp: fun_eq_iff pbind_assoc split: sum.split)

lemma launch_receiving_eq:
  assumes "validateCapacity c = None"
  shows "launch_receiving fuel bs OS name c opts = pbind (backend_OpenShm OS name (add64 (int headerSize) c)) (\<lambda>r. case r of
      Inl e \<Rightarrow> Return (Inl e)
    | Inr s \<Rightarrow> pbind (start_receiving fuel Background bs (shm_storage OS s) c opts) (\<lambda>res. case res of
        Inl e \<Rightarrow> pbind (call (shm_Close OS s)) (\<lambda>_. Return (Inl e))
      | Inr z \<Rightarrow> Return (Inr z)))"
  unfolding launch_receiving_def OpenShm_def linux_open_def start_receiving_def assms option.case pbind_assoc pbind.simps(1)
  by (auto intro!: arg_cong [where f = "pbind _"] simp: fun_eq_iff pbind_assoc split: sum.split)

lemma rg_launch_sending:
  assumes k: "creator_knows dir bytes fds maps path cap A None None None False True w g" "shmPath name = Inr path"
    and c: "cap_ok cap" and A: "\<And>c x. prefix x (concat ps) \<Longrightarrow> A c x"
  shows "rg (\<lambda>_ _ _. True) (opener_step dir bytes fds maps path cap A) (creator_step dir bytes fds maps path cap A)
    (\<lambda>res w (h, s). \<forall>sent e u. res = Inr (sent, e, u) \<longrightarrow> (\<exists>ino. seg s = Some ino \<and> dir w path = Some ino \<and> ring_used bytes ino A cap w h) \<and>
      produced h = sent \<and> prefix sent (concat ps))
    (launch_sending fuel ps OS name (int cap) opts) w g"
  (is "rg ?B ?R ?G ?Q _ w g")
proof -
  have "validateCapacity (int cap) = None" using c by (simp add: cap_ok_validate)
  have sz: "nat (add64 (int headerSize) (int cap)) = headerSize + cap" using cap_ok_bounds [OF c] add64_nat [of headerSize cap] by (simp add: headerSize_def)
  show ?thesis
    unfolding launch_sending_eq [OF \<open>validateCapacity (int cap) = None\<close>]
  proof (rule rg_backend_CreateShm [OF k sz], unfold sum.case)
    show "rg ?B ?R ?G ?Q (Return (Inl e)) w g" for e w g by (simp add: rg_Return)
    let ?st = "\<lambda>m. shm_of m (add64 (int headerSize) (int cap)) True path"
    fix ino m w g assume has: "creator_knows dir bytes fds maps path cap A (Some ino) None (Some m) True True w g"
    show "rg ?B ?R ?G ?Q (pbind (start_sending fuel Background ps (shm_storage OS (?st m)) (int cap) opts)
        (\<lambda>res. case res of Inl e \<Rightarrow> pbind (call (shm_Close OS (?st m))) (\<lambda>_. Return (Inl e))
          | Inr z \<Rightarrow> Return (Inr z))) w g"
    proof (rule rg_pbind [OF rg_mono [OF rg_creator_starts [OF has c sz A]] launch_refl(2)])
      fix res :: "gerror + byte list \<times> gerror option \<times> 'a writer" and w g
      assume q: "case g of (h, s) \<Rightarrow> (\<exists>sent e u. res = Inr (sent, e, u) \<and> produced h = sent \<and> prefix sent (concat ps)) \<and>
        ring_used bytes ino A cap w h \<and> creator_has dir bytes fds maps path cap A ino m w h s"
      then obtain h s sent e u where g: "g = (h, s)" "res = Inr (sent, e, u)" "prefix sent (concat ps)"
          "creator_has dir bytes fds maps path cap A ino m w h s \<and> ring_used bytes ino A cap w h \<and> produced h = sent"
        by (cases g) auto
      show "rg ?B ?R ?G ?Q (case res of Inl e \<Rightarrow> pbind (call (shm_Close OS (?st m))) (\<lambda>_. Return (Inl e))
          | Inr z \<Rightarrow> Return (Inr z)) w g"
        unfolding g(2) sum.case
        by (rule rg_Return_stable [OF creator_done_stable [of dir bytes fds maps path cap A ino m sent]])
          (use g(1,3,4) in \<open>auto simp: creator_has_def\<close>)
    qed
  qed
qed

lemma rg_opener_unmaps:
  assumes "opener_has dir bytes fds maps path cap A ino m w h s" "\<And>w g. Q a w g"
  shows "rg B (creator_step dir bytes fds maps path cap A) (opener_step dir bytes fds maps path cap A) Q
    (pbind (call (shm_Close OS (shm_of m sz False path))) (\<lambda>_. Return a)) w (h, s)"
proof (rule rg_call_stable [OF opener_done_stable [of dir bytes fds maps path cap A ino m "consumed h"]])
  show "case (h, s) of (h', s) \<Rightarrow> opener_has dir bytes fds maps path cap A ino m w h' s \<and> consumed h' = consumed h"
    using assms(1) by simp
  fix w g assume "case g of (h', s) \<Rightarrow> opener_has dir bytes fds maps path cap A ino m w h' s \<and> consumed h' = consumed h"
  then obtain h s where g: "g = (h, s)" and i: "launch_inv dir bytes fds maps path cap A w (h, s)" "seg s = Some ino" "rfd s = None"
      "rmap s = Some m"
    by (cases g) (auto simp: opener_has_def)
  obtain r w' where u: "Munmap OS m w = (r, w')" by (cases "Munmap OS m w")
  have close: "\<exists>b. shm_Close OS (shm_of m sz False path) w = (Ok b, w')"
    using u by (cases r) (simp_all add: shm_Close_def)
  have same: "dir w' = dir w" "bytes w' = bytes w" "fds w' = fds w" "\<And>n. n \<noteq> m \<Longrightarrow> maps w' n = maps w n"
    using u munmap munmap_fails by (cases r; auto)+
  note own = launch_inv_owned [OF i(1)]
  have "launch_inv dir bytes fds maps path cap A w' (h, s\<lparr>rmap := None\<rparr>)"
    by (rule launch_inv_keeps [OF i(1)]) (use own i(2-4) same in fastforce)+
  then have "opener_step dir bytes fds maps path cap A (w, h, s) (w', h, s\<lparr>rmap := None\<rparr>)"
    by (rule opener_moves) (use same in simp_all)
  then show "\<exists>a' w' g'. shm_Close OS (shm_of m sz False path) w = (Ok a', w') \<and>
      opener_step dir bytes fds maps path cap A (w, g) (w', g') \<and>
      rg B (creator_step dir bytes fds maps path cap A) (opener_step dir bytes fds maps path cap A) Q (Return a) w' g'"
    using close assms(2) unfolding g rg_Return by blast
qed

lemma rg_launch_receiving:
  assumes k: "opener_knows dir bytes fds maps path cap A None None False w g" "shmPath name = Inr path"
    and c: "cap_ok cap"
  shows "rg (\<lambda>_ _ _. True) (creator_step dir bytes fds maps path cap A) (opener_step dir bytes fds maps path cap A)
    (\<lambda>res w (h, s). \<forall>got e r. res = Inr (got, e, r) \<longrightarrow> consumed h = got)
    (launch_receiving fuel bs OS name (int cap) opts) w g"
  (is "rg ?B ?R ?G ?Q _ w g")
proof -
  have "validateCapacity (int cap) = None" using c by (simp add: cap_ok_validate)
  have sz: "nat (add64 (int headerSize) (int cap)) = headerSize + cap" using cap_ok_bounds [OF c] add64_nat [of headerSize cap] by (simp add: headerSize_def)
  show ?thesis
    unfolding launch_receiving_eq [OF \<open>validateCapacity (int cap) = None\<close>]
  proof (rule rg_backend_OpenShm [OF k sz], unfold sum.case)
    show "rg ?B ?R ?G ?Q (Return (Inl e)) w g" for e w g by (simp add: rg_Return)
    let ?st = "\<lambda>m. shm_of m (add64 (int headerSize) (int cap)) False path"
    fix m w g assume has: "opener_knows dir bytes fds maps path cap A None (Some m) True w g"
    then obtain h s ino where g: "g = (h, s)" "seg s = Some ino" by (cases g) (auto simp: opener_knows_def)
    show "rg ?B ?R ?G ?Q (pbind (start_receiving fuel Background bs (shm_storage OS (?st m)) (int cap) opts)
        (\<lambda>res. case res of Inl e \<Rightarrow> pbind (call (shm_Close OS (?st m))) (\<lambda>_. Return (Inl e))
          | Inr z \<Rightarrow> Return (Inr z))) w g"
      unfolding g(1)
    proof (rule rg_pbind [OF rg_mono [OF rg_opener_starts [OF has [unfolded g(1)] g(2) c sz]] launch_refl(1)])
      fix res :: "gerror + byte list \<times> gerror option \<times> 'a reader" and w g
      assume q: "case g of (h, s) \<Rightarrow> ((\<exists>e. res = Inl e) \<or> (\<exists>got e r. res = Inr (got, e, r) \<and> consumed h = got)) \<and>
        opener_has dir bytes fds maps path cap A ino m w h s"
      obtain h s where g: "g = (h, s)" by (cases g)
      show "rg ?B ?R ?G ?Q (case res of Inl e \<Rightarrow> pbind (call (shm_Close OS (?st m))) (\<lambda>_. Return (Inl e))
          | Inr z \<Rightarrow> Return (Inr z)) w g"
      proof (cases res)
        case (Inl e)
        show ?thesis
          unfolding Inl sum.case g by (rule rg_opener_unmaps [where ino = ino]) (use q g in auto)
      next
        case (Inr z)
        show ?thesis
          unfolding Inr sum.case
          by (rule rg_Return_stable [OF opener_done_stable [of dir bytes fds maps path cap A ino m "consumed h"]])
            (use q g Inr in auto)
      qed
    qed
  qed
qed

end


section \<open>Starting in any order\<close>

lemma launch_inv_kept:
  "stable (opener_step dir bytes fds maps path cap A) (launch_inv dir bytes fds maps path cap A)"
  "stable (creator_step dir bytes fds maps path cap A) (launch_inv dir bytes fds maps path cap A)"
  by (auto simp: stable_def opener_step_def creator_step_def)

lemma launch_inv_start:
  assumes "dir w path = None"
  obtains g :: "hist \<times> 'i owned" where "launch_inv dir bytes fds maps path cap A w g"
    "creator_knows dir bytes fds maps path cap A None None None False True w g"
    "opener_knows dir bytes fds maps path cap A None None False w g"
proof
  let ?g = "(no_history, \<lparr>seg = None, wfd = None, rfd = None, wmap = None, rmap = None\<rparr> :: 'i owned)"
  show "launch_inv dir bytes fds maps path cap A w ?g" using assms by (simp add: launch_inv_def)
  then show "creator_knows dir bytes fds maps path cap A None None None False True w ?g"
    "opener_knows dir bytes fds maps path cap A None None False w ?g"
    by (simp_all add: creator_knows_def opener_knows_def)
qed

lemma launch_inv_consumed:
  assumes "launch_inv dir bytes fds maps path cap (\<lambda>_ x. prefix x xs) w (h, s)"
  shows "prefix (consumed h) xs"
  using assms
  by (cases "seg s") (auto simp: launch_inv_def no_history_def unset_def in_use_def spsc_inv_def dest: append_prefixD)

text \<open>
  C11: two processes that start in any order. One creates the named segment and sends, the other opens it and
  receives, and their system calls and memory accesses interleave in any way; the name is new. On every operating
  system that keeps the laws, whichever calls fail: neither process panics or faults, so no one touches a
  page of a file that is not there yet; \<^verbatim>\<open>OpenShm\<close> comes back with an error or with a Reader, and what that
  Reader gives is a prefix of what was to be sent, from its first byte on, however far \<^verbatim>\<open>CreateShm\<close> had come; and
  when both are done, the name still leads to the ring, and what the Writer reported sent is what was received and
  what the ring holds.
\<close>

theorem shm_launch:
  assumes "steady_posix OS dir bytes fds maps page" "shmPath name = Inr path" "dir w0 path = None"
    and "par_run ss (launch_sending f1 ps OS name c o1, launch_receiving f2 bs OS name c o2, w0) = (p', q', w1)"
  shows "p' \<noteq> Crash x \<and> q' \<noteq> Crash y \<and>
    (\<forall>got e r. q' = Return (Inr (got, e, r)) \<longrightarrow> prefix got (concat ps)) \<and>
    (\<forall>sent e w. p' = Return (Inr (sent, e, w)) \<longrightarrow> prefix sent (concat ps) \<and>
      (\<exists>ino. dir w1 path = Some ino \<and>
        (\<forall>got e' r. q' = Return (Inr (got, e', r)) \<longrightarrow> sent = got @ contents (nat c) (bytes w1 ino))))"
proof -
  let ?A = "\<lambda>_ x. prefix x (concat ps)"
  let ?R = "opener_step dir bytes fds maps path (nat c) ?A" and ?W = "creator_step dir bytes fds maps path (nat c) ?A"
  let ?QW = "\<lambda>(res :: gerror + byte list \<times> gerror option \<times> _ writer) w (h, s). \<forall>sent e u. res = Inr (sent, e, u) \<longrightarrow>
      (\<exists>ino. seg s = Some ino \<and> dir w path = Some ino \<and> ring_used bytes ino ?A (nat c) w h) \<and>
      produced h = sent \<and> prefix sent (concat ps)"
  let ?QR = "\<lambda>(res :: gerror + byte list \<times> gerror option \<times> _ reader) w (h, s). \<forall>got e r. res = Inr (got, e, r) \<longrightarrow>
      consumed h = got"
  obtain g0 where g0: "launch_inv dir bytes fds maps path (nat c) ?A w0 g0"
      "creator_knows dir bytes fds maps path (nat c) ?A None None None False True w0 g0"
      "opener_knows dir bytes fds maps path (nat c) ?A None None False w0 g0"
    using launch_inv_start [where dir = dir and bytes = bytes, OF assms(3)] by blast
  have rgs: "rg (\<lambda>_ _ _. True) ?R ?W ?QW (launch_sending f1 ps OS name c o1) w0 g0 \<and>
      rg (\<lambda>_ _ _. True) ?W ?R ?QR (launch_receiving f2 bs OS name c o2) w0 g0"
  proof (cases "validateCapacity c")
    case None
    then obtain k where "c = 2 ^ k" "k \<le> 31" by (auto simp: validateCapacity_iff)
    then have c: "c = int (nat c)" "cap_ok (nat c)" by (auto simp: cap_ok_def nat_power_eq)
    show ?thesis
      using steady_posix.rg_launch_sending [where A = ?A and ps = ps, OF assms(1) g0(2) assms(2) c(2)]
        steady_posix.rg_launch_receiving [OF assms(1) g0(3) assms(2) c(2)]
      unfolding c(1) [symmetric] by blast
  next
    case (Some e)
    then show ?thesis
      by (simp add: launch_sending_def launch_receiving_def CreateShm_def OpenShm_def rg_Return)
  qed
  obtain h s where g: "launch_inv dir bytes fds maps path (nat c) ?A w1 (h, s)"
      "rg (\<lambda>_ _ _. True) ?R ?W ?QW p' w1 (h, s)" "rg (\<lambda>_ _ _. True) ?W ?R ?QR q' w1 (h, s)"
    using launch.par_run_sound [OF conjunct1 [OF rgs] conjunct2 [OF rgs] assms(4) launch_inv_kept g0(1)] by auto
  have "p' \<noteq> Crash x" "q' \<noteq> Crash y" using g(2,3) by (auto simp: rg_Crash)
  moreover have w: "?QW a w1 (h, s)" if "p' = Return a" for a
    by (rule launch.returned_left) (use g(2) that in blast)
  moreover have r: "?QR b w1 (h, s)" if "q' = Return b" for b
    by (rule launch.returned_right) (use g(3) that in blast)
  moreover have "prefix (consumed h) (concat ps)" by (rule launch_inv_consumed [OF g(1)])
  ultimately show ?thesis by (fastforce simp: in_use_def spsc_inv_def)
qed

text \<open>The opener maps the file after it has been sized and before the creator has mapped it.\<close>

definition overlapped :: "side list" where
  "overlapped = replicate 2 WriterSide @ replicate 4 ReaderSide @ replicate 5 WriterSide @ replicate 2 ReaderSide @
     replicate 7 WriterSide"

theorem shm_launch_witness:
  "case par_run overlapped (launch_sending 2 [[1]] kernel_os ''x'' 4 [], launch_receiving 2 [] kernel_os ''x'' 4 [], kernel0) of
     (Return (Inr (sent, e1, w)), Return (Inr (got, e2, r)), k) \<Rightarrow> sent = [1] \<and> got = [] \<and>
       (\<exists>ino. k_dir k ''/dev/shm/x'' = Some ino \<and> contents 4 (k_file k ino) = [1])
   | _ \<Rightarrow> False"
proof -
  let ?c = "par_run overlapped (launch_sending 2 [[1]] kernel_os ''x'' 4 [], launch_receiving 2 [] kernel_os ''x'' 4 [], kernel0)"
  have *: "case ?c of (Return (Inr (sent, e1, w)), Return (Inr (got, e2, r)), k) \<Rightarrow> sent = [1] \<and> got = []
      | _ \<Rightarrow> False" by code_simp
  obtain p' q' k' where c: "?c = (p', q', k')" by (metis prod.exhaust)
  with * obtain e1 w e2 r where pq: "p' = Return (Inr ([1], e1, w))" "q' = Return (Inr ([], e2, r))"
    by (auto split: prog.splits sum.splits)
  have path: "shmPath ''x'' = Inr ''/dev/shm/x''" by (simp add: shmPath_def)
  have new: "k_dir kernel0 ''/dev/shm/x'' = None" by (simp add: kernel0_def)
  note launched = shm_launch [OF kernel.steady_posix_axioms path new c, of undefined undefined]
  obtain ino where "k_dir k' ''/dev/shm/x'' = Some ino" "[1] = contents 4 (k_file k' ino)"
    using launched unfolding pq by auto
  then show ?thesis unfolding c pq by auto
qed

end
