(* ===== verification/Devserver.thy ===== *)
theory Devserver
  imports Prelude
begin

text \<open>
  \<^verbatim>\<open>web/devserver/main.go\<close>: the server that makes the example page cross-origin isolated. The
  file server of package \<^verbatim>\<open>net/http\<close> and \<^verbatim>\<open>ListenAndServe\<close> are parameters; of the former what
  matters is what it does to the response, a sequence of actions. Of \<^verbatim>\<open>path/filepath\<close>, \<^verbatim>\<open>Dir\<close>
  and \<^verbatim>\<open>Clean\<close> on a Unix system are defined, as far as a slash-separated path goes.
\<close>

section \<open>Responses\<close>

text \<open>
  The headers of a response may be changed until the first \<^verbatim>\<open>WriteHeader\<close> or \<^verbatim>\<open>Write\<close>, which
  sends them; later changes are lost.
\<close>

datatype action = SetHeader string string | DelHeader string | WriteHeader nat | WriteBody "8 word list"

record response =
  headers :: "string \<rightharpoonup> string"
  sent :: "(nat \<times> (string \<rightharpoonup> string)) option"
  body :: "8 word list"

definition sendHeader :: "nat \<Rightarrow> response \<Rightarrow> response" where
  "sendHeader code w = (case sent w of None \<Rightarrow> w\<lparr>sent := Some (code, headers w)\<rparr> | Some _ \<Rightarrow> w)"

fun act :: "action \<Rightarrow> response \<Rightarrow> response" where
  "act (SetHeader k v) w = w\<lparr>headers := (headers w)(k \<mapsto> v)\<rparr>"
| "act (DelHeader k) w = w\<lparr>headers := (headers w)(k := None)\<rparr>"
| "act (WriteHeader code) w = sendHeader code w"
| "act (WriteBody bs) w = (let w = sendHeader 200 w in w\<lparr>body := body w @ bs\<rparr>)"

definition newResponse :: response where
  "newResponse = \<lparr>headers = Map.empty, sent = None, body = []\<rparr>"

type_synonym 'r file_server = "string \<Rightarrow> 'r \<Rightarrow> action list"

definition handler :: "'r file_server \<Rightarrow> string \<Rightarrow> 'r \<Rightarrow> response \<Rightarrow> response" where
  "handler FileServer dir r w =
     (let w = act (SetHeader ''Cross-Origin-Opener-Policy'' ''same-origin'') w;
          w = act (SetHeader ''Cross-Origin-Embedder-Policy'' ''require-corp'') w
      in fold act (FileServer dir r) w)"


section \<open>Paths\<close>

fun splitSlash :: "string \<Rightarrow> string list" where
  "splitSlash [] = [[]]"
| "splitSlash (c # cs) = (if c = CHR ''/'' then [] # splitSlash cs else
     (case splitSlash cs of [] \<Rightarrow> [[c]] | e # es \<Rightarrow> (c # e) # es))"

fun joinSlash :: "string list \<Rightarrow> string" where
  "joinSlash [] = []"
| "joinSlash [e] = e"
| "joinSlash (e # es) = e @ CHR ''/'' # joinSlash es"

text \<open>One element of a path after the other; the elements kept so far are in reverse.\<close>

definition cleanElem :: "bool \<Rightarrow> string \<Rightarrow> string list \<Rightarrow> string list" where
  "cleanElem rooted e out =
     (if e = [] \<or> e = ''.'' then out
      else if e = ''..'' then
        (case out of [] \<Rightarrow> if rooted then [] else [''..''] | o' # os \<Rightarrow> if o' = ''..'' then ''..'' # out else os)
      else e # out)"

definition Clean :: "string \<Rightarrow> string" where
  "Clean path =
     (let rooted = (path \<noteq> [] \<and> hd path = CHR ''/'');
          s = joinSlash (rev (fold (cleanElem rooted) (splitSlash path) []))
      in if rooted then CHR ''/'' # s else if s = [] then ''.'' else s)"

definition Dir :: "string \<Rightarrow> string" where
  "Dir path = Clean (rev (dropWhile (\<lambda>c. c \<noteq> CHR ''/'') (rev path)))"

text \<open>\<^verbatim>\<open>runtime.Caller(0)\<close> is the argument: the path of the source file, where it is known.\<close>

definition defaultWebDir :: "string option \<Rightarrow> string" where
  "defaultWebDir caller = (case caller of None \<Rightarrow> ''.'' | Some thisFile \<Rightarrow> Dir (Dir thisFile))"

text \<open>\<^verbatim>\<open>main\<close>, with the values of the two flags where they are given; the log is left out.\<close>

definition devserver_main ::
  "(string \<Rightarrow> ('r \<Rightarrow> response \<Rightarrow> response) \<Rightarrow> 'e) \<Rightarrow> 'r file_server \<Rightarrow> string option \<Rightarrow>
    string option \<Rightarrow> string option \<Rightarrow> 'e" where
  "devserver_main ListenAndServe FileServer caller addr dir =
     (let addr = (case addr of None \<Rightarrow> ''localhost:8080'' | Some a \<Rightarrow> a);
          dir = (case dir of None \<Rightarrow> defaultWebDir caller | Some d \<Rightarrow> d)
      in ListenAndServe addr (handler FileServer dir))"


section \<open>Properties\<close>

definition touches :: "string \<Rightarrow> action \<Rightarrow> bool" where
  "touches k a \<longleftrightarrow> (\<exists>v. a = SetHeader k v) \<or> a = DelHeader k"

lemma headers_act: "\<not> touches k a \<Longrightarrow> headers (act a w) k = headers w k"
  by (cases a) (auto simp: touches_def sendHeader_def Let_def split: option.split)

lemma sent_act: "sent (act a w) = (case sent w of
    Some s \<Rightarrow> Some s
  | None \<Rightarrow> (case a of WriteHeader code \<Rightarrow> Some (code, headers w) | WriteBody _ \<Rightarrow> Some (200, headers w) | _ \<Rightarrow> None))"
  by (cases a) (auto simp: sendHeader_def Let_def split: option.split)

lemma sent_actions:
  assumes "\<And>a. a \<in> set as \<Longrightarrow> \<not> touches k a" "\<And>code h. sent w = Some (code, h) \<Longrightarrow> h k = headers w k"
    and "sent (fold act as w) = Some (code, h)"
  shows "h k = headers w k"
  using assms
proof (induction as arbitrary: w)
  case (Cons a as)
  have "h' k = headers (act a w) k" if "sent (act a w) = Some (code', h')" for code' h'
    using that Cons.prems(1,2) by (auto simp: sent_act headers_act split: option.splits action.splits)
  with Cons.IH [of "act a w"] Cons.prems show ?case by (simp add: headers_act)
qed auto

text \<open>
  Every page that the server sends is cross-origin isolated: whatever the file server does,
  as long as it leaves the two headers alone, they are among the headers that are sent.
\<close>

theorem handler_isolates:
  assumes "\<And>a. a \<in> set (FileServer dir r) \<Longrightarrow>
      \<not> touches ''Cross-Origin-Opener-Policy'' a \<and> \<not> touches ''Cross-Origin-Embedder-Policy'' a"
    and "sent (handler FileServer dir r newResponse) = Some (code, h)"
  shows "h ''Cross-Origin-Opener-Policy'' = Some ''same-origin'' \<and>
    h ''Cross-Origin-Embedder-Policy'' = Some ''require-corp''"
proof -
  let ?w = "act (SetHeader ''Cross-Origin-Embedder-Policy'' ''require-corp'')
      (act (SetHeader ''Cross-Origin-Opener-Policy'' ''same-origin'') newResponse)"
  have "h k = headers ?w k" if "k = ''Cross-Origin-Opener-Policy'' \<or> k = ''Cross-Origin-Embedder-Policy''" for k
    using assms(2) unfolding handler_def Let_def
    by (rule sent_actions [rotated 2]) (use that assms(1) in \<open>auto simp: newResponse_def\<close>)
  then show ?thesis by simp
qed

theorem handler_isolates_witness:
  "\<exists>h. sent (handler (\<lambda>dir r. [SetHeader ''Content-Type'' ''text/html'', WriteBody [60], DelHeader ''Content-Type'']) ''web'' () newResponse) =
      Some (200, h) \<and> h ''Cross-Origin-Opener-Policy'' = Some ''same-origin''"
proof -
  let ?serve = "\<lambda>dir r. [SetHeader ''Content-Type'' ''text/html'', WriteBody [60], DelHeader ''Content-Type'']"
  obtain h where s: "sent (handler ?serve ''web'' () newResponse) = Some (200, h)"
    by (simp add: handler_def newResponse_def sendHeader_def Let_def)
  have "h ''Cross-Origin-Opener-Policy'' = Some ''same-origin'' \<and> h ''Cross-Origin-Embedder-Policy'' = Some ''require-corp''"
    by (rule handler_isolates [OF _ s]) (auto simp: touches_def)
  with s show ?thesis by blast
qed

text \<open>An absolute path of ordinary elements, as \<^verbatim>\<open>runtime.Caller\<close> reports it.\<close>

definition ordinary :: "string \<Rightarrow> bool" where
  "ordinary e \<longleftrightarrow> e \<noteq> [] \<and> CHR ''/'' \<notin> set e \<and> e \<noteq> ''.'' \<and> e \<noteq> ''..''"

definition absolute :: "string list \<Rightarrow> string" where
  "absolute es = concat (map ((#) CHR ''/'') es)"

lemma splitSlash_elem: "CHR ''/'' \<notin> set e \<Longrightarrow> splitSlash (e @ CHR ''/'' # cs) = e # splitSlash cs"
  by (induction e) auto

lemma splitSlash_absolute: "\<forall>e \<in> set es. ordinary e \<Longrightarrow> splitSlash (absolute es @ ''/'') = [] # es @ [[]]"
proof (induction es)
  case (Cons e es)
  show ?case
  proof (cases es)
    case Nil
    with Cons.prems show ?thesis by (simp add: absolute_def ordinary_def splitSlash_elem)
  next
    case (Cons e' es')
    with Cons.prems Cons.IH show ?thesis by (simp add: absolute_def ordinary_def splitSlash_elem)
  qed
qed (simp add: absolute_def)

lemma fold_ordinary: "\<forall>e \<in> set es. ordinary e \<Longrightarrow> fold (cleanElem True) es out = rev es @ out"
  by (induction es arbitrary: out) (simp_all add: cleanElem_def ordinary_def)

lemma joinSlash_absolute: "es \<noteq> [] \<Longrightarrow> CHR ''/'' # joinSlash es = absolute es"
  by (induction es rule: joinSlash.induct) (simp_all add: absolute_def)

lemma dropWhile_slash: "c \<notin> set xs \<Longrightarrow> dropWhile (\<lambda>x. x \<noteq> c) (xs @ c # ys) = c # ys"
  by (induction xs) auto

lemma Dir_absolute:
  assumes "\<forall>e \<in> set es. ordinary e" "ordinary f" "es \<noteq> []"
  shows "Dir (absolute (es @ [f])) = absolute es"
proof -
  have "rev (dropWhile (\<lambda>c. c \<noteq> CHR ''/'') (rev (absolute (es @ [f])))) = absolute es @ ''/''"
    using assms(2) by (simp add: absolute_def ordinary_def dropWhile_slash)
  moreover have "absolute es @ ''/'' \<noteq> []" "hd (absolute es @ ''/'') = CHR ''/''"
    using assms(3) by (cases es; simp add: absolute_def)+
  ultimately show ?thesis
    using assms(1,3) by (simp add: Dir_def Clean_def splitSlash_absolute fold_ordinary cleanElem_def joinSlash_absolute)
qed

text \<open>
  The default directory is the repository's \<^verbatim>\<open>web\<close>, wherever the repository is and from
  whichever directory the server is started.
\<close>

theorem defaultWebDir_web:
  assumes "\<forall>e \<in> set root. ordinary e"
  shows "defaultWebDir (Some (absolute (root @ [''web'', ''devserver'', ''main.go'']))) = absolute (root @ [''web''])"
proof -
  have "ordinary ''web'' \<and> ordinary ''devserver'' \<and> ordinary ''main.go''" by (simp add: ordinary_def)
  with assms show ?thesis
    using Dir_absolute [of "root @ [''web'', ''devserver'']" "''main.go''"] Dir_absolute [of "root @ [''web'']" "''devserver''"]
    by (simp add: defaultWebDir_def)
qed

theorem defaultWebDir_web_witness:
  "defaultWebDir (Some ''/src/shmring/web/devserver/main.go'') = ''/src/shmring/web''"
  using defaultWebDir_web [of "[''src'', ''shmring'']"] by (simp add: absolute_def ordinary_def)

end
